(* ===== verification/Prelude.thy ===== *)
theory Prelude
  imports Main "HOL-Library.Word" "HOL-Library.Multiset" "HOL-Library.AList"
begin

unbundle bit_operations_syntax

text \<open>
  Vocabulary shared by every component: identifiers, times, and the few facts about
  Go maps, association lists and folds that the component theories have in common.

  \<^item> A Discord snowflake (\<^verbatim>\<open>snowflake.ID\<close>, a Go \<^verbatim>\<open>uint64\<close>) is a
    \<^typ>\<open>64 word\<close>.
  \<^item> \<^verbatim>\<open>time.Duration\<close> and instants are nanoseconds of type \<^typ>\<open>int\<close>; an instant counts from
    the Unix epoch, and the zero \<^verbatim>\<open>time.Time\<close> (1 January of the year 1) is
    \<open>zero_time\<close>.
  \<^item> A Go map is a partial function; reading a missing key gives the zero value of the element
    type (\<open>map_get\<close>).  Where the code depends on the keys of a map one after another, the
    order, which Go leaves open, is an explicit list.
\<close>

section \<open>Identifiers and times\<close>

type_synonym snowflake = "64 word"

type_synonym duration = int
type_synonym instant = int

definition Millisecond :: duration where "Millisecond = 1000000"
definition Second :: duration where "Second = 1000 * Millisecond"
definition Minute :: duration where "Minute = 60 * Second"

lemmas duration_defs = Millisecond_def Second_def Minute_def

definition zero_time :: instant where
  "zero_time = - 62135596800 * Second"

definition IsZero :: "instant \<Rightarrow> bool" where
  "IsZero t \<longleftrightarrow> t = zero_time"

section \<open>Go maps\<close>

text \<open>\<open>m[k]\<close> on a map without the key \<open>k\<close> is the zero value \<open>z\<close>.\<close>

definition map_get :: "'v \<Rightarrow> ('k \<rightharpoonup> 'v) \<Rightarrow> 'k \<Rightarrow> 'v" where
  "map_get z m k = (case m k of None \<Rightarrow> z | Some v \<Rightarrow> v)"

lemma map_get_upd [simp]: "map_get z (m(k \<mapsto> v)) k' = (if k' = k then v else map_get z m k')"
  by (simp add: map_get_def)

lemma map_get_del [simp]: "map_get z (m(k := None)) k' = (if k' = k then z else map_get z m k')"
  by (simp add: map_get_def)

lemma map_get_empty [simp]: "map_get z Map.empty k = z"
  by (simp add: map_get_def)

lemma map_get_Some [simp]: "m k = Some v \<Longrightarrow> map_get z m k = v"
  by (simp add: map_get_def)

lemma map_get_None [simp]: "m k = None \<Longrightarrow> map_get z m k = z"
  by (simp add: map_get_def)

section \<open>Folds\<close>

text \<open>A fold keeps an invariant that every step keeps.\<close>

lemma fold_invariant:
  assumes "P s" and "\<And>x s. x \<in> set xs \<Longrightarrow> P s \<Longrightarrow> P (f x s)"
  shows "P (fold f xs s)"
  using assms by (induction xs arbitrary: s) auto

end
