(* ===== verification/Source.thy ===== *)
theory Source
  imports Prelude
begin

text \<open>
  Audio buffers and the ring between producers and a mixer: the buffer pools of
  \<^verbatim>\<open>internal/opus/mixer.go\<close> and \<^verbatim>\<open>internal/opus/voice_receiver.go\<close> and the whole of
  \<^verbatim>\<open>internal/opus/source.go\<close>.

  A buffer has an identity, because handing one buffer to two owners, or returning it to its
  pool twice, is the mistake this code has to avoid.  \<open>accounted\<close> states that every buffer ever
  allocated is in exactly one place: a pool, the garbage collector's hands, or one owner.
  A PCM slice is always a prefix of a pool array of \<^verbatim>\<open>mixerPCMBuf\<close> samples (the only source
  of such slices is \<^verbatim>\<open>GetPCM\<close>).
\<close>

section \<open>Constants\<close>

definition mixerSampleRate :: nat where "mixerSampleRate = 48000"
definition mixerChannels :: nat where "mixerChannels = 2"
definition mixerFrameSize :: nat where "mixerFrameSize = 960"
definition mixerPCMBuf :: nat where "mixerPCMBuf = mixerFrameSize * mixerChannels"
definition mixerFrameDur :: duration where "mixerFrameDur = 20 * Millisecond"
definition mixerBitrate :: nat where "mixerBitrate = 64000"

definition encodedFrameCap :: nat where
  "encodedFrameCap = mixerBitrate * (mixerFrameSize div (mixerSampleRate div 1000)) div 1000 div 8 * 4"

definition recvFrameCap :: nat where "recvFrameCap = 256"

definition audioSourceCap :: nat where "audioSourceCap = 3"

lemma buffer_sizes [simp]:
  "mixerPCMBuf = 1920" "encodedFrameCap = 640" "recvFrameCap = 256" "audioSourceCap = 3"
  by (simp_all add: mixerPCMBuf_def mixerFrameSize_def mixerChannels_def encodedFrameCap_def
      mixerBitrate_def mixerSampleRate_def recvFrameCap_def audioSourceCap_def)

section \<open>Buffers and pools\<close>

record pcm =
  pcm_id :: nat
  pcm_samples :: "16 word list"

record packet =
  pkt_id :: nat
  pkt_cap :: nat
  pkt_bytes :: "8 word list"

text \<open>
  \<open>next_id\<close> numbers the buffers in the order of their allocation; \<open>garbage\<close> collects the
  buffers the code lets go without returning them.
\<close>

record pools =
  pcmPool :: "nat list"
  encodedFramePool :: "nat list"
  recvFramePool :: "nat list"
  garbage :: "nat list"
  next_id :: nat

definition allocate :: "pools \<Rightarrow> nat \<times> pools" where
  "allocate p = (next_id p, p\<lparr>next_id := Suc (next_id p)\<rparr>)"

definition discard :: "nat \<Rightarrow> pools \<Rightarrow> pools" where
  "discard i p = p\<lparr>garbage := i # garbage p\<rparr>"

text \<open>\<^verbatim>\<open>sync.Pool.Get\<close>: a pooled buffer, or a new one.\<close>

definition GetPCM :: "pools \<Rightarrow> nat \<times> pools" where
  "GetPCM p = (case pcmPool p of [] \<Rightarrow> allocate p | i # is \<Rightarrow> (i, p\<lparr>pcmPool := is\<rparr>))"

definition PutPCM :: "pcm \<Rightarrow> pools \<Rightarrow> pools" where
  "PutPCM s p = p\<lparr>pcmPool := pcm_id s # pcmPool p\<rparr>"

text \<open>The identity and the capacity of the slice; its length is \<open>n\<close>.\<close>

definition getEncodedFrame :: "nat \<Rightarrow> pools \<Rightarrow> (nat \<times> nat) \<times> pools" where
  "getEncodedFrame n p =
     (if n > encodedFrameCap then let (i, p') = allocate p in ((i, n), p')
      else case encodedFramePool p of
             [] \<Rightarrow> let (i, p') = allocate p in ((i, encodedFrameCap), p')
           | i # is \<Rightarrow> ((i, encodedFrameCap), p\<lparr>encodedFramePool := is\<rparr>))"

definition getRecvFrame :: "nat \<Rightarrow> pools \<Rightarrow> (nat \<times> nat) \<times> pools" where
  "getRecvFrame n p =
     (if n > recvFrameCap then let (i, p') = allocate p in ((i, n), p')
      else case recvFramePool p of
             [] \<Rightarrow> let (i, p') = allocate p in ((i, recvFrameCap), p')
           | i # is \<Rightarrow> ((i, recvFrameCap), p\<lparr>recvFramePool := is\<rparr>))"

definition PutEncodedFrame :: "packet \<Rightarrow> pools \<Rightarrow> pools" where
  "PutEncodedFrame b p =
     (if pkt_cap b = encodedFrameCap then p\<lparr>encodedFramePool := pkt_id b # encodedFramePool p\<rparr>
      else if pkt_cap b = recvFrameCap then p\<lparr>recvFramePool := pkt_id b # recvFramePool p\<rparr>
      else discard (pkt_id b) p)"

definition CopyOpusFrame :: "8 word list \<Rightarrow> pools \<Rightarrow> packet \<times> pools" where
  "CopyOpusFrame src p =
     (let ((i, c), p') = getRecvFrame (length src) p
      in (\<lparr>pkt_id = i, pkt_cap = c, pkt_bytes = src\<rparr>, p'))"

section \<open>Where every buffer is\<close>

definition pooled :: "pools \<Rightarrow> nat multiset" where
  "pooled p = mset (pcmPool p) + mset (encodedFramePool p) + mset (recvFramePool p) + mset (garbage p)"

text \<open>\<open>held\<close> are the buffers with an owner.\<close>

definition accounted :: "pools \<Rightarrow> nat multiset \<Rightarrow> bool" where
  "accounted p held \<longleftrightarrow> pooled p + held = mset_set {0..<next_id p}"

definition empty_pools :: pools where
  "empty_pools = \<lparr>pcmPool = [], encodedFramePool = [], recvFramePool = [], garbage = [], next_id = 0\<rparr>"

lemma mset_ids_Suc [simp]: "mset_set {0..<Suc n} = add_mset n (mset_set {0..<n})"
  by (simp add: atLeast0_lessThan_Suc)

lemma accounted_empty: "accounted empty_pools {#}"
  by (simp add: accounted_def pooled_def empty_pools_def)

text \<open>No buffer has two owners, none is owned and pooled.\<close>

lemma accounted_exclusive:
  assumes "accounted p held"
  shows "count held i + count (pooled p) i \<le> 1"
proof -
  have "count (pooled p + held) i = count (mset_set {0..<next_id p}) i"
    using assms by (simp only: accounted_def)
  also have "\<dots> \<le> 1" by (simp add: count_mset_set')
  finally show ?thesis by simp
qed

lemma accounted_allocate:
  "accounted p held \<Longrightarrow> allocate p = (i, p') \<Longrightarrow> accounted p' (add_mset i held)"
  by (auto simp: allocate_def accounted_def pooled_def)

lemma accounted_discard:
  "accounted p (add_mset i held) \<Longrightarrow> accounted (discard i p) held"
  by (simp add: discard_def accounted_def pooled_def)

lemma accounted_GetPCM:
  "accounted p held \<Longrightarrow> GetPCM p = (i, p') \<Longrightarrow> accounted p' (add_mset i held)"
  by (auto simp: GetPCM_def accounted_allocate accounted_def pooled_def allocate_def split: list.splits)

lemma accounted_PutPCM:
  "accounted p (add_mset (pcm_id s) held) \<Longrightarrow> accounted (PutPCM s p) held"
  by (simp add: PutPCM_def accounted_def pooled_def)

lemma accounted_PutEncodedFrame:
  "accounted p (add_mset (pkt_id b) held) \<Longrightarrow> accounted (PutEncodedFrame b p) held"
  by (auto simp: PutEncodedFrame_def accounted_def pooled_def discard_def)

lemma accounted_CopyOpusFrame:
  "accounted p held \<Longrightarrow> CopyOpusFrame src p = (b, p') \<Longrightarrow> accounted p' (add_mset (pkt_id b) held)"
  by (auto simp: CopyOpusFrame_def getRecvFrame_def allocate_def accounted_def pooled_def Let_def
      split: if_splits list.splits)

lemma accounted_getEncodedFrame:
  "accounted p held \<Longrightarrow> getEncodedFrame n p = ((i, c), p') \<Longrightarrow> accounted p' (add_mset i held)"
  by (auto simp: getEncodedFrame_def allocate_def accounted_def pooled_def Let_def
      split: if_splits list.splits)

lemma CopyOpusFrame_bytes: "CopyOpusFrame src p = (b, p') \<Longrightarrow> pkt_bytes b = src"
  by (auto simp: CopyOpusFrame_def Let_def split_def)

section \<open>Frames\<close>

text \<open>A nil slice is \<open>None\<close>.\<close>

record Frame =
  PCM :: "pcm option"
  Opus :: "packet option"
  CreatedAt :: instant

definition zero_frame :: Frame where
  "zero_frame = \<lparr>PCM = None, Opus = None, CreatedAt = zero_time\<rparr>"

definition frame_bufs :: "Frame \<Rightarrow> nat multiset" where
  "frame_bufs f = mset (map pcm_id ((case PCM f of None \<Rightarrow> [] | Some s \<Rightarrow> [s])) @ map pkt_id ((case Opus f of None \<Rightarrow> [] | Some b \<Rightarrow> [b])))"

text \<open>The release of a frame that \<^verbatim>\<open>Feed\<close>, \<^verbatim>\<open>Drain\<close> and \<^verbatim>\<open>collectFrames\<close> share.\<close>

definition put_frame :: "Frame \<Rightarrow> pools \<Rightarrow> pools" where
  "put_frame f p =
     (let p1 = (case PCM f of None \<Rightarrow> p | Some s \<Rightarrow> PutPCM s p)
      in case Opus f of None \<Rightarrow> p1 | Some b \<Rightarrow> PutEncodedFrame b p1)"

lemma accounted_put_frame:
  "accounted p (frame_bufs f + held) \<Longrightarrow> accounted (put_frame f p) held"
  by (auto simp: put_frame_def frame_bufs_def Let_def
      intro!: accounted_PutPCM accounted_PutEncodedFrame split: option.splits)
     (simp add: add_mset_commute)

lemma accounted_put_frames:
  "accounted p (sum_list (map frame_bufs fs) + held) \<Longrightarrow> accounted (fold put_frame fs p) held"
proof (induction fs arbitrary: p)
  case (Cons f fs)
  then have "accounted (put_frame f p) (sum_list (map frame_bufs fs) + held)"
    by (intro accounted_put_frame) (simp add: ac_simps)
  with Cons.IH show ?case by simp
qed simp

section \<open>The pull interface\<close>

record 's AudioSource =
  a_Pull :: "'s \<Rightarrow> 's \<times> Frame option"
  a_Drain :: "'s \<Rightarrow> pools \<Rightarrow> 's \<times> pools"
  a_Len :: "'s \<Rightarrow> nat"

text \<open>A source is a queue of frames: \<open>frames\<close> lists what is buffered, oldest first.\<close>

locale audio_source =
  fixes A :: "'s AudioSource" and frames :: "'s \<Rightarrow> Frame list" and wf :: "'s \<Rightarrow> bool"
  assumes pull: "wf s \<Longrightarrow> a_Pull A s = (s', r) \<Longrightarrow>
      wf s' \<and> (case frames s of [] \<Rightarrow> r = None \<and> frames s' = []
                                | f # fs \<Rightarrow> r = Some f \<and> frames s' = fs)"
    and drain: "wf s \<Longrightarrow> a_Drain A s p = (s', p') \<Longrightarrow>
      wf s' \<and> frames s' = [] \<and> p' = fold put_frame (frames s) p"
    and len: "wf s \<Longrightarrow> a_Len A s = length (frames s)"

section \<open>The ring\<close>

text \<open>\<open>drop_count\<close> counts the calls of the \<^verbatim>\<open>drop\<close> callback; \<open>has_drop\<close> is \<^verbatim>\<open>drop != nil\<close>.\<close>

record SourceBuffer =
  ring :: "Frame list"
  head :: nat
  sb_n :: nat
  has_drop :: bool
  drop_count :: nat

definition NewSourceBuffer :: "bool \<Rightarrow> SourceBuffer" where
  "NewSourceBuffer d = \<lparr>ring = replicate audioSourceCap zero_frame, head = 0, sb_n = 0,
     has_drop = d, drop_count = 0\<rparr>"

definition Feed :: "Frame \<Rightarrow> SourceBuffer \<Rightarrow> pools \<Rightarrow> SourceBuffer \<times> pools \<times> nat" where
  "Feed f s p =
     (let ahead = sb_n s;
          full = (sb_n s = audioSourceCap);
          (s1, p1) = (if full
             then (s\<lparr>head := (head s + 1) mod audioSourceCap, sb_n := sb_n s - 1\<rparr>,
                   put_frame (ring s ! head s) p)
             else (s, p));
          s2 = s1\<lparr>ring := (ring s1)[(head s1 + sb_n s1) mod audioSourceCap := f], sb_n := sb_n s1 + 1\<rparr>;
          s3 = (if full \<and> has_drop s2 then s2\<lparr>drop_count := drop_count s2 + 1\<rparr> else s2)
      in (s3, p1, ahead))"

definition Len :: "SourceBuffer \<Rightarrow> nat" where
  "Len s = sb_n s"

definition Pull :: "SourceBuffer \<Rightarrow> SourceBuffer \<times> Frame option" where
  "Pull s =
     (if sb_n s = 0 then (s, None)
      else (s\<lparr>head := (head s + 1) mod audioSourceCap, sb_n := sb_n s - 1\<rparr>, Some (ring s ! head s)))"

function Drain :: "SourceBuffer \<Rightarrow> pools \<Rightarrow> SourceBuffer \<times> pools" where
  "Drain s p =
     (if sb_n s > 0
      then Drain (s\<lparr>head := (head s + 1) mod audioSourceCap, sb_n := sb_n s - 1\<rparr>)
             (put_frame (ring s ! head s) p)
      else (s, p))"
  by pat_completeness auto
termination by (relation "measure (\<lambda>(s, p). sb_n s)") auto

declare Drain.simps [simp del]

definition source_buffer :: "SourceBuffer AudioSource" where
  "source_buffer = \<lparr>a_Pull = Pull, a_Drain = Drain, a_Len = Len\<rparr>"

section \<open>The ring is a queue of at most three frames\<close>

definition ring_wf :: "SourceBuffer \<Rightarrow> bool" where
  "ring_wf s \<longleftrightarrow> length (ring s) = 3 \<and> head s < 3 \<and> sb_n s \<le> 3"

definition queued :: "SourceBuffer \<Rightarrow> Frame list" where
  "queued s = map (\<lambda>i. ring s ! ((head s + i) mod 3)) [0..<sb_n s]"

lemma upto_3: "[0..<Suc 0] = [0]" "[0..<2] = [0, 1]" "[0..<3] = [0, 1, 2 :: nat]"
  by (simp_all add: upt_conv_Cons)

lemma queued_length: "length (queued s) = sb_n s"
  by (simp add: queued_def)

lemma queued_pop:
  assumes "ring_wf s" and "sb_n s > 0"
  shows "queued s = ring s ! head s #
      queued (s\<lparr>head := (head s + 1) mod 3, sb_n := sb_n s - 1\<rparr>)"
    and "ring_wf (s\<lparr>head := (head s + 1) mod 3, sb_n := sb_n s - 1\<rparr>)"
proof -
  obtain k where k: "sb_n s = Suc k" using assms(2) by (cases "sb_n s") auto
  have "map (\<lambda>i. ring s ! ((head s + i) mod 3)) [Suc 0..<Suc k] =
      map (\<lambda>i. ring s ! (((head s + 1) mod 3 + i) mod 3)) [0..<k]"
    by (simp add: map_Suc_upt [symmetric] comp_def mod_simps del: upt_Suc)
  then show "queued s = ring s ! head s #
      queued (s\<lparr>head := (head s + 1) mod 3, sb_n := sb_n s - 1\<rparr>)"
    using assms(1) by (simp add: queued_def k upt_conv_Cons ring_wf_def del: upt_Suc)
  show "ring_wf (s\<lparr>head := (head s + 1) mod 3, sb_n := sb_n s - 1\<rparr>)"
    using assms by (auto simp: ring_wf_def)
qed

lemma Drain_queued:
  "ring_wf s \<Longrightarrow> Drain s p = (s', p') \<Longrightarrow> ring_wf s' \<and> queued s' = [] \<and> p' = fold put_frame (queued s) p"
proof (induction s p rule: Drain.induct)
  case (1 s p)
  show ?case
  proof (cases "sb_n s > 0")
    case True
    with 1 queued_pop [OF 1(2)] show ?thesis by (simp add: Drain.simps [of s])
  next
    case False
    with 1(2,3) show ?thesis by (auto simp: Drain.simps [of s] queued_def)
  qed
qed

interpretation ring: audio_source source_buffer queued ring_wf
proof (unfold_locales, goal_cases)
  case (1 s s' r)
  show ?case
  proof (cases "sb_n s > 0")
    case True
    with 1 queued_pop [OF 1(1)] show ?thesis by (auto simp: source_buffer_def Pull_def)
  next
    case False
    with 1 show ?thesis by (auto simp: source_buffer_def Pull_def queued_def)
  qed
next
  case (2 s p s' p')
  then show ?case using Drain_queued by (simp add: source_buffer_def)
next
  case (3 s)
  then show ?case by (simp add: source_buffer_def Len_def queued_length)
qed

lemma queued_push:
  assumes "ring_wf s" and "sb_n s < 3"
  shows "queued (s\<lparr>ring := (ring s)[(head s + sb_n s) mod 3 := f], sb_n := sb_n s + 1\<rparr>) = queued s @ [f]"
    and "ring_wf (s\<lparr>ring := (ring s)[(head s + sb_n s) mod 3 := f], sb_n := sb_n s + 1\<rparr>)"
proof -
  have other: "(head s + sb_n s) mod 3 \<noteq> (head s + i) mod 3" if "i < sb_n s" for i
  proof
    assume "(head s + sb_n s) mod 3 = (head s + i) mod 3"
    then have "3 dvd (head s + sb_n s) - (head s + i)"
      using that by (simp add: mod_eq_dvd_iff_nat)
    then show False using that assms(2) by (auto dest: dvd_imp_le)
  qed
  show "queued (s\<lparr>ring := (ring s)[(head s + sb_n s) mod 3 := f], sb_n := sb_n s + 1\<rparr>) = queued s @ [f]"
    using assms other by (simp add: queued_def ring_wf_def)
  show "ring_wf (s\<lparr>ring := (ring s)[(head s + sb_n s) mod 3 := f], sb_n := sb_n s + 1\<rparr>)"
    using assms by (simp add: ring_wf_def)
qed

lemma queued_drop_count [simp]:
  "queued (s\<lparr>drop_count := c\<rparr>) = queued s" "ring_wf (s\<lparr>drop_count := c\<rparr>) = ring_wf s"
  by (simp_all add: queued_def ring_wf_def)

lemma Feed_queued:
  assumes wf: "ring_wf s" and fd: "Feed f s p = (s', p', ahead)"
  shows "ring_wf s' \<and> ahead = length (queued s) \<and>
    (if length (queued s) = 3
     then queued s' = tl (queued s) @ [f] \<and> p' = put_frame (hd (queued s)) p \<and>
       drop_count s' = drop_count s + (if has_drop s then 1 else 0)
     else queued s' = queued s @ [f] \<and> p' = p \<and> drop_count s' = drop_count s)"
proof (cases "sb_n s = 3")
  case True
  let ?s1 = "s\<lparr>head := (head s + 1) mod 3, sb_n := sb_n s - 1\<rparr>"
  have pop: "queued s = ring s ! head s # queued ?s1" "ring_wf ?s1"
    using queued_pop [OF wf] True by simp_all
  moreover have "queued (?s1\<lparr>ring := (ring ?s1)[(head ?s1 + sb_n ?s1) mod 3 := f], sb_n := sb_n ?s1 + 1\<rparr>)
      = queued ?s1 @ [f]"
    "ring_wf (?s1\<lparr>ring := (ring ?s1)[(head ?s1 + sb_n ?s1) mod 3 := f], sb_n := sb_n ?s1 + 1\<rparr>)"
    using queued_push [OF pop(2)] True by simp_all
  ultimately show ?thesis
    using fd True queued_length [of s] by (auto simp: Feed_def Let_def)
next
  case False
  then have "sb_n s < 3" using wf by (simp add: ring_wf_def)
  with False show ?thesis
    using fd queued_push [OF wf] queued_length [of s] by (auto simp: Feed_def Let_def)
qed

lemma NewSourceBuffer_wf: "ring_wf (NewSourceBuffer d)" "queued (NewSourceBuffer d) = []"
  by (simp_all add: NewSourceBuffer_def ring_wf_def queued_def)

text \<open>
  A mixer input keeps the newest three frames in order: \<^verbatim>\<open>Feed\<close> appends at the back,
  and only when three frames wait does it evict the oldest one, returning that frame's buffers
  and calling the drop callback once; it reports how many frames were ahead.
\<close>

theorem Feed_keeps_newest:
  assumes "ring_wf s" and "Feed f s p = (s', p', ahead)"
  shows "ring_wf s' \<and> ahead = length (queued s) \<and>
    queued s' = (if ahead = audioSourceCap then tl (queued s) else queued s) @ [f] \<and>
    p' = (if ahead = audioSourceCap then put_frame (hd (queued s)) p else p) \<and>
    drop_count s' = drop_count s + (if ahead = audioSourceCap \<and> has_drop s then 1 else 0)"
  using Feed_queued [OF assms] by (simp split: if_splits)

definition numbered_frame :: "nat \<Rightarrow> Frame" where
  "numbered_frame i = \<lparr>PCM = Some \<lparr>pcm_id = i, pcm_samples = [of_nat i]\<rparr>, Opus = None, CreatedAt = int i\<rparr>"

definition full_ring :: SourceBuffer where
  "full_ring = \<lparr>ring = [numbered_frame 2, numbered_frame 0, numbered_frame 1], head = 1, sb_n = 3,
     has_drop = True, drop_count = 0\<rparr>"

lemma full_ring_queued:
  "ring_wf full_ring" "queued full_ring = [numbered_frame 0, numbered_frame 1, numbered_frame 2]"
  by (simp_all add: full_ring_def ring_wf_def queued_def upto_3)

lemma Feed_keeps_newest_witness:
  "case Feed (numbered_frame 3) full_ring empty_pools of
     (s', p', ahead) \<Rightarrow>
       queued s' = [numbered_frame 1, numbered_frame 2, numbered_frame 3] \<and>
       drop_count s' = 1 \<and> pcmPool p' = [0] \<and> ahead = 3"
proof -
  obtain s' p' ahead where f: "Feed (numbered_frame 3) full_ring empty_pools = (s', p', ahead)"
    by (metis prod_cases3)
  show ?thesis
    using Feed_keeps_newest [OF full_ring_queued(1) f]
    by (simp add: f full_ring_queued(2))
      (simp add: full_ring_def numbered_frame_def put_frame_def PutPCM_def empty_pools_def)
qed

lemma accounted_Feed:
  assumes "ring_wf s" and "Feed f s p = (s', p', ahead)"
    and "accounted p (frame_bufs f + sum_list (map frame_bufs (queued s)) + held)"
  shows "accounted p' (sum_list (map frame_bufs (queued s')) + held)"
proof (cases "length (queued s) = 3")
  case True
  then obtain g gs where q: "queued s = g # gs" by (cases "queued s") auto
  have "accounted (put_frame g p) (sum_list (map frame_bufs (gs @ [f])) + held)"
    by (rule accounted_put_frame) (use assms(3) q in \<open>simp add: ac_simps\<close>)
  with Feed_queued [OF assms(1,2)] True q show ?thesis by simp
next
  case False
  with Feed_queued [OF assms(1,2)] assms(3) show ?thesis by (simp add: ac_simps)
qed

lemma accounted_Drain:
  assumes "ring_wf s" and "Drain s p = (s', p')"
    and "accounted p (sum_list (map frame_bufs (queued s)) + held)"
  shows "accounted p' held"
  using Drain_queued [OF assms(1,2)] accounted_put_frames [OF assms(3)] by simp

end
