(* ===== verification/Mixer.thy ===== *)
theory Mixer
  imports Source
begin

text \<open>
  The mixer of \<^verbatim>\<open>internal/opus/mixer.go\<close>: its inputs and their snapshot, one 20 ms tick
  with its four outcomes, the fixed-point mix, and the schedule of the ticks.

  The inputs are references to audio sources; a heap maps a reference to the state of its
  source, because the producers of a source hold the same reference.  The Opus encoder is a
  library; it is a parameter \<open>encode\<close> with a state of its own.  Samples are \<^typ>\<open>16 word\<close> and
  sums \<^typ>\<open>32 word\<close>, as in the code.
\<close>

section \<open>State\<close>

record 'e Mixer =
  inputs :: "(snowflake \<times> nat) list"
  inputsSnap :: "nat list option"
  paused :: bool
  lastActivityAt :: instant
  pausedDrops :: "64 word"
  has_sink :: bool
  enc :: 'e
  framesBuf :: "Frame list"
  mixed :: "32 word list"
  pcm_out :: "16 word list"

text \<open>
  \<^verbatim>\<open>NewMixer\<close>: the constructor of the encoder and its four settings may fail, in this order.
\<close>

definition NewMixer :: "string + 'e \<Rightarrow> ('e \<Rightarrow> string + 'e) list \<Rightarrow> instant \<Rightarrow> string + 'e Mixer" where
  "NewMixer new_encoder settings now =
     (case fold (\<lambda>set r. case r of Inl err \<Rightarrow> Inl err | Inr e \<Rightarrow> set e) settings new_encoder of
        Inl err \<Rightarrow> Inl err
      | Inr e \<Rightarrow> Inr \<lparr>inputs = [], inputsSnap = None, paused = False, lastActivityAt = now,
          pausedDrops = 0, has_sink = False, enc = e, framesBuf = [],
          mixed = replicate mixerPCMBuf 0, pcm_out = replicate mixerPCMBuf 0\<rparr>)"

definition SetSink :: "'e Mixer \<Rightarrow> 'e Mixer" where
  "SetSink m = m\<lparr>has_sink := True\<rparr>"

text \<open>The snapshot lists the values of the map in its order of iteration.\<close>

definition rebuildSnapLocked :: "'e Mixer \<Rightarrow> 'e Mixer" where
  "rebuildSnapLocked m = m\<lparr>inputsSnap := Some (map snd (inputs m))\<rparr>"

definition AddInput :: "snowflake \<Rightarrow> nat \<Rightarrow> 'e Mixer \<Rightarrow> 'e Mixer" where
  "AddInput i src m = rebuildSnapLocked (m\<lparr>inputs := AList.update i src (inputs m)\<rparr>)"

definition RemoveInput :: "snowflake \<Rightarrow> 'e Mixer \<Rightarrow> 'e Mixer" where
  "RemoveInput i m = rebuildSnapLocked (m\<lparr>inputs := AList.delete i (inputs m)\<rparr>)"

definition InputIDs :: "'e Mixer \<Rightarrow> snowflake list" where
  "InputIDs m = map fst (inputs m)"

definition SetPaused :: "bool \<Rightarrow> instant \<Rightarrow> 'e Mixer \<Rightarrow> 'e Mixer" where
  "SetPaused p now m =
     (let prev = paused m; m' = m\<lparr>paused := p\<rparr>
      in if prev \<and> \<not> p then m'\<lparr>lastActivityAt := now\<rparr> else m')"

definition PausedDrops :: "'e Mixer \<Rightarrow> 64 word" where
  "PausedDrops m = pausedDrops m"

definition Paused :: "'e Mixer \<Rightarrow> bool" where
  "Paused m = paused m"

definition IdleFor :: "instant \<Rightarrow> 'e Mixer \<Rightarrow> duration" where
  "IdleFor now m = (let t = lastActivityAt m in if t = 0 then 0 else now - t)"

definition readInputsSnapshot :: "'e Mixer \<Rightarrow> nat list" where
  "readInputsSnapshot m = (case inputsSnap m of None \<Rightarrow> [] | Some snap \<Rightarrow> snap)"

section \<open>One tick\<close>

definition pcm_length :: "Frame \<Rightarrow> nat" where
  "pcm_length f = (case PCM f of None \<Rightarrow> 0 | Some s \<Rightarrow> length (pcm_samples s))"

text \<open>The state the loop of \<^verbatim>\<open>collectFrames\<close> works on.\<close>

record ('s, 'e) tick_state =
  t_mixer :: "'e Mixer"
  t_heap :: "nat \<Rightarrow> 's"
  t_pools :: pools
  t_drained :: nat

definition collect_input :: "'s AudioSource \<Rightarrow> bool \<Rightarrow> nat \<Rightarrow> ('s, 'e) tick_state \<Rightarrow> ('s, 'e) tick_state" where
  "collect_input A is_paused r t =
     (let m = t_mixer t; s = t_heap t r in
      if is_paused then
        let n = a_Len A s;
            t1 = (if n > 0
              then t\<lparr>t_mixer := m\<lparr>pausedDrops := pausedDrops m + of_nat n\<rparr>, t_drained := t_drained t + n\<rparr>
              else t);
            (s', p') = a_Drain A s (t_pools t)
        in t1\<lparr>t_heap := (t_heap t)(r := s'), t_pools := p'\<rparr>
      else
        case a_Pull A s of
          (s', None) \<Rightarrow> t\<lparr>t_heap := (t_heap t)(r := s')\<rparr>
        | (s', Some f) \<Rightarrow>
            if pcm_length f = 0
            then t\<lparr>t_heap := (t_heap t)(r := s'), t_pools := put_frame f (t_pools t)\<rparr>
            else t\<lparr>t_heap := (t_heap t)(r := s'), t_mixer := m\<lparr>framesBuf := framesBuf m @ [f]\<rparr>\<rparr>)"

definition collectFrames ::
  "'s AudioSource \<Rightarrow> nat list \<Rightarrow> bool \<Rightarrow> 'e Mixer \<Rightarrow> (nat \<Rightarrow> 's) \<Rightarrow> pools \<Rightarrow> ('s, 'e) tick_state" where
  "collectFrames A entries is_paused m h p =
     fold (collect_input A is_paused) entries
       \<lparr>t_mixer = m\<lparr>framesBuf := []\<rparr>, t_heap = h, t_pools = p, t_drained = 0\<rparr>"

definition put_pcm_of :: "Frame \<Rightarrow> pools \<Rightarrow> pools" where
  "put_pcm_of f p = (case PCM f of None \<Rightarrow> p | Some s \<Rightarrow> PutPCM s p)"

definition recyclePCMBuffers :: "Frame list \<Rightarrow> pools \<Rightarrow> pools" where
  "recyclePCMBuffers fs p = fold put_pcm_of fs p"

fun oldestCreatedAt_from :: "instant \<Rightarrow> Frame list \<Rightarrow> instant" where
  "oldestCreatedAt_from oldest [] = oldest"
| "oldestCreatedAt_from oldest (f # fs) =
     (if IsZero (CreatedAt f) then oldestCreatedAt_from oldest fs
      else if IsZero oldest \<or> CreatedAt f < oldest then oldestCreatedAt_from (CreatedAt f) fs
      else oldestCreatedAt_from oldest fs)"

definition oldestCreatedAt :: "Frame list \<Rightarrow> instant" where
  "oldestCreatedAt fs = oldestCreatedAt_from zero_time fs"

text \<open>
  The accumulation loop, four samples a step.  \<open>None\<close> is the panic of an index out of range: a
  frame whose length is not a multiple of four, or one longer than the accumulator.
\<close>

fun accumulate :: "16 word list \<Rightarrow> 32 word list \<Rightarrow> 32 word list option" where
  "accumulate [] ms = Some ms"
| "accumulate (a # b # c # d # ps) (w # x # y # z # ms) =
     map_option (\<lambda>r. (w + scast a) # (x + scast b) # (y + scast c) # (z + scast d) # r) (accumulate ps ms)"
| "accumulate _ _ = None"

fun accumulate_frames :: "Frame list \<Rightarrow> 32 word list \<Rightarrow> 32 word list option" where
  "accumulate_frames [] ms = Some ms"
| "accumulate_frames (f # fs) ms =
     Option.bind (accumulate (case PCM f of None \<Rightarrow> [] | Some s \<Rightarrow> pcm_samples s) ms)
       (accumulate_frames fs)"

text \<open>
  \<^verbatim>\<open>int32(float64(1<<15) / math.Sqrt(n))\<close> is the integer square root of \<open>2 ^ 30 div n\<close>,
  found bit by bit from the top.
\<close>

fun isqrt_bits :: "nat \<Rightarrow> nat \<Rightarrow> nat \<Rightarrow> nat" where
  "isqrt_bits 0 acc N = acc"
| "isqrt_bits (Suc b) acc N =
     isqrt_bits b (if (acc + 2 ^ b) * (acc + 2 ^ b) \<le> N then acc + 2 ^ b else acc) N"

definition q15_scale :: "nat \<Rightarrow> nat" where
  "q15_scale n = isqrt_bits 16 0 (2 ^ 30 div n)"

definition mix_sample :: "32 word \<Rightarrow> 32 word \<Rightarrow> 16 word" where
  "mix_sample scale v =
     word_of_int (max (- 32768) (min 32767 (sint (signed_drop_bit 15 (v * scale)))))"

text \<open>The outcome of a tick; \<open>Emitted\<close> carries the packet handed to the sink.\<close>

datatype tick_result = Silent | Emitted "packet option" | Recycled | EncodeFailed string

definition mixAndEncode ::
  "('e \<Rightarrow> 16 word list \<Rightarrow> 'e \<times> (string + 8 word list)) \<Rightarrow> 'e Mixer \<Rightarrow> pools \<Rightarrow>
     ('e Mixer \<times> pools \<times> (string + packet)) option" where
  "mixAndEncode encode m p =
     (case accumulate_frames (framesBuf m) (replicate (length (mixed m)) 0) of
        None \<Rightarrow> None
      | Some sums \<Rightarrow>
          let p1 = fold put_pcm_of (framesBuf m) p;
              scale = of_nat (q15_scale (length (framesBuf m)));
              samples = map (mix_sample scale) sums;
              (e', r) = encode (enc m) samples;
              m' = m\<lparr>mixed := sums, pcm_out := samples, enc := e'\<rparr>
          in case r of
               Inl err \<Rightarrow> Some (m', p1, Inl err)
             | Inr bytes \<Rightarrow>
                 let ((i, c), p2) = getEncodedFrame (length bytes) p1
                 in Some (m', p2, Inr \<lparr>pkt_id = i, pkt_cap = c, pkt_bytes = bytes\<rparr>))"

definition emit :: "packet option \<Rightarrow> 'e Mixer \<Rightarrow> pools \<Rightarrow> pools \<times> tick_result" where
  "emit pkt m p =
     (if has_sink m then (p, Emitted pkt)
      else (case pkt of None \<Rightarrow> p | Some b \<Rightarrow> PutEncodedFrame b p, Recycled))"

definition tick ::
  "'s AudioSource \<Rightarrow> ('e \<Rightarrow> 16 word list \<Rightarrow> 'e \<times> (string + 8 word list)) \<Rightarrow> instant \<Rightarrow>
     'e Mixer \<Rightarrow> (nat \<Rightarrow> 's) \<Rightarrow> pools \<Rightarrow> ('e Mixer \<times> (nat \<Rightarrow> 's) \<times> pools \<times> tick_result) option" where
  "tick A encode now m h p =
     (let is_paused = paused m;
          t = collectFrames A (readInputsSnapshot m) is_paused m h p;
          m1 = t_mixer t;
          m2 = (if framesBuf m1 \<noteq> [] \<or> t_drained t > 0 then m1\<lparr>lastActivityAt := now\<rparr> else m1)
      in if is_paused \<or> framesBuf m2 = []
         then Some (m2, t_heap t, recyclePCMBuffers (framesBuf m2) (t_pools t), Silent)
         else if length (framesBuf m2) = 1
         then let f = hd (framesBuf m2);
                  p1 = put_pcm_of f (t_pools t);
                  (p2, r) = emit (Opus f) m2 p1
              in Some (m2, t_heap t, p2, r)
         else case mixAndEncode encode m2 (t_pools t) of
                None \<Rightarrow> None
              | Some (m3, p1, Inl err) \<Rightarrow> Some (m3, t_heap t, p1, EncodeFailed err)
              | Some (m3, p1, Inr out) \<Rightarrow>
                  let (p2, r) = emit (Some out) m3 p1 in Some (m3, t_heap t, p2, r))"

section \<open>The schedule\<close>

text \<open>\<^verbatim>\<open>tickSchedule\<close> is its deadline.\<close>

definition newTickSchedule :: "instant \<Rightarrow> instant" where
  "newTickSchedule start = start"

definition lateness :: "instant \<Rightarrow> instant \<Rightarrow> duration" where
  "lateness deadline now = max (now - deadline) 0"

definition next_tick :: "instant \<Rightarrow> instant \<Rightarrow> instant \<times> duration" where
  "next_tick deadline now =
     (let d1 = deadline + mixerFrameDur; wait = d1 - now in
      if wait < 0
      then let missed = (- wait) div mixerFrameDur + 1; d2 = d1 + missed * mixerFrameDur
           in (d2, max (d2 - now) Millisecond)
      else (d1, max wait Millisecond))"

section \<open>The mix\<close>

definition samples_of :: "Frame \<Rightarrow> 16 word list" where
  "samples_of f = (case PCM f of None \<Rightarrow> [] | Some s \<Rightarrow> pcm_samples s)"

text \<open>What a frame adds to the sum at position \<open>i\<close>, as an integer.\<close>

definition sample_at :: "Frame \<Rightarrow> nat \<Rightarrow> int" where
  "sample_at f i = (if i < length (samples_of f) then sint (samples_of f ! i) else 0)"

definition clamp16 :: "int \<Rightarrow> int" where
  "clamp16 v = max (- 32768) (min 32767 v)"

text \<open>What the unrolled loop can index: a multiple of four samples, no more than the accumulator.\<close>

definition mixable :: "Frame \<Rightarrow> bool" where
  "mixable f \<longleftrightarrow> length (samples_of f) mod 4 = 0 \<and> length (samples_of f) \<le> mixerPCMBuf"

definition padded :: "16 word list \<Rightarrow> nat \<Rightarrow> 32 word list" where
  "padded ps n = map scast ps @ replicate (n - length ps) 0"

lemma padded_simps [simp]:
  "padded [] n = replicate n 0" "padded (p # ps) (Suc n) = scast p # padded ps n"
  "length ps \<le> n \<Longrightarrow> length (padded ps n) = n"
  by (simp_all add: padded_def)

lemma padded_nth:
  "i < n \<Longrightarrow> length ps \<le> n \<Longrightarrow> padded ps n ! i = (if i < length ps then scast (ps ! i) else 0)"
  by (simp add: padded_def nth_append)

lemma map2_plus_zeros: "map2 (+) ms (replicate (length ms) 0) = (ms :: 32 word list)"
  by (induction ms) simp_all

lemma mod_4_Suc: "Suc (Suc (Suc (Suc n))) mod 4 = n mod 4"
  by presburger

lemma accumulate_padded:
  "length ps mod 4 = 0 \<Longrightarrow> length ps \<le> length ms \<Longrightarrow>
     accumulate ps ms = Some (map2 (+) ms (padded ps (length ms)))"
proof (induction ps ms rule: accumulate.induct)
  case (2 a b c d ps w x y z ms)
  then have "length ps mod 4 = 0" by (simp add: mod_4_Suc)
  with 2 show ?case by simp
next
  case (1 ms)
  show ?case by (simp add: map2_plus_zeros)
next
  case "3_1" then show ?case by simp
next
  case "3_2" then show ?case by simp
next
  case "3_3" then show ?case by simp
next
  case "3_4" then show ?case by simp
next
  case "3_5" then show ?case by simp
next
  case "3_6" then show ?case by simp
next
  case "3_7" then show ?case by simp
qed

lemma accumulate_frames_nth:
  "list_all mixable fs \<Longrightarrow> length ms = mixerPCMBuf \<Longrightarrow>
     \<exists>sums. accumulate_frames fs ms = Some sums \<and> length sums = mixerPCMBuf \<and>
       (\<forall>i < mixerPCMBuf. sums ! i = ms ! i + word_of_int (\<Sum>f \<leftarrow> fs. sample_at f i))"
proof (induction fs arbitrary: ms)
  case (Cons f fs)
  let ?ps = "samples_of f"
  let ?ms = "map2 (+) ms (padded ?ps mixerPCMBuf)"
  have ok: "length ?ps mod 4 = 0" "length ?ps \<le> mixerPCMBuf"
    using Cons.prems(1) by (simp_all add: mixable_def)
  have acc: "accumulate ?ps ms = Some ?ms"
    using accumulate_padded [OF ok(1), of ms] ok(2) Cons.prems(2) by simp
  have len: "length ?ms = mixerPCMBuf" using Cons.prems(2) ok(2) by simp
  obtain sums where sums: "accumulate_frames fs ?ms = Some sums" "length sums = mixerPCMBuf"
    "\<forall>i < mixerPCMBuf. sums ! i = ?ms ! i + word_of_int (\<Sum>f \<leftarrow> fs. sample_at f i)"
    using Cons.IH [OF _ len] Cons.prems(1) by auto
  have "?ms ! i = ms ! i + word_of_int (sample_at f i)" if "i < mixerPCMBuf" for i
    using that Cons.prems(2) ok(2)
    by (simp add: padded_nth sample_at_def del: buffer_sizes)
  with sums acc show ?case
    by (simp add: samples_of_def ac_simps del: buffer_sizes)
qed simp

lemma int32_exact:
  assumes "- (2 ^ 31) \<le> k" and "k < 2 ^ 31"
  shows "sint (word_of_int k :: 32 word) = k"
  using assms by (simp add: sint_sbintrunc' signed_take_bit_int_eq_self)

lemma word_sint_wrap:
  assumes "2 ^ 31 \<le> k" and "k < 2 ^ 32"
  shows "sint (word_of_int k :: 32 word) = k - 2 ^ 32"
proof -
  have "signed_take_bit 31 k = signed_take_bit 31 (k - 2 ^ 32)"
    by (simp add: signed_take_bit_eq_iff_take_bit_eq take_bit_eq_mod)
  also have "\<dots> = k - 2 ^ 32"
    by (rule signed_take_bit_int_eq_self) (use assms in simp_all)
  finally show ?thesis by (simp add: sint_sbintrunc')
qed

lemma mix_sample_exact:
  assumes "- (2 ^ 31) \<le> s * k" and "s * k < 2 ^ 31"
  shows "mix_sample (word_of_int k) (word_of_int s) = word_of_int (clamp16 (s * k div 2 ^ 15))"
proof -
  have "sint (signed_drop_bit 15 (word_of_int s * word_of_int k :: 32 word)) = s * k div 2 ^ 15"
    using int32_exact [OF assms] by (simp add: sint_signed_drop_bit_eq drop_bit_eq_div flip: of_int_mult)
  then show ?thesis by (simp add: mix_sample_def clamp16_def)
qed

lemma sample_range: "- 32768 \<le> sample_at f i \<and> sample_at f i \<le> 32767"
  using sint_ge [of "samples_of f ! i"] sint_lt [of "samples_of f ! i"] by (auto simp: sample_at_def)

lemma sum_range:
  "- (int (length fs) * 32768) \<le> (\<Sum>f \<leftarrow> fs. sample_at f i) \<and>
   (\<Sum>f \<leftarrow> fs. sample_at f i) \<le> int (length fs) * 32767"
proof (induction fs)
  case (Cons f fs)
  with sample_range [of f i] show ?case by (simp add: algebra_simps)
qed simp

lemma isqrt_bits_numeral:
  "isqrt_bits (numeral b) acc N =
     isqrt_bits (pred_numeral b)
       (if (acc + 2 ^ pred_numeral b) * (acc + 2 ^ pred_numeral b) \<le> N
        then acc + 2 ^ pred_numeral b else acc) N"
  by (simp add: numeral_eq_Suc)

lemma q15_scales: "q15_scale 2 = 23170" "q15_scale 3 = 18918" "q15_scale 4 = 16384" "q15_scale 5 = 14654"
  by (simp_all add: q15_scale_def isqrt_bits_numeral)

lemma mix_two_to_four:
  assumes "list_all mixable fs" and n: "length fs = 2 \<or> length fs = 3 \<or> length fs = 4"
  shows "\<exists>sums. accumulate_frames fs (replicate mixerPCMBuf 0) = Some sums \<and>
    map (mix_sample (of_nat (q15_scale (length fs)))) sums =
      map (\<lambda>i. word_of_int (clamp16 ((\<Sum>f \<leftarrow> fs. sample_at f i) * int (q15_scale (length fs)) div 2 ^ 15)))
        [0..<mixerPCMBuf]"
proof -
  obtain sums where sums: "accumulate_frames fs (replicate mixerPCMBuf 0) = Some sums"
    "length sums = mixerPCMBuf"
    "\<forall>i < mixerPCMBuf. sums ! i = replicate mixerPCMBuf 0 ! i + word_of_int (\<Sum>f \<leftarrow> fs. sample_at f i)"
    using accumulate_frames_nth [OF assms(1), of "replicate mixerPCMBuf 0"] by auto
  let ?k = "int (q15_scale (length fs))"
  have "mix_sample (of_nat (q15_scale (length fs))) (sums ! i) =
      word_of_int (clamp16 ((\<Sum>f \<leftarrow> fs. sample_at f i) * ?k div 2 ^ 15))" if "i < mixerPCMBuf" for i
  proof -
    let ?s = "\<Sum>f \<leftarrow> fs. sample_at f i"
    have "- (2 ^ 31) \<le> ?s * ?k" "?s * ?k < 2 ^ 31"
      using sum_range [of fs i] n by (auto simp: q15_scales)
    then have "mix_sample (word_of_int ?k) (word_of_int ?s) = word_of_int (clamp16 (?s * ?k div 2 ^ 15))"
      by (rule mix_sample_exact)
    with sums(3) that show ?thesis by (simp del: buffer_sizes)
  qed
  then have "map (mix_sample (of_nat (q15_scale (length fs)))) sums =
      map (\<lambda>i. word_of_int (clamp16 ((\<Sum>f \<leftarrow> fs. sample_at f i) * ?k div 2 ^ 15))) [0..<mixerPCMBuf]"
    using sums(2) by (intro nth_equalityI) (simp_all del: buffer_sizes)
  with sums(1) show ?thesis by blast
qed

text \<open>
  C32. Mixing two, three or four speakers is exact: for frames of at most 1920 samples in
  multiples of four the loop never indexes out of range, and each output sample is the true
  integer sum scaled by \<open>q15_scale n / 2 ^ 15\<close> and clamped to 16 bits, with no wrap-around on
  the way; that block is what the encoder gets, and its answer is what the tick returns.
\<close>

theorem mixAndEncode_exact:
  assumes "list_all mixable (framesBuf m)" and "length (mixed m) = mixerPCMBuf"
    and "length (framesBuf m) = 2 \<or> length (framesBuf m) = 3 \<or> length (framesBuf m) = 4"
  shows "\<exists>m' p' r. mixAndEncode encode m p = Some (m', p', r) \<and>
    pcm_out m' = map (\<lambda>i. word_of_int (clamp16
      ((\<Sum>f \<leftarrow> framesBuf m. sample_at f i) * int (q15_scale (length (framesBuf m))) div 2 ^ 15)))
        [0..<mixerPCMBuf] \<and>
    (case snd (encode (enc m) (pcm_out m')) of
       Inl err \<Rightarrow> r = Inl err
     | Inr bytes \<Rightarrow> \<exists>b. r = Inr b \<and> pkt_bytes b = bytes)"
proof -
  obtain sums where sums: "accumulate_frames (framesBuf m) (replicate mixerPCMBuf 0) = Some sums"
    "map (mix_sample (of_nat (q15_scale (length (framesBuf m))))) sums =
      map (\<lambda>i. word_of_int (clamp16 ((\<Sum>f \<leftarrow> framesBuf m. sample_at f i) *
        int (q15_scale (length (framesBuf m))) div 2 ^ 15))) [0..<mixerPCMBuf]"
    using mix_two_to_four [OF assms(1,3)] by blast
  let ?out = "map (mix_sample (of_nat (q15_scale (length (framesBuf m))))) sums"
  obtain e' r where e: "encode (enc m) ?out = (e', r)" by fastforce
  show ?thesis
    unfolding sums(2) [symmetric]
    using e by (cases r) (auto simp: mixAndEncode_def assms(2) sums(1) Let_def split_def simp del: buffer_sizes)
qed

definition tone :: "int \<Rightarrow> Frame" where
  "tone v = \<lparr>PCM = Some \<lparr>pcm_id = 0, pcm_samples = replicate 4 (word_of_int v)\<rparr>, Opus = None, CreatedAt = 1\<rparr>"

definition tones :: "int list \<Rightarrow> unit Mixer" where
  "tones vs = \<lparr>inputs = [], inputsSnap = None, paused = False, lastActivityAt = 0, pausedDrops = 0,
     has_sink = True, enc = (), framesBuf = map tone vs, mixed = replicate mixerPCMBuf 0,
     pcm_out = []\<rparr>"

lemma tone_samples: "mixable (tone v)" "sample_at (tone v) 0 = sint (word_of_int v :: 16 word)"
  by (simp_all add: tone_def mixable_def samples_of_def sample_at_def)

lemma mixAndEncode_exact_witness:
  "\<exists>m' p' r. mixAndEncode (\<lambda>e _. (e, Inr [1])) (tones [20000, 20000, -100]) empty_pools = Some (m', p', r) \<and>
     pcm_out m' ! 0 = word_of_int 23035"
proof -
  have "\<exists>m' p' r. mixAndEncode (\<lambda>e _. (e, Inr [1])) (tones [20000, 20000, -100]) empty_pools = Some (m', p', r) \<and>
    pcm_out m' = map (\<lambda>i. word_of_int (clamp16
      ((\<Sum>f \<leftarrow> framesBuf (tones [20000, 20000, -100]). sample_at f i) *
        int (q15_scale (length (framesBuf (tones [20000, 20000, -100])))) div 2 ^ 15))) [0..<mixerPCMBuf]"
    using mixAndEncode_exact [of "tones [20000, 20000, -100]" "\<lambda>e _. (e, Inr [1])" empty_pools]
    by (fastforce simp: tones_def tone_samples)
  then show ?thesis
    by (elim exE conjE) (simp add: tones_def tone_samples clamp16_def sint_sbintrunc'
        q15_scales [unfolded numeral_3_eq_3])
qed

text \<open>
  Five loud speakers wrap: from five sources on the product \<open>v * scale\<close> can leave 32
  bits. Whenever five samples add up to at least 146546 (less than nine tenths of full scale
  each), the output is the most negative sample instead of the most positive one.
\<close>

theorem five_loud_sources_flip_sign:
  assumes "list_all mixable (framesBuf m)" and "length (mixed m) = mixerPCMBuf"
    and "length (framesBuf m) = 5" and "i < mixerPCMBuf"
    and "146546 \<le> (\<Sum>f \<leftarrow> framesBuf m. sample_at f i)"
  shows "\<exists>m' p' r. mixAndEncode encode m p = Some (m', p', r) \<and> pcm_out m' ! i = word_of_int (- 32768)
    \<and> clamp16 ((\<Sum>f \<leftarrow> framesBuf m. sample_at f i) * int (q15_scale 5) div 2 ^ 15) = 32767"
proof -
  let ?s = "\<Sum>f \<leftarrow> framesBuf m. sample_at f i"
  obtain sums where sums: "accumulate_frames (framesBuf m) (replicate mixerPCMBuf 0) = Some sums"
    "length sums = mixerPCMBuf" "sums ! i = word_of_int ?s"
    using accumulate_frames_nth [OF assms(1), of "replicate mixerPCMBuf 0"] assms(4) by auto
  have range: "146546 \<le> ?s" "?s \<le> 163835"
    using sum_range [of "framesBuf m" i] assms(3,5) by simp_all
  have "sint (word_of_int (?s * 14654) :: 32 word) = ?s * 14654 - 2 ^ 32"
    using range by (intro word_sint_wrap) simp_all
  then have "sint (signed_drop_bit 15 (word_of_int ?s * 14654 :: 32 word)) = (?s * 14654 - 2 ^ 32) div 2 ^ 15"
    by (simp add: sint_signed_drop_bit_eq drop_bit_eq_div)
  moreover have "(?s * 14654 - 2 ^ 32) div 2 ^ 15 \<le> - 32768"
    using range by simp
  ultimately have neg: "mix_sample 14654 (sums ! i) = word_of_int (- 32768)"
    by (simp add: mix_sample_def sums(3) min_def max_def)
  have pos: "clamp16 (?s * int (q15_scale 5) div 2 ^ 15) = 32767"
    using range by (simp add: clamp16_def q15_scales min_def)
  obtain e' r where e: "encode (enc m) (map (mix_sample 14654) sums) = (e', r)" by fastforce
  show ?thesis
    using e pos neg sums(2) assms(2-4)
    by (cases r) (auto simp: mixAndEncode_def sums(1) q15_scales Let_def split_def simp del: buffer_sizes)
qed

lemma five_loud_sources_flip_sign_witness:
  "let m = tones [30000, 30000, 30000, 30000, 30000]
   in \<exists>m' p' r. mixAndEncode (\<lambda>e _. (e, Inr [1])) m empty_pools = Some (m', p', r) \<and>
        pcm_out m' ! 0 = word_of_int (- 32768) \<and>
        clamp16 ((\<Sum>f \<leftarrow> framesBuf m. sample_at f 0) * int (q15_scale 5) div 2 ^ 15) = 32767"
  unfolding Let_def
  by (rule five_loud_sources_flip_sign)
    (simp_all add: tones_def tone_def mixable_def samples_of_def sample_at_def sint_sbintrunc')

section \<open>The tick\<close>

text \<open>The frame a pull takes from each of some queues.\<close>

definition heads :: "('s \<Rightarrow> Frame list) \<Rightarrow> (nat \<Rightarrow> 's) \<Rightarrow> nat list \<Rightarrow> Frame list" where
  "heads fr h es = concat (map (\<lambda>r. take 1 (fr (h r))) es)"

lemma heads_simps [simp]:
  "heads fr h [] = []" "heads fr h (r # es) = take 1 (fr (h r)) @ heads fr h es"
  by (simp_all add: heads_def)

lemma heads_upd: "r \<notin> set es \<Longrightarrow> heads fr (h(r := s)) es = heads fr h es"
  by (induction es) auto

text \<open>The number of frames in some queues.\<close>

definition backlog :: "('s \<Rightarrow> Frame list) \<Rightarrow> (nat \<Rightarrow> 's) \<Rightarrow> nat list \<Rightarrow> nat" where
  "backlog fr h es = (\<Sum>r \<leftarrow> es. length (fr (h r)))"

lemma backlog_simps [simp]:
  "backlog fr h [] = 0" "backlog fr h (r # es) = length (fr (h r)) + backlog fr h es"
  by (simp_all add: backlog_def)

lemma backlog_upd: "r \<notin> set es \<Longrightarrow> backlog fr (h(r := s)) es = backlog fr h es"
  by (induction es) auto

context audio_source
begin

lemma collect_running:
  assumes "distinct es" and "\<And>r. wf (t_heap t r)"
  shows "let T = fold (collect_input A False) es t; hs = heads frames (t_heap t) es in
    t_mixer T = (t_mixer t)\<lparr>framesBuf := framesBuf (t_mixer t) @ filter (\<lambda>f. pcm_length f \<noteq> 0) hs\<rparr> \<and>
    t_pools T = fold put_frame (filter (\<lambda>f. pcm_length f = 0) hs) (t_pools t) \<and>
    t_drained T = t_drained t \<and>
    (\<forall>r. wf (t_heap T r) \<and>
      frames (t_heap T r) = (if r \<in> set es then drop 1 (frames (t_heap t r)) else frames (t_heap t r)))"
  using assms
proof (induction es arbitrary: t)
  case (Cons r es)
  obtain s' x where pl: "a_Pull A (t_heap t r) = (s', x)" by fastforce
  note p = pull [OF Cons.prems(2) pl]
  let ?t1 = "collect_input A False r t"
  have heap: "t_heap ?t1 = (t_heap t)(r := s')"
    by (simp add: collect_input_def Let_def pl split: option.splits)
  have "r \<notin> set es" using Cons.prems(1) by simp
  then have hs: "heads frames (t_heap ?t1) es = heads frames (t_heap t) es"
    by (simp add: heap heads_upd)
  have "wf (t_heap ?t1 r')" for r'
    using p Cons.prems(2) by (simp add: heap)
  from Cons.IH [of ?t1, OF _ this] Cons.prems(1) have IH:
    "let T = fold (collect_input A False) es ?t1; hs = heads frames (t_heap t) es in
    t_mixer T = (t_mixer ?t1)\<lparr>framesBuf := framesBuf (t_mixer ?t1) @ filter (\<lambda>f. pcm_length f \<noteq> 0) hs\<rparr> \<and>
    t_pools T = fold put_frame (filter (\<lambda>f. pcm_length f = 0) hs) (t_pools ?t1) \<and>
    t_drained T = t_drained ?t1 \<and>
    (\<forall>r. wf (t_heap T r) \<and> frames (t_heap T r) =
      (if r \<in> set es then drop 1 (frames (t_heap ?t1 r)) else frames (t_heap ?t1 r)))"
    by (simp add: hs)
  show ?case
  proof (cases "frames (t_heap t r)")
    case Nil
    with p have "x = None" "frames s' = []" by simp_all
    with IH Nil \<open>r \<notin> set es\<close> show ?thesis
      by (auto simp: Let_def heap) (simp_all add: collect_input_def Let_def pl)
  next
    case (Cons f fs)
    with p have "x = Some f" "frames s' = fs" by simp_all
    with IH Cons \<open>r \<notin> set es\<close> show ?thesis
      by (auto simp: Let_def heap) (simp_all add: collect_input_def Let_def pl)
  qed
qed simp

lemma collect_paused:
  assumes "distinct es" and "\<And>r. wf (t_heap t r)"
  shows "let T = fold (collect_input A True) es t; n = backlog frames (t_heap t) es in
    t_mixer T = (t_mixer t)\<lparr>pausedDrops := pausedDrops (t_mixer t) + of_nat n\<rparr> \<and>
    t_pools T = fold put_frame (concat (map (\<lambda>r. frames (t_heap t r)) es)) (t_pools t) \<and>
    t_drained T = t_drained t + n \<and>
    (\<forall>r. wf (t_heap T r) \<and>
      frames (t_heap T r) = (if r \<in> set es then [] else frames (t_heap t r)))"
  using assms
proof (induction es arbitrary: t)
  case (Cons r es)
  obtain s' p' where dr: "a_Drain A (t_heap t r) (t_pools t) = (s', p')" by fastforce
  note d = drain [OF Cons.prems(2) dr] and l = len [OF Cons.prems(2), of r]
  let ?t1 = "collect_input A True r t"
  have heap: "t_heap ?t1 = (t_heap t)(r := s')"
    by (simp add: collect_input_def Let_def dr)
  have t1: "t_pools ?t1 = fold put_frame (frames (t_heap t r)) (t_pools t)"
    "t_drained ?t1 = t_drained t + length (frames (t_heap t r))"
    "t_mixer ?t1 = (t_mixer t)\<lparr>pausedDrops := pausedDrops (t_mixer t) + of_nat (length (frames (t_heap t r)))\<rparr>"
    using d by (simp_all add: collect_input_def Let_def dr l)
  have r: "r \<notin> set es" using Cons.prems(1) by simp
  then have same: "map (\<lambda>r. frames (t_heap ?t1 r)) es = map (\<lambda>r. frames (t_heap t r)) es"
    by (simp add: heap)
  have same_n: "backlog frames (t_heap ?t1) es = backlog frames (t_heap t) es"
    using r by (simp add: heap backlog_upd)
  have "wf (t_heap ?t1 r')" for r'
    using d Cons.prems(2) by (simp add: heap)
  from Cons.IH [OF _ this] Cons.prems(1)
  have IH: "let T = fold (collect_input A True) es ?t1; n = backlog frames (t_heap t) es in
    t_mixer T = (t_mixer ?t1)\<lparr>pausedDrops := pausedDrops (t_mixer ?t1) + of_nat n\<rparr> \<and>
    t_pools T = fold put_frame (concat (map (\<lambda>r. frames (t_heap t r)) es)) (t_pools ?t1) \<and>
    t_drained T = t_drained ?t1 + n \<and>
    (\<forall>r. wf (t_heap T r) \<and> frames (t_heap T r) = (if r \<in> set es then [] else frames (t_heap ?t1 r)))"
    unfolding same same_n by simp
  show ?case
    using IH d r by (auto simp: Let_def t1 heap ac_simps)
qed simp

end

text \<open>The buffers in some queues, and those of a frame by kind.\<close>

definition queue_bufs :: "('s \<Rightarrow> Frame list) \<Rightarrow> (nat \<Rightarrow> 's) \<Rightarrow> nat list \<Rightarrow> nat multiset" where
  "queue_bufs fr h es = (\<Sum>r \<leftarrow> es. \<Sum>f \<leftarrow> fr (h r). frame_bufs f)"

definition pcm_bufs :: "Frame \<Rightarrow> nat multiset" where
  "pcm_bufs f = mset (case PCM f of None \<Rightarrow> [] | Some s \<Rightarrow> [pcm_id s])"

definition packet_bufs :: "packet option \<Rightarrow> nat multiset" where
  "packet_bufs b = mset (case b of None \<Rightarrow> [] | Some b \<Rightarrow> [pkt_id b])"

definition result_bufs :: "tick_result \<Rightarrow> nat multiset" where
  "result_bufs r = (case r of Emitted b \<Rightarrow> packet_bufs b | _ \<Rightarrow> {#})"

lemma packet_bufs_simps [simp]: "packet_bufs None = {#}" "packet_bufs (Some b) = {#pkt_id b#}"
  by (simp_all add: packet_bufs_def)

lemma frame_bufs_split: "frame_bufs f = pcm_bufs f + packet_bufs (Opus f)"
  by (simp add: frame_bufs_def pcm_bufs_def packet_bufs_def split: option.splits)

lemma accounted_put_pcm_of:
  "accounted p (pcm_bufs f + held) \<Longrightarrow> accounted (put_pcm_of f p) held"
  by (auto simp: put_pcm_of_def pcm_bufs_def intro!: accounted_PutPCM split: option.splits)

lemma accounted_put_pcms:
  "accounted p ((\<Sum>f \<leftarrow> fs. frame_bufs f) + held) \<Longrightarrow>
     accounted (fold put_pcm_of fs p) ((\<Sum>f \<leftarrow> fs. packet_bufs (Opus f)) + held)"
proof (induction fs arbitrary: p held)
  case (Cons f fs)
  have "accounted (put_pcm_of f p) ((\<Sum>f \<leftarrow> fs. frame_bufs f) + (packet_bufs (Opus f) + held))"
    by (rule accounted_put_pcm_of) (use Cons.prems in \<open>simp add: frame_bufs_split ac_simps\<close>)
  from Cons.IH [OF this] show ?case by (simp add: ac_simps)
qed simp

lemma accounted_emit:
  "accounted p (packet_bufs b + held) \<Longrightarrow> emit b m p = (p', r) \<Longrightarrow> accounted p' (result_bufs r + held)"
  by (auto simp: emit_def result_bufs_def packet_bufs_def intro!: accounted_PutEncodedFrame
      split: if_splits option.splits)

lemma sum_list_filter_split:
  fixes g :: "'a \<Rightarrow> 'b :: comm_monoid_add"
  shows "(\<Sum>x \<leftarrow> xs. g x) = (\<Sum>x \<leftarrow> filter P xs. g x) + (\<Sum>x \<leftarrow> filter (\<lambda>x. \<not> P x) xs. g x)"
  by (induction xs) (simp_all add: ac_simps)

lemma sum_list_concat_frames:
  "(\<Sum>f \<leftarrow> concat (map g es). b f) = (\<Sum>r \<leftarrow> es. \<Sum>f \<leftarrow> g r. (b f :: nat multiset))"
  by (induction es) simp_all

lemma queue_bufs_heads:
  assumes "\<And>r. r \<in> set es \<Longrightarrow> fr (h' r) = drop 1 (fr (h r))"
  shows "queue_bufs fr h es = (\<Sum>f \<leftarrow> heads fr h es. frame_bufs f) + queue_bufs fr h' es"
  using assms
proof (induction es)
  case (Cons r es)
  have "(\<Sum>f \<leftarrow> fr (h r). frame_bufs f) =
      (\<Sum>f \<leftarrow> take 1 (fr (h r)). frame_bufs f) + (\<Sum>f \<leftarrow> drop 1 (fr (h r)). frame_bufs f)"
    by (cases "fr (h r)") simp_all
  with Cons show ?case by (simp add: queue_bufs_def ac_simps)
qed (simp add: queue_bufs_def)

lemma accounted_getEncodedFrame':
  "accounted p held \<Longrightarrow>
     accounted (snd (getEncodedFrame n p)) (add_mset (fst (fst (getEncodedFrame n p))) held)"
  by (metis prod.collapse accounted_getEncodedFrame)

lemma accounted_mixAndEncode:
  assumes "mixAndEncode encode m p = Some (m', p', r)"
    and "accounted p ((\<Sum>f \<leftarrow> framesBuf m. frame_bufs f) + held)"
  shows "accounted p' ((case r of Inl _ \<Rightarrow> {#} | Inr b \<Rightarrow> packet_bufs (Some b)) +
    ((\<Sum>f \<leftarrow> framesBuf m. packet_bufs (Opus f)) + held)) \<and> framesBuf m' = framesBuf m"
proof -
  note p1 = accounted_put_pcms [OF assms(2)]
  from assms(1) show ?thesis
    by (auto simp: mixAndEncode_def Let_def split_def p1
        intro!: accounted_getEncodedFrame'
        split: option.splits sum.splits)
qed

context audio_source
begin

lemma tick_paused:
  assumes "distinct (readInputsSnapshot m)" and "\<And>r. wf (h r)" and "paused m"
  shows "\<exists>h'. tick A encode now m h p =
      Some (m\<lparr>framesBuf := [],
              pausedDrops := pausedDrops m + of_nat (backlog frames h (readInputsSnapshot m)),
              lastActivityAt := (if backlog frames h (readInputsSnapshot m) > 0 then now
                                 else lastActivityAt m)\<rparr>,
            h', fold put_frame (concat (map (\<lambda>r. frames (h r)) (readInputsSnapshot m))) p, Silent)
    \<and> (\<forall>r. wf (h' r) \<and> frames (h' r) = (if r \<in> set (readInputsSnapshot m) then [] else frames (h r)))"
  using collect_paused [OF assms(1), of "\<lparr>t_mixer = m\<lparr>framesBuf := []\<rparr>, t_heap = h, t_pools = p, t_drained = 0\<rparr>"]
    assms(2,3)
  by (simp add: tick_def collectFrames_def Let_def recyclePCMBuffers_def)

lemma tick_collects:
  assumes "distinct (readInputsSnapshot m)" and "\<And>r. wf (h r)" and "\<not> paused m"
  shows "\<exists>h'. collectFrames A (readInputsSnapshot m) False m h p =
       \<lparr>t_mixer = m\<lparr>framesBuf := filter (\<lambda>f. pcm_length f \<noteq> 0) (heads frames h (readInputsSnapshot m))\<rparr>,
        t_heap = h',
        t_pools = fold put_frame (filter (\<lambda>f. pcm_length f = 0) (heads frames h (readInputsSnapshot m))) p,
        t_drained = 0\<rparr> \<and> (\<forall>r. wf (h' r)) \<and>
    (\<forall>r. frames (h' r) = (if r \<in> set (readInputsSnapshot m) then drop 1 (frames (h r)) else frames (h r)))"
proof -
  let ?T = "collectFrames A (readInputsSnapshot m) False m h p"
  have T: "?T = \<lparr>t_mixer = t_mixer ?T, t_heap = t_heap ?T, t_pools = t_pools ?T, t_drained = t_drained ?T\<rparr>"
    by simp
  show ?thesis
    by (rule exI [of _ "t_heap ?T"], subst T)
      (use collect_running [OF assms(1), of "\<lparr>t_mixer = m\<lparr>framesBuf := []\<rparr>, t_heap = h, t_pools = p, t_drained = 0\<rparr>"]
         assms(2) in \<open>simp add: collectFrames_def Let_def\<close>)
qed

lemma tick_silent:
  assumes "distinct (readInputsSnapshot m)" and "\<And>r. wf (h r)" and "\<not> paused m"
    and "\<forall>f \<in> set (heads frames h (readInputsSnapshot m)). pcm_length f = 0"
  shows "\<exists>h' p'. tick A encode now m h p = Some (m\<lparr>framesBuf := []\<rparr>, h', p', Silent)"
proof -
  have "filter (\<lambda>f. pcm_length f \<noteq> 0) (heads frames h (readInputsSnapshot m)) = []"
    using assms(4) by (simp add: filter_empty_conv)
  note none = this
  obtain h' where h': "collectFrames A (readInputsSnapshot m) False m h p =
     \<lparr>t_mixer = m\<lparr>framesBuf := []\<rparr>, t_heap = h',
      t_pools = fold put_frame (filter (\<lambda>f. pcm_length f = 0) (heads frames h (readInputsSnapshot m))) p,
      t_drained = 0\<rparr>"
    using tick_collects [where p = p and h = h, OF assms(1-3)] unfolding none by blast
  then show ?thesis
    using assms(3) by (simp add: tick_def Let_def recyclePCMBuffers_def)
qed

lemma tick_single:
  assumes "distinct (readInputsSnapshot m)" and "\<And>r. wf (h r)" and "\<not> paused m"
    and one: "filter (\<lambda>f. pcm_length f \<noteq> 0) (heads frames h (readInputsSnapshot m)) = [f]"
  shows "\<exists>h' p'. tick A encode now m h p =
    Some (m\<lparr>framesBuf := [f], lastActivityAt := now\<rparr>, h', p',
          if has_sink m then Emitted (Opus f) else Recycled)"
proof -
  obtain h' where h': "collectFrames A (readInputsSnapshot m) False m h p =
     \<lparr>t_mixer = m\<lparr>framesBuf := [f]\<rparr>, t_heap = h',
      t_pools = fold put_frame (filter (\<lambda>f. pcm_length f = 0) (heads frames h (readInputsSnapshot m))) p,
      t_drained = 0\<rparr>"
    using tick_collects [where p = p and h = h, OF assms(1-3)] unfolding one by blast
  then show ?thesis
    using assms(3) by (simp add: tick_def Let_def emit_def)
qed

lemma tick_accounted:
  assumes "distinct (readInputsSnapshot m)" and "\<And>r. wf (h r)"
    and tick: "tick A encode now m h p = Some (m', h', p', r)"
    and acc: "accounted p (queue_bufs frames h (readInputsSnapshot m) + held)"
  shows "accounted p' (queue_bufs frames h' (readInputsSnapshot m) + result_bufs r +
    (if length (framesBuf m') \<ge> 2 then \<Sum>f \<leftarrow> framesBuf m'. packet_bufs (Opus f) else {#}) + held)"
proof (cases "paused m")
  case True
  let ?es = "readInputsSnapshot m"
  have q: "queue_bufs frames h ?es = (\<Sum>f \<leftarrow> concat (map (\<lambda>r. frames (h r)) ?es). frame_bufs f)"
    by (simp add: queue_bufs_def sum_list_concat_frames)
  from tick_paused [where encode = encode and now = now and p = p and h = h, OF assms(1,2) True] tick
  have "p' = fold put_frame (concat (map (\<lambda>r. frames (h r)) ?es)) p" "framesBuf m' = []" "r = Silent"
    "\<And>r. r \<in> set ?es \<Longrightarrow> frames (h' r) = []"
    by auto
  moreover from this have "queue_bufs frames h' ?es = {#}"
    by (simp add: queue_bufs_def cong: map_cong)
  ultimately show ?thesis
    using accounted_put_frames [OF acc [unfolded q]] by (simp add: result_bufs_def)
next
  case False
  let ?es = "readInputsSnapshot m"
  let ?hs = "heads frames h ?es"
  let ?fs = "filter (\<lambda>f. pcm_length f \<noteq> 0) ?hs" and ?no = "filter (\<lambda>f. pcm_length f = 0) ?hs"
  obtain h1 where h1: "collectFrames A ?es False m h p =
       \<lparr>t_mixer = m\<lparr>framesBuf := ?fs\<rparr>, t_heap = h1, t_pools = fold put_frame ?no p, t_drained = 0\<rparr>"
    and fr: "\<And>r. frames (h1 r) = (if r \<in> set ?es then drop 1 (frames (h r)) else frames (h r))"
    using tick_collects [where p = p and h = h, OF assms(1,2) False] by blast
  have "queue_bufs frames h ?es = (\<Sum>f \<leftarrow> ?no. frame_bufs f) + (\<Sum>f \<leftarrow> ?fs. frame_bufs f) + queue_bufs frames h1 ?es"
    using queue_bufs_heads [of ?es frames h1 h] fr
      sum_list_filter_split [of frame_bufs ?hs "\<lambda>f. pcm_length f = 0"] by simp
  with acc have p1: "accounted (fold put_frame ?no p)
      ((\<Sum>f \<leftarrow> ?fs. frame_bufs f) + (queue_bufs frames h1 ?es + held))"
    by (intro accounted_put_frames) (simp add: ac_simps)
  let ?m = "m\<lparr>framesBuf := ?fs\<rparr>" and ?p = "fold put_frame ?no p"
  consider "?fs = []" | f where "?fs = [f]" | "length ?fs \<ge> 2"
    by (cases ?fs; cases "tl ?fs") auto
  then show ?thesis
  proof cases
    case 1
    with tick False h1 p1 show ?thesis
      by (auto simp: tick_def Let_def recyclePCMBuffers_def result_bufs_def)
  next
    case (2 f)
    have "accounted (put_pcm_of f ?p) (packet_bufs (Opus f) + (queue_bufs frames h1 ?es + held))"
      using p1 2 by (intro accounted_put_pcm_of) (simp add: frame_bufs_split ac_simps)
    note acc2 = this
    from tick False h1 2 have "emit (Opus f) (m\<lparr>framesBuf := [f], lastActivityAt := now\<rparr>) (put_pcm_of f ?p) = (p', r)"
      and m': "h' = h1" "framesBuf m' = [f]"
      by (auto simp: tick_def Let_def split_def)
    from accounted_emit [OF acc2 this(1)] m' show ?thesis by (simp add: ac_simps)
  next
    case 3
    let ?m2 = "?m\<lparr>lastActivityAt := now\<rparr>"
    from 3 have ne: "?fs \<noteq> []" "length ?fs \<noteq> 1" by auto
    from tick False h1 ne obtain m3 p3 x where mx: "mixAndEncode encode ?m2 ?p = Some (m3, p3, x)"
      and res: "m' = m3 \<and> h' = h1 \<and> (case x of Inl err \<Rightarrow> p' = p3 \<and> r = EncodeFailed err
        | Inr out \<Rightarrow> emit (Some out) m3 p3 = (p', r))"
      by (auto simp: tick_def Let_def split_def split: option.splits sum.splits)
    have acc3: "accounted p3 ((case x of Inl _ \<Rightarrow> {#} | Inr b \<Rightarrow> packet_bufs (Some b)) +
        ((\<Sum>f \<leftarrow> ?fs. packet_bufs (Opus f)) + (queue_bufs frames h1 ?es + held)))"
      and m3: "framesBuf m3 = ?fs"
      using accounted_mixAndEncode [OF mx, of "queue_bufs frames h1 ?es + held"] p1 by simp_all
    show ?thesis
    proof (cases x)
      case (Inl err)
      with acc3 res m3 3 show ?thesis by (simp add: result_bufs_def ac_simps)
    next
      case (Inr out)
      with acc3 res accounted_emit [of p3 "Some out" _ m3 p' r] have
        "accounted p' (result_bufs r + ((\<Sum>f \<leftarrow> ?fs. packet_bufs (Opus f)) + (queue_bufs frames h1 ?es + held)))"
        by simp
      with res m3 3 show ?thesis by (simp add: ac_simps)
    qed
  qed
qed

end

section \<open>What a tick does\<close>

text \<open>
  A paused mixer is silent but not deaf: it empties every input, returns all their
  buffers, counts the frames it threw away, and notes the time if there were any, so that the
  drain watcher sees that audio is arriving.
\<close>

theorem paused_tick_drains:
  assumes "distinct (readInputsSnapshot m)" and "\<And>r. ring_wf (h r)" and "paused m"
  shows "\<exists>h'. tick source_buffer encode now m h p =
      Some (m\<lparr>framesBuf := [],
              pausedDrops := pausedDrops m + of_nat (backlog queued h (readInputsSnapshot m)),
              lastActivityAt := (if backlog queued h (readInputsSnapshot m) > 0 then now
                                 else lastActivityAt m)\<rparr>,
            h', fold put_frame (concat (map (\<lambda>r. queued (h r)) (readInputsSnapshot m))) p, Silent)
    \<and> (\<forall>r. queued (h' r) = (if r \<in> set (readInputsSnapshot m) then [] else queued (h r)))"
  using ring.tick_paused [where h = h and p = p and encode = encode and now = now, OF assms] by auto

definition mixer_of :: "bool \<Rightarrow> nat list \<Rightarrow> unit Mixer" where
  "mixer_of is_paused rs = \<lparr>inputs = [], inputsSnap = Some rs, paused = is_paused, lastActivityAt = 0,
     pausedDrops = 0, has_sink = True, enc = (), framesBuf = [], mixed = replicate mixerPCMBuf 0,
     pcm_out = []\<rparr>"

lemma readInputsSnapshot_mixer_of [simp]: "readInputsSnapshot (mixer_of b rs) = rs"
  by (simp add: readInputsSnapshot_def mixer_of_def)

lemma paused_tick_drains_witness:
  "\<exists>m' h' p'. tick source_buffer (\<lambda>e _. (e, Inr [])) 77 (mixer_of True [4]) (\<lambda>_. full_ring) empty_pools
     = Some (m', h', p', Silent) \<and> lastActivityAt m' = 77 \<and> pausedDrops m' = 3 \<and> queued (h' 4) = []"
proof -
  have "distinct (readInputsSnapshot (mixer_of True [4]))" "paused (mixer_of True [4])"
    by (simp_all add: mixer_of_def readInputsSnapshot_def)
  from paused_tick_drains [OF this(1) full_ring_queued(1) this(2), of "\<lambda>e _. (e, Inr [])" 77 empty_pools]
  obtain h' where h': "tick source_buffer (\<lambda>e _. (e, Inr [])) 77 (mixer_of True [4]) (\<lambda>_. full_ring) empty_pools =
      Some ((mixer_of True [4])\<lparr>framesBuf := [], pausedDrops := pausedDrops (mixer_of True [4]) + 3,
              lastActivityAt := 77\<rparr>,
            h', fold put_frame [numbered_frame 0, numbered_frame 1, numbered_frame 2] empty_pools, Silent)"
    "queued (h' 4) = []"
    by (auto simp: full_ring_queued)
  show ?thesis by (intro exI conjI, rule h'(1)) (simp_all add: mixer_of_def h'(2))
qed

text \<open>
  One speaker is never re-encoded: if exactly one input has a frame with samples, the tick
  of a running mixer hands that frame's original Opus packet to the sink (or recycles it when
  there is none), and the encoder is not called.
\<close>

theorem single_source_passthrough:
  assumes "distinct (readInputsSnapshot m)" and "\<And>r. ring_wf (h r)" and "\<not> paused m"
    and "filter (\<lambda>f. pcm_length f \<noteq> 0) (heads queued h (readInputsSnapshot m)) = [f]"
  shows "\<exists>h' p'. tick source_buffer encode now m h p =
    Some (m\<lparr>framesBuf := [f], lastActivityAt := now\<rparr>, h', p',
          if has_sink m then Emitted (Opus f) else Recycled)"
  by (rule ring.tick_single) (use assms in auto)

lemma single_source_passthrough_witness:
  "\<exists>h' p'. tick source_buffer (\<lambda>e _. (e, Inr [])) 77 (mixer_of False [4]) (\<lambda>_. full_ring) empty_pools
     = Some ((mixer_of False [4])\<lparr>framesBuf := [numbered_frame 0], lastActivityAt := 77\<rparr>, h', p', Emitted None)"
  using single_source_passthrough [of "mixer_of False [4]" "\<lambda>_. full_ring" "numbered_frame 0"
      "\<lambda>e _. (e, Inr [])" 77 empty_pools]
  by (simp add: full_ring_queued)
    (simp add: mixer_of_def pcm_length_def numbered_frame_def)

text \<open>
  C33. A tick neither loses nor duplicates a buffer: after it, every buffer ever allocated is in
  a pool, with the garbage collector, still queued, or handed to the sink. The one exception
  is the mix path, which keeps the Opus packets of the mixed frames: they are never returned
  to their pool.
\<close>

theorem tick_accounts_buffers:
  assumes "distinct (readInputsSnapshot m)" and "\<And>r. ring_wf (h r)"
    and "tick source_buffer encode now m h p = Some (m', h', p', r)"
    and "accounted p (queue_bufs queued h (readInputsSnapshot m) + held)"
  shows "accounted p' (queue_bufs queued h' (readInputsSnapshot m) + result_bufs r +
    (if length (framesBuf m') \<ge> 2 then \<Sum>f \<leftarrow> framesBuf m'. packet_bufs (Opus f) else {#}) + held)"
  by (rule ring.tick_accounted [where h = h]) (use assms in auto)

lemma tick_accounts_buffers_witness:
  "accounted (fold put_frame [numbered_frame 0, numbered_frame 1, numbered_frame 2] (empty_pools\<lparr>next_id := 3\<rparr>)) {#}"
proof -
  let ?p = "empty_pools\<lparr>next_id := 3\<rparr>"
  have acc: "accounted ?p (queue_bufs queued (\<lambda>_. full_ring) [4] + {#})"
    by (simp add: queue_bufs_def full_ring_queued accounted_def pooled_def empty_pools_def
        frame_bufs_def numbered_frame_def numeral_3_eq_3 ac_simps)
  have t: "\<exists>m' h' p'. tick source_buffer (\<lambda>e _. (e, Inr [])) 77 (mixer_of True [4]) (\<lambda>_. full_ring) ?p
      = Some (m', h', p', Silent) \<and> framesBuf m' = [] \<and> queued (h' 4) = [] \<and>
        p' = fold put_frame [numbered_frame 0, numbered_frame 1, numbered_frame 2] ?p"
    using ring.tick_paused [where m = "mixer_of True [4]" and h = "\<lambda>_. full_ring" and p = ?p and now = 77
        and encode = "\<lambda>e _. (e, Inr [])"]
    by (auto simp: full_ring_queued mixer_of_def readInputsSnapshot_def)
  then obtain m' h' p' where t: "tick source_buffer (\<lambda>e _. (e, Inr [])) 77 (mixer_of True [4]) (\<lambda>_. full_ring) ?p
      = Some (m', h', p', Silent)" "framesBuf m' = []" "queued (h' 4) = []"
      "p' = fold put_frame [numbered_frame 0, numbered_frame 1, numbered_frame 2] ?p" by blast
  have "accounted p' (queue_bufs queued h' (readInputsSnapshot (mixer_of True [4])) + result_bufs Silent +
    (if length (framesBuf m') \<ge> 2 then \<Sum>f \<leftarrow> framesBuf m'. packet_bufs (Opus f) else {#}) + {#})"
    by (rule tick_accounts_buffers [OF _ _ t(1)]) (use acc in \<open>simp_all add: full_ring_queued\<close>)
  then show ?thesis
    by (simp add: t(2-4) queue_bufs_def result_bufs_def)
qed

text \<open>
  The tick schedule keeps its phase: whenever a tick is over, the next deadline lies on the
  same 20 ms grid, later than the last one and not in the past, and if the tick did not run
  before its own deadline the wait is at least 1 ms and at most 20 ms; missed slots are skipped.
\<close>

theorem next_tick_on_grid:
  assumes "next_tick deadline now = (deadline', wait)" and "deadline \<le> now"
  shows "(\<exists>k \<ge> 1. deadline' = deadline + k * mixerFrameDur) \<and> now \<le> deadline' \<and>
    deadline' - now \<le> mixerFrameDur \<and> Millisecond \<le> wait \<and> wait \<le> mixerFrameDur \<and>
    (Millisecond \<le> deadline' - now \<longrightarrow> now + wait = deadline')"
proof (cases "deadline + mixerFrameDur < now")
  case True
  let ?d = "mixerFrameDur"
  define w where "w = now - (deadline + ?d)"
  have dpos: "?d = 20000000" by (simp add: mixerFrameDur_def Millisecond_def)
  have d': "deadline' = deadline + ?d + (w div ?d + 1) * ?d" and wait: "wait = max (deadline' - now) Millisecond"
    using assms(1) True by (auto simp: next_tick_def Let_def w_def minus_diff_eq)
  have "w div ?d * ?d \<le> w" "w < w div ?d * ?d + ?d" "w div ?d \<ge> 0"
    using True by (simp_all add: dpos w_def pos_imp_zdiv_nonneg_iff)
  moreover have "deadline' = deadline + (w div ?d + 2) * ?d"
    using d' by (simp add: algebra_simps)
  ultimately show ?thesis
    using d' wait by (auto simp: w_def dpos Millisecond_def algebra_simps intro!: exI [of _ "w div ?d + 2"])
next
  case False
  then have "deadline' = deadline + mixerFrameDur" "wait = max (deadline + mixerFrameDur - now) Millisecond"
    using assms(1) by (auto simp: next_tick_def Let_def)
  with False assms(2) show ?thesis
    by (auto simp: mixerFrameDur_def Millisecond_def intro!: exI [of _ 1])
qed

lemma next_tick_on_grid_witness:
  "next_tick 0 (50 * Millisecond) = (60 * Millisecond, 10 * Millisecond) \<and> 50 * Millisecond \<le> (60 * Millisecond :: int)"
proof -
  have "next_tick 0 (50 * Millisecond) = (60 * Millisecond, 10 * Millisecond)"
    by (simp add: next_tick_def Let_def mixerFrameDur_def Millisecond_def)
  from this next_tick_on_grid [OF this] show ?thesis by (simp add: Millisecond_def)
qed

end
