(* ===== verification/Drain.thy ===== *)
theory Drain
  imports Mixer
begin

text \<open>
  The drain watcher of \<^verbatim>\<open>internal/opus/drain.go\<close>, which pauses a mixer nobody feeds and
  resumes it when audio returns, beside the router, which pauses the same mixer for its own
  reasons.  \<open>drain_event\<close> lists what can happen to the shared mixer between two looks.
\<close>

definition DrainIdleTimeout :: duration where "DrainIdleTimeout = 5 * Second"

record DrainWatcher =
  dw_idle :: duration
  pausedByWatcher :: bool

definition NewDrainWatcher :: "duration \<Rightarrow> DrainWatcher" where
  "NewDrainWatcher idle = \<lparr>dw_idle = idle, pausedByWatcher = False\<rparr>"

definition drain_step :: "instant \<Rightarrow> DrainWatcher \<times> 'e Mixer \<Rightarrow> DrainWatcher \<times> 'e Mixer" where
  "drain_step now = (\<lambda>(w, m).
     let idle = IdleFor now m > dw_idle w;
         is_paused = Paused m
     in if \<not> is_paused then
          let w1 = w\<lparr>pausedByWatcher := False\<rparr>
          in if idle then (w1\<lparr>pausedByWatcher := True\<rparr>, SetPaused True now m) else (w1, m)
        else if pausedByWatcher w \<and> \<not> idle
        then (w\<lparr>pausedByWatcher := False\<rparr>, SetPaused False now m)
        else (w, m))"

text \<open>One ticker event of \<^verbatim>\<open>Run\<close>; \<open>keepAlive\<close> is the predicate's answer, if there is one.\<close>

definition drain_run_tick :: "bool option \<Rightarrow> instant \<Rightarrow> DrainWatcher \<times> 'e Mixer \<Rightarrow> DrainWatcher \<times> 'e Mixer" where
  "drain_run_tick keepAlive now st = (if keepAlive = Some True then st else drain_step now st)"

datatype drain_event =
  RouterSets bool instant
| AudioArrives instant
| WatcherLooks "bool option" instant

fun on_event :: "drain_event \<Rightarrow> DrainWatcher \<times> 'e Mixer \<Rightarrow> DrainWatcher \<times> 'e Mixer" where
  "on_event (RouterSets b now) (w, m) = (w, SetPaused b now m)"
| "on_event (AudioArrives now) (w, m) = (w, m\<lparr>lastActivityAt := now\<rparr>)"
| "on_event (WatcherLooks keep now) st = drain_run_tick keep now st"

fun from_router :: "drain_event \<Rightarrow> bool" where
  "from_router (RouterSets b now) = True"
| "from_router _ = False"

lemma foreign_pause_kept:
  assumes "\<not> from_router e" and "Paused (snd st)" and "\<not> pausedByWatcher (fst st)"
  shows "Paused (snd (on_event e st)) \<and> \<not> pausedByWatcher (fst (on_event e st))"
proof (cases st)
  case (Pair w m)
  with assms show ?thesis
    by (cases e) (auto simp: drain_run_tick_def drain_step_def Let_def Paused_def)
qed

text \<open>
  A pause the watcher did not make is the router's alone: from a state in which the mixer
  is paused and the watcher holds no claim, no run of audio and watcher events resumes it.
\<close>

theorem watcher_respects_router_pause:
  assumes "list_all (\<lambda>e. \<not> from_router e) es" and "Paused (snd st)" and "\<not> pausedByWatcher (fst st)"
  shows "Paused (snd (fold on_event es st))"
proof -
  have "Paused (snd (fold on_event es st)) \<and> \<not> pausedByWatcher (fst (fold on_event es st))"
    using assms
  proof (induction es arbitrary: st)
    case (Cons e es)
    with foreign_pause_kept [of e st] show ?case by simp
  qed simp
  then show ?thesis ..
qed

lemma watcher_respects_router_pause_witness:
  "Paused (snd (fold on_event [AudioArrives (9 * Second), WatcherLooks None (9 * Second)]
     (NewDrainWatcher DrainIdleTimeout, mixer_of True [])))"
  by (rule watcher_respects_router_pause)
    (simp_all add: NewDrainWatcher_def mixer_of_def Paused_def)

text \<open>
  A channel that falls silent is not lost: if the watcher paused the mixer and audio
  arrives within \<open>idle\<close> before its next look, that look resumes the mixer and restarts the
  idle clock, unless a relay feed keeps the watcher away.
\<close>

theorem watcher_resumes_own_pause:
  assumes "pausedByWatcher w" and "Paused m" and "at \<noteq> 0" and "now - at \<le> dw_idle w"
  shows "fold on_event [AudioArrives at, WatcherLooks (Some False) now] (w, m) =
    (w\<lparr>pausedByWatcher := False\<rparr>, m\<lparr>paused := False, lastActivityAt := now\<rparr>)"
  using assms by (simp add: drain_run_tick_def drain_step_def Let_def Paused_def IdleFor_def SetPaused_def)

lemma watcher_resumes_own_pause_witness:
  "fold on_event [AudioArrives (9 * Second), WatcherLooks (Some False) (10 * Second)]
     (\<lparr>dw_idle = DrainIdleTimeout, pausedByWatcher = True\<rparr>, mixer_of True []) =
   (\<lparr>dw_idle = DrainIdleTimeout, pausedByWatcher = False\<rparr>,
    (mixer_of True [])\<lparr>paused := False, lastActivityAt := 10 * Second\<rparr>)"
  using watcher_resumes_own_pause [of "\<lparr>dw_idle = DrainIdleTimeout, pausedByWatcher = True\<rparr>"
      "mixer_of True []" "9 * Second" "10 * Second"]
  by (simp add: mixer_of_def Paused_def DrainIdleTimeout_def duration_defs)

text \<open>
  The claim can go stale: when the watcher pauses first and the router then pauses the same
  mixer because its last listener left, the watcher lifts that pause as soon as audio arrives.
\<close>

theorem watcher_lifts_later_router_pause:
  "let start = (NewDrainWatcher DrainIdleTimeout, (mixer_of False [])\<lparr>lastActivityAt := Second\<rparr>);
       events = [WatcherLooks None (10 * Second), RouterSets True (11 * Second),
                 AudioArrives (12 * Second), WatcherLooks None (12 * Second)]
   in \<not> Paused (snd (fold on_event events start)) \<and>
      Paused (snd (fold on_event (take 3 events) start))"
  by (simp add: NewDrainWatcher_def mixer_of_def drain_run_tick_def drain_step_def Let_def Paused_def
      IdleFor_def SetPaused_def DrainIdleTimeout_def duration_defs)

end
