(* ===== verification/Deafen.thy ===== *)
theory Deafen
  imports Prelude
begin

text \<open>
  Server-deafening of speaker bots: \<^verbatim>\<open>internal/manager/speaker_deafen.go\<close>.

  The controller is called by the router, by its own timers and by one goroutine per REST
  change.  Every stretch of code under \<^verbatim>\<open>c.mu\<close> is one operation here; an event picks which of the
  waiting parties runs next, so a run is a list of events.  The flag that Discord keeps for a
  member is part of the state, beside what the controller believes.
\<close>

section \<open>Errors\<close>

datatype setDeaf_error = RestError nat "nat option" | OtherError string

definition jsonErrMissingPermissions :: nat where "jsonErrMissingPermissions = 50013"
definition StatusForbidden :: nat where "StatusForbidden = 403"

fun isPermissionError :: "setDeaf_error \<Rightarrow> bool" where
  "isPermissionError (OtherError _) \<longleftrightarrow> False"
| "isPermissionError (RestError code status) \<longleftrightarrow>
     code = jsonErrMissingPermissions \<or> status = Some StatusForbidden"

section \<open>The controller\<close>

definition deafenDelay :: duration where "deafenDelay = 5 * Second"
definition deafRetryLimit :: nat where "deafRetryLimit = 3"
definition deafApplyTimeout :: duration where "deafApplyTimeout = 10 * Second"

text \<open>\<open>dm_timer\<close> is whether a delayed change is pending.\<close>

record deafMember =
  dm_deaf :: bool
  dm_want :: bool
  inFlight :: bool
  dm_timer :: bool
  failures :: nat
  rejected :: bool

record deafController =
  dc_members :: "(snowflake \<times> deafMember) list"
  dc_closed :: bool
  disabled :: bool

definition newDeafController :: deafController where
  "newDeafController = \<lparr>dc_members = [], dc_closed = False, disabled = False\<rparr>"

definition stopTimer :: "deafMember \<Rightarrow> deafMember" where
  "stopTimer m = m\<lparr>dm_timer := False\<rparr>"

definition Register :: "snowflake \<Rightarrow> bool \<Rightarrow> deafController \<Rightarrow> deafController" where
  "Register b deaf c =
     (if dc_closed c then c
      else c\<lparr>dc_members := AList.update b
        \<lparr>dm_deaf = deaf, dm_want = deaf, inFlight = False, dm_timer = False, failures = 0, rejected = False\<rparr>
        (dc_members c)\<rparr>)"

text \<open>The second component tells the caller to run \<^verbatim>\<open>apply(botID, false)\<close> once it has unlocked.\<close>

definition reconcileLocked :: "deafController \<Rightarrow> bool \<Rightarrow> deafMember \<Rightarrow> deafMember \<times> bool" where
  "reconcileLocked c immediate m =
     (if dc_closed c \<or> disabled c \<or> inFlight m then (m, False)
      else if dm_want m = dm_deaf m then ((stopTimer m)\<lparr>failures := 0\<rparr>, False)
      else if failures m \<ge> deafRetryLimit then (stopTimer m, False)
      else if \<not> dm_want m \<and> immediate then ((stopTimer m)\<lparr>inFlight := True\<rparr>, True)
      else if dm_timer m then (m, False)
      else (m\<lparr>dm_timer := True\<rparr>, False))"

definition observe_member :: "deafController \<Rightarrow> bool \<Rightarrow> deafMember \<Rightarrow> deafMember \<times> bool" where
  "observe_member c capturing m =
     (let want = (\<not> capturing);
          retrying = (rejected m \<and> want = dm_want m)
      in reconcileLocked c (\<not> retrying) (m\<lparr>failures := 0, rejected := retrying, dm_want := want\<rparr>))"

definition Observe :: "(snowflake \<Rightarrow> bool) \<Rightarrow> deafController \<Rightarrow> deafController \<times> snowflake list" where
  "Observe capturing c =
     (if dc_closed c \<or> disabled c then (c, [])
      else
        let rs = map (\<lambda>(b, m). (b, observe_member c (capturing b) m)) (dc_members c)
        in (c\<lparr>dc_members := map (\<lambda>(b, m, u). (b, m)) rs\<rparr>,
            map fst (filter (\<lambda>(b, m, u). u) rs)))"

definition applyAfterDelay :: "snowflake \<Rightarrow> deafController \<Rightarrow> deafController \<times> bool option" where
  "applyAfterDelay b c =
     (case map_of (dc_members c) b of
        None \<Rightarrow> (c, None)
      | Some m \<Rightarrow>
          if dc_closed c \<or> disabled c \<or> inFlight m \<or> \<not> dm_timer m then (c, None)
          else
            let m1 = m\<lparr>dm_timer := False\<rparr>
            in if dm_want m1 = dm_deaf m1
               then (c\<lparr>dc_members := AList.update b m1 (dc_members c)\<rparr>, None)
               else (c\<lparr>dc_members := AList.update b (m1\<lparr>inFlight := True\<rparr>) (dc_members c)\<rparr>,
                     Some (dm_want m1)))"

text \<open>The locked half of \<^verbatim>\<open>apply\<close>, once Discord has answered.\<close>

definition apply_done ::
  "snowflake \<Rightarrow> bool \<Rightarrow> setDeaf_error option \<Rightarrow> deafController \<Rightarrow> deafController \<times> bool" where
  "apply_done b deaf err c =
     (case map_of (dc_members c) b of
        None \<Rightarrow> (c, False)
      | Some m \<Rightarrow>
          let m1 = m\<lparr>inFlight := False\<rparr>;
              m2 = (if err = None then m1\<lparr>dm_deaf := deaf, failures := 0, rejected := False\<rparr>
                    else m1\<lparr>failures := failures m1 + 1, rejected := True\<rparr>);
              (m3, undeafen) = reconcileLocked c (err = None) m2
          in (c\<lparr>dc_members := AList.update b m3 (dc_members c)\<rparr>, undeafen))"

definition stop_timers :: "deafController \<Rightarrow> deafController" where
  "stop_timers c = c\<lparr>dc_members := map (\<lambda>(b, m). (b, stopTimer m)) (dc_members c)\<rparr>"

definition noteError :: "setDeaf_error \<Rightarrow> deafController \<Rightarrow> deafController" where
  "noteError err c =
     (if \<not> isPermissionError err \<or> disabled c then c else stop_timers (c\<lparr>disabled := True\<rparr>))"

definition close_begin :: "deafController \<Rightarrow> deafController" where
  "close_begin c = stop_timers (c\<lparr>dc_closed := True\<rparr>)"

definition restore_list :: "deafController \<Rightarrow> snowflake list" where
  "restore_list c = map fst (filter (dm_deaf \<circ> snd) (dc_members c))"

section \<open>Interleaving\<close>

text \<open>
  A change is \<open>Decided\<close> between the unlock and \<^verbatim>\<open>applying.Add(1)\<close>, then \<open>Sent\<close>, \<open>Answered\<close> by
  Discord, and after a failure still has to call \<^verbatim>\<open>noteError\<close>.  \<^verbatim>\<open>Close\<close> waits for all but the
  decided ones.
\<close>

datatype job =
    Decided snowflake bool
  | Sent snowflake bool
  | Answered snowflake bool "setDeaf_error option"
  | Noting setDeaf_error

fun job_counted :: "job \<Rightarrow> bool" where
  "job_counted (Decided _ _) = False"
| "job_counted _ = True"

fun job_of :: "snowflake \<Rightarrow> job \<Rightarrow> bool" where
  "job_of b (Decided b' _) = (b' = b)"
| "job_of b (Sent b' _) = (b' = b)"
| "job_of b (Answered b' _ _) = (b' = b)"
| "job_of b (Noting _) = False"

datatype close_phase = NotClosed | Waiting | Restoring "snowflake list" | CloseReturned

record deaf_world =
  ctl :: deafController
  jobs :: "job list"
  flag :: "snowflake \<Rightarrow> bool"
  closer :: close_phase

text \<open>
  \<open>OnTimer b\<close> may happen at any time: a fired timer may wait for the lock while others run, and
  \<^verbatim>\<open>applyAfterDelay\<close> checks what it finds.  A rejected change leaves Discord's flag as it was.
\<close>

datatype deaf_event =
    Joins snowflake
  | OnObserve "snowflake list"
  | OnTimer snowflake
  | StartApply snowflake bool
  | Answer snowflake bool "setDeaf_error option"
  | ApplyDone snowflake bool "setDeaf_error option"
  | NoteError setDeaf_error
  | CloseBegins
  | CloseWaited
  | CloseGivesUp
  | Restore "setDeaf_error option"
  | CloseEnds

definition move_job :: "job \<Rightarrow> job list \<Rightarrow> deaf_world \<Rightarrow> deaf_world option" where
  "move_job j js w = (if j \<in> set (jobs w) then Some (w\<lparr>jobs := remove1 j (jobs w) @ js\<rparr>) else None)"

fun deaf_step :: "deaf_event \<Rightarrow> deaf_world \<Rightarrow> deaf_world option" where
  "deaf_step (Joins b) w =
     (if map_of (dc_members (ctl w)) b \<noteq> None \<or> list_ex (job_of b) (jobs w) then None
      else Some (w\<lparr>ctl := Register b (flag w b) (ctl w)\<rparr>))"
| "deaf_step (OnObserve live) w =
     (let (c, us) = Observe (\<lambda>b. b \<in> set live) (ctl w)
      in Some (w\<lparr>ctl := c, jobs := jobs w @ map (\<lambda>b. Decided b False) us\<rparr>))"
| "deaf_step (OnTimer b) w =
     (let (c, r) = applyAfterDelay b (ctl w)
      in Some (w\<lparr>ctl := c, jobs := jobs w @ (case r of None \<Rightarrow> [] | Some d \<Rightarrow> [Decided b d])\<rparr>))"
| "deaf_step (StartApply b d) w = move_job (Decided b d) [Sent b d] w"
| "deaf_step (Answer b d r) w =
     map_option (\<lambda>w'. if r = None then w'\<lparr>flag := (flag w')(b := d)\<rparr> else w')
       (move_job (Sent b d) [Answered b d r] w)"
| "deaf_step (ApplyDone b d r) w =
     (let (c, u) = apply_done b d r (ctl w)
      in map_option (\<lambda>w'. w'\<lparr>ctl := c\<rparr>)
           (move_job (Answered b d r)
              ((if u then [Sent b False] else []) @ (case r of None \<Rightarrow> [] | Some e \<Rightarrow> [Noting e])) w))"
| "deaf_step (NoteError e) w =
     map_option (\<lambda>w'. w'\<lparr>ctl := noteError e (ctl w')\<rparr>) (move_job (Noting e) [] w)"
| "deaf_step CloseBegins w =
     (if closer w = NotClosed then Some (w\<lparr>ctl := close_begin (ctl w), closer := Waiting\<rparr>) else None)"
| "deaf_step CloseWaited w =
     (if closer w = Waiting \<and> \<not> list_ex job_counted (jobs w)
      then Some (w\<lparr>closer := Restoring (restore_list (ctl w))\<rparr>) else None)"
| "deaf_step CloseGivesUp w =
     (if closer w = Waiting then Some (w\<lparr>closer := Restoring (restore_list (ctl w))\<rparr>) else None)"
| "deaf_step (Restore r) w =
     (case closer w of
        Restoring (b # bs) \<Rightarrow>
          Some (w\<lparr>closer := Restoring bs, flag := (if r = None then (flag w)(b := False) else flag w)\<rparr>)
      | _ \<Rightarrow> None)"
| "deaf_step CloseEnds w =
     (if closer w = Restoring [] then Some (w\<lparr>closer := CloseReturned\<rparr>) else None)"

fun deaf_run :: "deaf_event list \<Rightarrow> deaf_world \<Rightarrow> deaf_world option" where
  "deaf_run [] w = Some w"
| "deaf_run (e # es) w = (case deaf_step e w of None \<Rightarrow> None | Some w' \<Rightarrow> deaf_run es w')"

definition fresh_world :: "(snowflake \<Rightarrow> bool) \<Rightarrow> deaf_world" where
  "fresh_world f = \<lparr>ctl = newDeafController, jobs = [], flag = f, closer = NotClosed\<rparr>"

section \<open>Invariant\<close>

definition member_jobs :: "deaf_world \<Rightarrow> snowflake \<Rightarrow> nat" where
  "member_jobs w b = length (filter (job_of b) (jobs w))"

text \<open>The controller has not forgotten what the router asked for.\<close>

definition pursued :: "deafController \<Rightarrow> deafMember \<Rightarrow> bool" where
  "pursued c m \<longleftrightarrow> dc_closed c \<or> disabled c \<or> dm_want m = dm_deaf m \<or> inFlight m \<or> dm_timer m \<or>
     failures m \<ge> deafRetryLimit"

definition member_wf :: "deafMember \<Rightarrow> bool" where
  "member_wf m \<longleftrightarrow> failures m \<le> deafRetryLimit \<and> \<not> (inFlight m \<and> dm_timer m) \<and>
     (inFlight m \<or> dm_timer m \<longrightarrow> failures m < deafRetryLimit)"

text \<open>What the member's flag will be recorded as: an answered change is not recorded yet.\<close>

definition agrees :: "deaf_world \<Rightarrow> snowflake \<Rightarrow> deafMember \<Rightarrow> bool" where
  "agrees w b m \<longleftrightarrow>
     (\<forall>d. Answered b d None \<in> set (jobs w) \<longrightarrow> flag w b = d) \<and>
     ((\<forall>d. Answered b d None \<notin> set (jobs w)) \<longrightarrow> flag w b = dm_deaf m)"

definition member :: "deafController \<Rightarrow> snowflake \<Rightarrow> deafMember option" where
  "member c = map_of (dc_members c)"

definition keys_ok :: "deafController \<Rightarrow> bool" where
  "keys_ok c \<longleftrightarrow> distinct (map fst (dc_members c))"

definition bot_inv :: "deaf_world \<Rightarrow> snowflake \<Rightarrow> bool" where
  "bot_inv w b \<longleftrightarrow>
     (case member (ctl w) b of
        None \<Rightarrow> member_jobs w b = 0
      | Some m \<Rightarrow> member_wf m \<and> pursued (ctl w) m \<and> member_jobs w b = (if inFlight m then 1 else 0) \<and>
          (closer w \<in> {NotClosed, Waiting} \<longrightarrow> agrees w b m))"

definition deaf_inv :: "deaf_world \<Rightarrow> bool" where
  "deaf_inv w \<longleftrightarrow> keys_ok (ctl w) \<and> (\<forall>b. bot_inv w b)"

lemma member_update [simp]:
  "member (c\<lparr>dc_members := AList.update b m (dc_members c)\<rparr>) = (member c)(b \<mapsto> m)"
  by (simp add: member_def update_conv' fun_eq_iff)

lemma keys_ok_update [simp]:
  "keys_ok c \<Longrightarrow> keys_ok (c\<lparr>dc_members := AList.update b m (dc_members c)\<rparr>)"
  by (simp add: keys_ok_def distinct_update)

lemma reconcileLocked_cases:
  assumes "reconcileLocked c imm m = (m', u)" and "member_wf m \<or> (\<not> inFlight m \<and> failures m \<le> deafRetryLimit \<and> \<not> dm_timer m)"
  shows "member_wf m' \<and> pursued c m' \<and> dm_deaf m' = dm_deaf m \<and> dm_want m' = dm_want m \<and>
    inFlight m' = (inFlight m \<or> u) \<and> \<not> (inFlight m \<and> u) \<and> (u \<longrightarrow> \<not> dc_closed c \<and> \<not> disabled c)"
  using assms by (auto simp: reconcileLocked_def member_wf_def pursued_def stopTimer_def split: if_splits)

lemma observe_member_cases:
  assumes "observe_member c live m = (m', u)" and "member_wf m"
  shows "member_wf m' \<and> pursued c m' \<and> dm_deaf m' = dm_deaf m \<and> dm_want m' = (\<not> live) \<and>
    inFlight m' = (inFlight m \<or> u) \<and> \<not> (inFlight m \<and> u) \<and> (u \<longrightarrow> \<not> dc_closed c \<and> \<not> disabled c)"
  using reconcileLocked_cases [of c _ "m\<lparr>failures := 0, rejected := rejected m \<and> (\<not> live) = dm_want m, dm_want := \<not> live\<rparr>" m' u] assms
  by (auto simp: observe_member_def Let_def member_wf_def deafRetryLimit_def)

lemma map_of_map_vals: "map_of (map (\<lambda>(k, v). (k, f k v)) al) k = map_option (f k) (map_of al k)"
  by (induction al) auto

lemma Observe_members:
  assumes "Observe live c = (c', us)" and "distinct (map fst (dc_members c))"
  shows "dc_closed c' = dc_closed c" "disabled c' = disabled c" "map fst (dc_members c') = map fst (dc_members c)" "distinct us"
    "dc_closed c \<or> disabled c \<Longrightarrow> c' = c \<and> us = []"
    "\<not> (dc_closed c \<or> disabled c) \<Longrightarrow> map_of (dc_members c') b = map_option (\<lambda>m. fst (observe_member c (live b) m)) (map_of (dc_members c) b)"
    "b \<in> set us \<longleftrightarrow> \<not> (dc_closed c \<or> disabled c) \<and> (\<exists>m. map_of (dc_members c) b = Some m \<and> snd (observe_member c (live b) m))"
proof -
  let ?f = "\<lambda>b m. observe_member c (live b) m"
  have us: "us = (if dc_closed c \<or> disabled c then [] else map fst (filter (\<lambda>(b, m). snd (?f b m)) (dc_members c)))"
    using assms(1) by (auto simp: Observe_def Let_def filter_map comp_def split_def)
  have mem: "dc_members c' = (if dc_closed c \<or> disabled c then dc_members c else map (\<lambda>(b, m). (b, fst (?f b m))) (dc_members c))"
    using assms(1) by (auto simp: Observe_def Let_def comp_def split_def)
  show "dc_closed c' = dc_closed c" "disabled c' = disabled c"
    using assms(1) by (auto simp: Observe_def Let_def split: if_splits)
  show "map fst (dc_members c') = map fst (dc_members c)" by (simp add: mem split_def comp_def)
  have "distinct (map fst (filter P (dc_members c)))" for P
    using assms(2) by (induction "dc_members c" arbitrary: c) (auto simp: distinct_map_filter)
  then show "distinct us" using us by simp
  show "dc_closed c \<or> disabled c \<Longrightarrow> c' = c \<and> us = []" using assms(1) by (simp add: Observe_def)
  show "\<not> (dc_closed c \<or> disabled c) \<Longrightarrow> map_of (dc_members c') b = map_option (\<lambda>m. fst (?f b m)) (map_of (dc_members c) b)"
    by (simp add: mem map_of_map_vals)
  show "b \<in> set us \<longleftrightarrow> \<not> (dc_closed c \<or> disabled c) \<and> (\<exists>m. map_of (dc_members c) b = Some m \<and> snd (?f b m))"
    using assms(2) by (auto simp: us intro: rev_image_eqI dest: map_of_SomeD)
qed

lemma length_filter_remove1:
  "length (filter P (remove1 x xs)) = (if x \<in> set xs \<and> P x then length (filter P xs) - 1 else length (filter P xs))"
  by (simp add: filter_remove1 length_remove1)

lemma move_job_count:
  assumes "move_job j js w = Some w'"
  shows "member_jobs w' b = (if job_of b j then member_jobs w b - 1 else member_jobs w b) + length (filter (job_of b) js)"
    "job_of b j \<Longrightarrow> member_jobs w b > 0" "ctl w' = ctl w" "flag w' = flag w" "closer w' = closer w" "j \<in> set (jobs w)"
    "jobs w' = remove1 j (jobs w) @ js"
  using assms
  by (auto simp: move_job_def member_jobs_def length_filter_remove1 filter_empty_conv split: if_splits)


lemma reconcileLocked_ok:
  assumes "reconcileLocked c imm m = (m', u)" and "member_wf m \<or> (\<not> inFlight m \<and> failures m \<le> deafRetryLimit \<and> \<not> dm_timer m)"
  shows "member_wf m'" "pursued c m'" "dm_deaf m' = dm_deaf m" "inFlight m' = (inFlight m \<or> u)"
    "inFlight m \<Longrightarrow> \<not> u" "dc_closed c \<or> disabled c \<Longrightarrow> \<not> u"
  using reconcileLocked_cases [OF assms] by auto

lemma stop_timers_members:
  "member (stop_timers c) b = map_option stopTimer (member c b)" "keys_ok (stop_timers c) = keys_ok c"
  "dc_closed (stop_timers c) = dc_closed c" "disabled (stop_timers c) = disabled c"
  using map_of_map_vals [of "\<lambda>_. stopTimer" "dc_members c" b]
  by (simp_all add: stop_timers_def member_def keys_ok_def split_def comp_def)

text \<open>Only bot \<open>b\<close> is touched.\<close>

definition others_same :: "snowflake \<Rightarrow> deaf_world \<Rightarrow> deaf_world \<Rightarrow> bool" where
  "others_same b w w' \<longleftrightarrow> closer w' = closer w \<and> dc_closed (ctl w') = dc_closed (ctl w) \<and>
     disabled (ctl w') = disabled (ctl w) \<and>
     (\<forall>b'. b' \<noteq> b \<longrightarrow> member (ctl w') b' = member (ctl w) b' \<and> flag w' b' = flag w b' \<and>
        member_jobs w' b' = member_jobs w b' \<and>
        (\<forall>d. Answered b' d None \<in> set (jobs w') \<longleftrightarrow> Answered b' d None \<in> set (jobs w)))"

lemma deaf_inv_one_bot:
  assumes "deaf_inv w" "others_same b w w'" "keys_ok (ctl w')" "bot_inv w b \<Longrightarrow> bot_inv w' b"
  shows "deaf_inv w'"
  unfolding deaf_inv_def
proof (intro conjI allI)
  fix b'
  show "bot_inv w' b'"
  proof (cases "b' = b")
    case False
    then have "bot_inv w' b' = bot_inv w b'"
      using assms(2) by (simp add: bot_inv_def others_same_def pursued_def agrees_def split: option.split)
    then show ?thesis using assms(1) by (simp add: deaf_inv_def)
  qed (use assms in \<open>simp add: deaf_inv_def\<close>)
qed (use assms in simp)

lemma no_jobs: "member_jobs w b = 0 \<Longrightarrow> Answered b d r \<notin> set (jobs w)"
  by (auto simp: member_jobs_def filter_empty_conv)

lemma deaf_inv_fresh: "deaf_inv (fresh_world f)"
  by (simp add: deaf_inv_def bot_inv_def member_def keys_ok_def fresh_world_def newDeafController_def member_jobs_def)

lemma deaf_inv_Joins:
  assumes "deaf_inv w" "deaf_step (Joins b) w = Some w'"
  shows "deaf_inv w'"
proof -
  have n: "member (ctl w) b = None" "member_jobs w b = 0" and w': "w' = w\<lparr>ctl := Register b (flag w b) (ctl w)\<rparr>"
    using assms(2) by (auto simp: member_def member_jobs_def filter_empty_conv list_ex_iff split: if_splits)
  show ?thesis
  proof (rule deaf_inv_one_bot [OF assms(1), of b])
    show "others_same b w w'" by (simp add: others_same_def w' Register_def member_jobs_def)
    show "keys_ok (ctl w')" using assms(1) by (simp add: w' Register_def deaf_inv_def)
    show "bot_inv w' b" using n no_jobs [OF n(2)]
      by (simp add: bot_inv_def w' Register_def member_wf_def pursued_def agrees_def member_jobs_def deafRetryLimit_def)
  qed
qed

lemma decided_count: "distinct us \<Longrightarrow> length (filter (job_of b) (map (\<lambda>b. Decided b d) us)) = (if b \<in> set us then 1 else 0)"
  by (induction us) (auto simp: filter_empty_conv)

lemma deaf_inv_OnObserve:
  assumes "deaf_inv w" "deaf_step (OnObserve live) w = Some w'"
  shows "deaf_inv w'"
proof -
  obtain c us where o: "Observe (\<lambda>b. b \<in> set live) (ctl w) = (c, us)" by fastforce
  have d: "distinct (map fst (dc_members (ctl w)))" using assms(1) by (simp add: deaf_inv_def keys_ok_def)
  note ob = Observe_members [OF o d, folded member_def]
  have w': "w' = w\<lparr>ctl := c, jobs := jobs w @ map (\<lambda>b. Decided b False) us\<rparr>"
    using assms(2) o by simp
  have jobs: "member_jobs w' b = member_jobs w b + (if b \<in> set us then 1 else 0)" for b
    using decided_count [OF ob(4), of b False] by (simp add: w' member_jobs_def)
  have agr: "agrees w' b m' = agrees w b m" if "dm_deaf m' = dm_deaf m" for b m m'
    using that by (auto simp: agrees_def w')
  show ?thesis
  proof (cases "dc_closed (ctl w) \<or> disabled (ctl w)")
    case True
    then have "w' = w" using ob(5) by (simp add: w')
    then show ?thesis using assms(1) by simp
  next
    case False
    have "bot_inv w' b" for b
    proof (cases "member (ctl w) b")
      case None
      then show ?thesis using assms(1) ob(6,7) [of b] False jobs [of b]
        by (auto simp: deaf_inv_def bot_inv_def w' split: option.splits dest!: spec [of _ b])
    next
      case (Some m)
      obtain m' u where u: "observe_member (ctl w) (b \<in> set live) m = (m', u)" by fastforce
      have inv: "member_wf m" "member_jobs w b = (if inFlight m then 1 else 0)"
        "closer w \<in> {NotClosed, Waiting} \<longrightarrow> agrees w b m"
        using assms(1) Some by (auto simp: deaf_inv_def bot_inv_def dest!: spec [of _ b])
      have "b \<in> set us \<longleftrightarrow> u" "member c b = Some m'" using ob(6,7) [of b] False Some u by simp_all
      moreover have "pursued c = pursued (ctl w)" using ob(1,2) by (simp add: fun_eq_iff pursued_def)
      ultimately show ?thesis
        using observe_member_cases [OF u inv(1)] inv(2,3) jobs [of b] agr [of m' m b]
        by (auto simp: bot_inv_def w')
    qed
    then show ?thesis using ob(3) d by (simp add: deaf_inv_def w' keys_ok_def)
  qed
qed


lemma single_job:
  assumes "member_jobs w b = 1" "x \<in> set (jobs w)" "y \<in> set (jobs w)" "job_of b x" "job_of b y"
  shows "x = y"
proof -
  obtain z where "filter (job_of b) (jobs w) = [z]"
    using assms(1) by (auto simp: member_jobs_def length_Suc_conv)
  moreover have "x \<in> set (filter (job_of b) (jobs w))" "y \<in> set (filter (job_of b) (jobs w))"
    using assms(2-) by simp_all
  ultimately show ?thesis by (metis empty_iff insert_iff list.set)
qed

lemma bot_inv_flying:
  assumes "bot_inv w b" "member_jobs w b > 0"
  obtains m where "member_jobs w b = 1" "member (ctl w) b = Some m" "inFlight m" "member_wf m"
    "closer w \<in> {NotClosed, Waiting} \<longrightarrow> agrees w b m"
  using assms unfolding bot_inv_def by (cases "member (ctl w) b") (simp_all split: if_splits)

lemma applyAfterDelay_cases:
  assumes "applyAfterDelay b c = (c', r)"
  obtains (idle) "c' = c" "r = None"
  | (settled) m where "member c b = Some m" "c' = c\<lparr>dc_members := AList.update b (m\<lparr>dm_timer := False\<rparr>) (dc_members c)\<rparr>"
      "r = None" "dm_want m = dm_deaf m" "dm_timer m" "\<not> inFlight m"
  | (fires) m where "member c b = Some m" "c' = c\<lparr>dc_members := AList.update b (m\<lparr>dm_timer := False, inFlight := True\<rparr>) (dc_members c)\<rparr>"
      "r = Some (dm_want m)" "dm_timer m" "\<not> inFlight m"
  using assms by (auto simp: applyAfterDelay_def member_def Let_def split: option.splits if_splits)

lemma deaf_inv_OnTimer:
  assumes "deaf_inv w" "deaf_step (OnTimer b) w = Some w'"
  shows "deaf_inv w'"
proof -
  obtain c r where o: "applyAfterDelay b (ctl w) = (c, r)" by fastforce
  have w': "w' = w\<lparr>ctl := c, jobs := jobs w @ (case r of None \<Rightarrow> [] | Some d \<Rightarrow> [Decided b d])\<rparr>"
    using assms(2) o by simp
  have k: "keys_ok (ctl w)" using assms(1) by (simp add: deaf_inv_def)
  from o show ?thesis
  proof (cases rule: applyAfterDelay_cases)
    case idle
    then show ?thesis using assms(1) w' by simp
  next
    case (settled m)
    show ?thesis
    proof (rule deaf_inv_one_bot [OF assms(1), of b])
      show "others_same b w w'" "keys_ok (ctl w')" using settled k by (simp_all add: others_same_def w' member_jobs_def)
      show "bot_inv w b \<Longrightarrow> bot_inv w' b"
        using settled by (simp add: bot_inv_def w' member_jobs_def member_wf_def pursued_def agrees_def)
    qed
  next
    case (fires m)
    show ?thesis
    proof (rule deaf_inv_one_bot [OF assms(1), of b])
      show "others_same b w w'" "keys_ok (ctl w')" using fires k by (simp_all add: others_same_def w' member_jobs_def)
      show "bot_inv w b \<Longrightarrow> bot_inv w' b"
        using fires by (simp add: bot_inv_def w' member_jobs_def member_wf_def pursued_def agrees_def)
    qed
  qed
qed

lemma deaf_inv_StartApply:
  assumes "deaf_inv w" "deaf_step (StartApply b d) w = Some w'"
  shows "deaf_inv w'"
proof -
  note m = move_job_count [OF assms(2) [simplified]]
  show ?thesis
  proof (rule deaf_inv_one_bot [OF assms(1), of b])
    show "others_same b w w'" using m(1,3-) by (auto simp: others_same_def)
    show "keys_ok (ctl w')" using assms(1) m(3) by (simp add: deaf_inv_def)
    have "member_jobs w' b = member_jobs w b" using m(1,2) [of b] by simp
    moreover have "agrees w' b = agrees w b" using m(4,7) by (simp add: agrees_def fun_eq_iff)
    ultimately show "bot_inv w b \<Longrightarrow> bot_inv w' b" using m(3,5) by (auto simp: bot_inv_def split: option.split)
  qed
qed

lemma deaf_inv_Answer:
  assumes "deaf_inv w" "deaf_step (Answer b d r) w = Some w'"
  shows "deaf_inv w'"
proof -
  obtain w1 where w1: "move_job (Sent b d) [Answered b d r] w = Some w1"
    and w': "w' = (if r = None then w1\<lparr>flag := (flag w1)(b := d)\<rparr> else w1)"
    using assms(2) by (auto split: if_splits)
  note m = move_job_count [OF w1]
  have mj: "member_jobs w' = member_jobs w1" by (simp add: w' member_jobs_def fun_eq_iff)
  show ?thesis
  proof (rule deaf_inv_one_bot [OF assms(1), of b])
    show "others_same b w w'" using m(1,3-) mj by (auto simp: others_same_def w')
    show "keys_ok (ctl w')" using assms(1) m(3) w' by (simp add: deaf_inv_def)
    assume b: "bot_inv w b"
    obtain mb where one: "member_jobs w b = 1" and mb: "member (ctl w) b = Some mb" "inFlight mb" "member_wf mb"
      "closer w \<in> {NotClosed, Waiting} \<longrightarrow> agrees w b mb"
      using bot_inv_flying [OF b m(2)] by auto
    have no: "Answered b d' r' \<notin> set (jobs w)" for d' r'
      using single_job [OF one m(6), of "Answered b d' r'"] by auto
    have "agrees w b mb \<Longrightarrow> agrees w' b mb" for mb
      using no m(4,7) by (auto simp: agrees_def w')
    moreover have "ctl w' = ctl w" "closer w' = closer w" "member_jobs w' b = member_jobs w b"
      using m(1) [of b] m(3,5) one mj by (simp_all add: w')
    ultimately show "bot_inv w' b" using b mb one by (simp add: bot_inv_def)
  qed
qed

lemma deaf_inv_ApplyDone:
  assumes "deaf_inv w" "deaf_step (ApplyDone b d r) w = Some w'"
  shows "deaf_inv w'"
proof -
  obtain c u where c: "apply_done b d r (ctl w) = (c, u)" by fastforce
  let ?js = "(if u then [Sent b False] else []) @ (case r of None \<Rightarrow> [] | Some e \<Rightarrow> [Noting e])"
  obtain w1 where w1: "move_job (Answered b d r) ?js w = Some w1" and w': "w' = w1\<lparr>ctl := c\<rparr>"
    using assms(2) c by auto
  note m = move_job_count [OF w1]
  have mj: "member_jobs w' = member_jobs w1" by (simp add: w' member_jobs_def fun_eq_iff)
  have other: "member c b' = member (ctl w) b'" if "b' \<noteq> b" for b'
    using c that by (auto simp: apply_done_def Let_def split: option.splits prod.splits)
  have cd: "dc_closed c = dc_closed (ctl w)" "disabled c = disabled (ctl w)" "keys_ok (ctl w) \<Longrightarrow> keys_ok c"
    using c by (auto simp: apply_done_def Let_def split: option.splits prod.splits)
  show ?thesis
  proof (rule deaf_inv_one_bot [OF assms(1), of b])
    show "others_same b w w'"
      using m(1,3-) mj other cd by (auto simp: others_same_def w' split: option.splits if_splits)
    show "keys_ok (ctl w')" using assms(1) cd by (simp add: deaf_inv_def w')
    assume b: "bot_inv w b"
    obtain mb where one: "member_jobs w b = 1" and mb: "member (ctl w) b = Some mb" "inFlight mb" "member_wf mb"
      "closer w \<in> {NotClosed, Waiting} \<longrightarrow> agrees w b mb"
      using bot_inv_flying [OF b m(2)] by auto
    let ?m1 = "mb\<lparr>inFlight := False\<rparr>"
    let ?m2 = "if r = None then ?m1\<lparr>dm_deaf := d, failures := 0, rejected := False\<rparr>
      else ?m1\<lparr>failures := failures ?m1 + 1, rejected := True\<rparr>"
    obtain m3 where m3: "reconcileLocked (ctl w) (r = None) ?m2 = (m3, u)" "member c b = Some m3"
      using c mb(1) by (auto simp: apply_done_def member_def [symmetric] Let_def split: prod.splits)
    have ok: "\<not> inFlight ?m2 \<and> failures ?m2 \<le> deafRetryLimit \<and> \<not> dm_timer ?m2"
      using mb(2,3) by (auto simp: member_wf_def)
    note rec = reconcileLocked_ok [OF m3(1) disjI2 [OF ok]]
    have "length (filter (job_of b) ?js) = (if u then 1 else 0)" by (auto split: option.split)
    then have n: "member_jobs w' b = (if u then 1 else 0)" using m(1) [of b] one mj by simp
    have only: "Answered b d' r' \<in> set (jobs w) \<Longrightarrow> d' = d \<and> r' = r" for d' r'
      using single_job [OF one m(6), of "Answered b d' r'"] by auto
    have gone: "Answered b d' r' \<notin> set (jobs w')" for d' r'
    proof
      assume "Answered b d' r' \<in> set (jobs w')"
      then have "Answered b d' r' \<in> set (remove1 (Answered b d r) (jobs w))"
        using m(7) by (auto simp: w' split: option.splits if_splits)
      moreover from this have "d' = d \<and> r' = r" using only [OF subsetD [OF set_remove1_subset]] by blast
      ultimately have "Answered b d r \<in> set (remove1 (Answered b d r) (jobs w))" by simp
      then have "member_jobs w1 b > length (filter (job_of b) ?js)"
        using length_pos_if_in_set [of "Answered b d r" "filter (job_of b) (remove1 (Answered b d r) (jobs w))"]
        unfolding member_jobs_def m(7) by simp
      then show False using m(1) [of b] one by simp
    qed
    have "agrees w b mb \<Longrightarrow> agrees w' b m3"
      using gone m(4,6) rec(3) by (auto simp: agrees_def w' split: if_splits) (use only in blast)+
    then show "bot_inv w' b" using m3(2) rec(1,2,4) n ok mb(4) cd m(5)
      by (simp add: bot_inv_def w' pursued_def)
  qed
qed


lemma deaf_inv_stop_timers:
  assumes "deaf_inv w" and "ctl w' = stop_timers c" "dc_members c = dc_members (ctl w)" "dc_closed c \<or> disabled c"
    and "flag w' = flag w" and "\<And>b. member_jobs w' b = member_jobs w b"
    and "\<And>b d. Answered b d None \<in> set (jobs w') \<longleftrightarrow> Answered b d None \<in> set (jobs w)"
    and "closer w' \<in> {NotClosed, Waiting} \<Longrightarrow> closer w \<in> {NotClosed, Waiting}"
  shows "deaf_inv w'"
proof -
  have m: "member c = member (ctl w)" "keys_ok c = keys_ok (ctl w)" using assms(3) by (simp_all add: member_def keys_ok_def)
  have "bot_inv w' b" if b: "bot_inv w b" for b
  proof (cases "member (ctl w) b")
    case None
    then show ?thesis using b assms(6) by (simp add: bot_inv_def assms(2) stop_timers_members m)
  next
    case (Some mb)
    have "member_wf mb \<Longrightarrow> member_wf (stopTimer mb)" by (auto simp: member_wf_def stopTimer_def)
    moreover have "pursued (ctl w') (stopTimer mb)"
      using assms(4) by (auto simp: pursued_def assms(2) stop_timers_members)
    moreover have "agrees w b mb \<Longrightarrow> agrees w' b (stopTimer mb)"
      using assms(5,7) by (simp add: agrees_def stopTimer_def)
    ultimately show ?thesis using b assms(6,8) Some
      by (auto simp: bot_inv_def assms(2) stop_timers_members m stopTimer_def)
  qed
  then show ?thesis using assms(1) by (simp add: deaf_inv_def assms(2) stop_timers_members m)
qed

lemma deaf_inv_NoteError:
  assumes "deaf_inv w" "deaf_step (NoteError e) w = Some w'"
  shows "deaf_inv w'"
proof -
  obtain w1 where w1: "move_job (Noting e) [] w = Some w1" and w': "w' = w1\<lparr>ctl := noteError e (ctl w1)\<rparr>"
    using assms(2) by auto
  note m = move_job_count [OF w1]
  have ans: "Answered b d None \<in> set (jobs w') \<longleftrightarrow> Answered b d None \<in> set (jobs w)" for b d
    using m(6,7) by (simp add: w')
  have jobs: "member_jobs w' b = member_jobs w b" for b using m(1) [of b] by (simp add: w' member_jobs_def)
  show ?thesis
  proof (cases "isPermissionError e \<and> \<not> disabled (ctl w)")
    case True
    then show ?thesis using m ans jobs
      by (intro deaf_inv_stop_timers [OF assms(1), of w' "(ctl w)\<lparr>disabled := True\<rparr>"])
        (simp_all add: noteError_def w')
  next
    case False
    then have "ctl w' = ctl w" using m(3) by (auto simp: noteError_def w')
    moreover from this have "bot_inv w' b = bot_inv w b" for b
      using jobs ans m(4,5) by (simp add: bot_inv_def agrees_def w' split: option.split)
    ultimately show ?thesis using assms(1) by (simp add: deaf_inv_def)
  qed
qed

lemma deaf_inv_closing:
  assumes "deaf_inv w" and "ctl w' = ctl w" "jobs w' = jobs w" "closer w' \<notin> {NotClosed, Waiting}"
  shows "deaf_inv w'"
proof -
  have "bot_inv w b \<Longrightarrow> bot_inv w' b" for b
    using assms(2-4) by (auto simp: bot_inv_def member_jobs_def split: option.splits)
  then show ?thesis using assms(1,2) by (simp add: deaf_inv_def)
qed

lemma closing_step:
  assumes "deaf_step e w = Some w'" and "e \<in> {CloseWaited, CloseGivesUp, CloseEnds, Restore r}"
  shows "ctl w' = ctl w \<and> jobs w' = jobs w \<and> closer w' \<notin> {NotClosed, Waiting}"
  using assms by (auto split: if_splits close_phase.splits list.splits)

lemma deaf_inv_CloseBegins:
  assumes "deaf_inv w" "deaf_step CloseBegins w = Some w'"
  shows "deaf_inv w'"
proof -
  have "w' = w\<lparr>ctl := close_begin (ctl w), closer := Waiting\<rparr>" "closer w = NotClosed"
    using assms(2) by (auto split: if_splits)
  then show ?thesis
    by (intro deaf_inv_stop_timers [OF assms(1), of w' "(ctl w)\<lparr>dc_closed := True\<rparr>"])
      (simp_all add: close_begin_def member_jobs_def)
qed

lemma deaf_inv_step:
  assumes "deaf_inv w" "deaf_step e w = Some w'"
  shows "deaf_inv w'"
proof (cases e)
  case (Restore r)
  then show ?thesis using closing_step [OF assms(2), of r] deaf_inv_closing [OF assms(1)] by blast
next
  case CloseWaited
  then show ?thesis using closing_step [OF assms(2)] deaf_inv_closing [OF assms(1)] by blast
next
  case CloseGivesUp
  then show ?thesis using closing_step [OF assms(2)] deaf_inv_closing [OF assms(1)] by blast
next
  case CloseEnds
  then show ?thesis using closing_step [OF assms(2)] deaf_inv_closing [OF assms(1)] by blast
qed (use assms in \<open>blast intro: deaf_inv_Joins deaf_inv_OnObserve deaf_inv_OnTimer deaf_inv_StartApply
    deaf_inv_Answer deaf_inv_ApplyDone deaf_inv_NoteError deaf_inv_CloseBegins\<close>)+

lemma deaf_inv_run: "deaf_inv w \<Longrightarrow> deaf_run es w = Some w' \<Longrightarrow> deaf_inv w'"
  by (induction es arbitrary: w) (auto split: option.splits intro: deaf_inv_step)


section \<open>What the controller guarantees\<close>


definition mid_patch :: "deaf_event list" where
  "mid_patch = [Joins 5, OnObserve [], OnTimer 5, StartApply 5 True, OnObserve [5], Answer 5 True None,
     ApplyDone 5 True None]"

lemmas deaf_eval = Observe_def observe_member_def reconcileLocked_def applyAfterDelay_def apply_done_def
  move_job_def Register_def stopTimer_def fresh_world_def newDeafController_def Let_def deafRetryLimit_def

lemma mid_patch_runs:
  "\<exists>w m. deaf_run mid_patch (fresh_world (\<lambda>_. False)) = Some w \<and> map_of (dc_members (ctl w)) 5 = Some m \<and>
     \<not> dm_want m \<and> dm_deaf m \<and> jobs w = [Sent 5 False]"
  by (simp add: mid_patch_def deaf_eval)


text \<open>
  The controller's record is Discord's: until \<^verbatim>\<open>Close\<close> starts restoring, the recorded state of a
  bot is the flag Discord keeps, except between Discord's answer and its recording.
\<close>

theorem deaf_record_matches_discord:
  assumes "deaf_run es (fresh_world f) = Some w" and "map_of (dc_members (ctl w)) b = Some m"
    and "closer w \<in> {NotClosed, Waiting}" and "\<forall>d. Answered b d None \<notin> set (jobs w)"
  shows "dm_deaf m = flag w b"
proof -
  have "bot_inv w b" using deaf_inv_run [OF deaf_inv_fresh assms(1)] by (simp add: deaf_inv_def)
  moreover have "member (ctl w) b = Some m" using assms(2) by (simp add: member_def)
  ultimately show ?thesis using assms(3,4) by (auto simp: bot_inv_def agrees_def)
qed

lemma deaf_record_matches_discord_witness:
  "\<exists>w m. deaf_run mid_patch (fresh_world (\<lambda>_. False)) = Some w \<and> map_of (dc_members (ctl w)) 5 = Some m \<and>
     dm_deaf m = flag w 5 \<and> dm_deaf m"
proof -
  obtain w m where w: "deaf_run mid_patch (fresh_world (\<lambda>_. False)) = Some w" "map_of (dc_members (ctl w)) 5 = Some m"
    "jobs w = [Sent 5 False]" "dm_deaf m" using mid_patch_runs by blast
  moreover have "closer w = NotClosed" using w(1) by (simp add: mid_patch_def deaf_eval) auto
  ultimately show ?thesis using deaf_record_matches_discord [OF w(1,2)] by auto
qed

fun starts_change :: "job \<Rightarrow> bool" where
  "starts_change (Decided _ _) = True"
| "starts_change (Sent _ _) = True"
| "starts_change _ = False"

definition outgoing :: "deaf_world \<Rightarrow> nat" where
  "outgoing w = length (filter starts_change (jobs w))"

lemma outgoing_move:
  "move_job j js w = Some w' \<Longrightarrow>
     outgoing w' = (if starts_change j then outgoing w - 1 else outgoing w) + length (filter starts_change js) \<and>
     (starts_change j \<longrightarrow> outgoing w > 0) \<and> ctl w' = ctl w"
  by (auto simp: move_job_def outgoing_def length_filter_remove1 filter_empty_conv split: if_splits)

lemma latched_step:
  assumes "disabled (ctl w)" "deaf_step e w = Some w'"
  shows "disabled (ctl w') \<and> outgoing w' \<le> outgoing w"
proof (cases e)
  case (OnTimer b)
  obtain c r where o: "applyAfterDelay b (ctl w) = (c, r)" by fastforce
  then have "c = ctl w \<and> r = None"
    using assms(1) by (auto simp: applyAfterDelay_def Let_def split: option.splits if_splits)
  with OnTimer assms o show ?thesis by (auto simp: outgoing_def)
next
  case (ApplyDone b d r)
  obtain c u where c: "apply_done b d r (ctl w) = (c, u)" by fastforce
  then have "\<not> u \<and> disabled c"
    using assms(1) by (auto simp: apply_done_def reconcileLocked_def Let_def split: option.splits if_splits)
  with ApplyDone assms c show ?thesis by (auto dest!: outgoing_move simp: outgoing_def split: option.splits)
next
  case (Restore r)
  with assms show ?thesis by (auto simp: outgoing_def split: close_phase.splits list.splits)
qed (use assms in \<open>auto dest!: outgoing_move simp: Register_def Observe_def outgoing_def noteError_def stop_timers_def
    close_begin_def split: if_splits\<close>)

text \<open>
  One refusal for lack of permission is enough: once the latch is set it stays set, and in no
  continuation is another change decided or sent beyond those already on their way.
\<close>

theorem permission_latch_is_final:
  assumes "disabled (ctl w)" and "deaf_run es w = Some w'"
  shows "disabled (ctl w') \<and> length (filter starts_change (jobs w')) \<le> length (filter starts_change (jobs w))"
  using assms
proof (induction es arbitrary: w)
  case (Cons e es)
  then obtain w1 where w1: "deaf_step e w = Some w1" "deaf_run es w1 = Some w'" by (auto split: option.splits)
  from latched_step [OF Cons.prems(1) w1(1)] Cons.IH [OF _ w1(2)] show ?case by (auto simp: outgoing_def)
qed simp

lemma permission_latch_is_final_witness:
  "\<exists>w w'. deaf_run [Joins 5, OnObserve [], OnTimer 5, StartApply 5 True,
       Answer 5 True (Some (RestError 50013 (Some 403))), ApplyDone 5 True (Some (RestError 50013 (Some 403))),
       NoteError (RestError 50013 (Some 403))] (fresh_world (\<lambda>_. False)) = Some w \<and>
     deaf_run [OnObserve [], OnTimer 5] w = Some w' \<and>
     disabled (ctl w') \<and> length (filter starts_change (jobs w')) \<le> length (filter starts_change (jobs w))"
proof -
  obtain w where w: "deaf_run [Joins 5, OnObserve [], OnTimer 5, StartApply 5 True,
       Answer 5 True (Some (RestError 50013 (Some 403))), ApplyDone 5 True (Some (RestError 50013 (Some 403))),
       NoteError (RestError 50013 (Some 403))] (fresh_world (\<lambda>_. False)) = Some w" "disabled (ctl w)"
    by (simp add: deaf_eval noteError_def stop_timers_def jsonErrMissingPermissions_def)
  moreover obtain w' where "deaf_run [OnObserve [], OnTimer 5] w = Some w'" by (simp add: Let_def split_def)
  ultimately show ?thesis using permission_latch_is_final by blast
qed


section \<open>Closing\<close>

lemma closer_closed:
  "deaf_run es w = Some w' \<Longrightarrow> closer w \<noteq> NotClosed \<longrightarrow> dc_closed (ctl w) \<Longrightarrow>
     closer w' \<noteq> NotClosed \<longrightarrow> dc_closed (ctl w')"
proof (induction es arbitrary: w)
  case (Cons e es)
  then obtain w1 where w1: "deaf_step e w = Some w1" "deaf_run es w1 = Some w'" by (auto split: option.splits)
  have cd: "dc_closed (fst (apply_done b d r c)) = dc_closed c" "dc_closed (fst (applyAfterDelay b c)) = dc_closed c"
    "dc_closed (fst (Observe l c)) = dc_closed c" "dc_closed (Register b f c) = dc_closed c"
    "dc_closed (noteError x c) = dc_closed c" for b d r c l f x
    by (auto simp: apply_done_def applyAfterDelay_def Observe_def Register_def noteError_def stop_timers_def Let_def
        split: option.splits prod.splits)
  have "closer w1 \<noteq> NotClosed \<longrightarrow> dc_closed (ctl w1)"
  proof (cases e)
    case (Restore r)
    then show ?thesis using w1(1) Cons.prems(2) by (auto split: close_phase.splits list.splits)
  qed (use w1(1) Cons.prems(2) cd in \<open>auto simp: Let_def split_def close_begin_def stop_timers_def move_job_def
      split: if_splits\<close>)
  with Cons.IH [OF w1(2)] show ?case by simp
qed simp

text \<open>Nothing is on its way and the session is closed: only the restores touch a flag.\<close>

definition shut :: "deaf_world \<Rightarrow> bool" where
  "shut w \<longleftrightarrow> dc_closed (ctl w) \<and> jobs w = [] \<and>
     (\<forall>b. member (ctl w) b \<noteq> None \<longrightarrow>
        (case closer w of
           NotClosed \<Rightarrow> False
         | Waiting \<Rightarrow> flag w b = dm_deaf (the (member (ctl w) b))
         | Restoring bs \<Rightarrow> flag w b \<longrightarrow> b \<in> set bs
         | CloseReturned \<Rightarrow> \<not> flag w b))"

lemma restore_list_mem: "member c b = Some m \<Longrightarrow> dm_deaf m \<Longrightarrow> b \<in> set (restore_list c)"
  unfolding restore_list_def member_def by (force dest: map_of_SomeD)

lemma jobs_same: "jobs w = js \<Longrightarrow> w\<lparr>jobs := js\<rparr> = w"
  by (cases w) simp

lemma shut_step:
  assumes "shut w" "closer w \<noteq> NotClosed" "deaf_step e w = Some w'" "\<And>x. e \<noteq> Restore (Some x)"
  shows "shut w' \<and> closer w' \<noteq> NotClosed \<and> member (ctl w') = member (ctl w)"
proof (cases e)
  case CloseWaited
  then have "w' = w\<lparr>closer := Restoring (restore_list (ctl w))\<rparr>" "closer w = Waiting"
    using assms(3) by (auto split: if_splits)
  then show ?thesis using assms(1) restore_list_mem by (fastforce simp: shut_def)
next
  case (OnObserve l)
  then have "w' = w" using assms(1,3) by (simp add: shut_def Observe_def Let_def jobs_same)
  then show ?thesis using assms by simp
next
  case (OnTimer b)
  then have "w' = w" using assms(1,3) by (auto simp: shut_def applyAfterDelay_def Let_def jobs_same split: option.splits)
  then show ?thesis using assms by simp
next
  case CloseGivesUp
  then have "w' = w\<lparr>closer := Restoring (restore_list (ctl w))\<rparr>" "closer w = Waiting"
    using assms(3) by (auto split: if_splits)
  then show ?thesis using assms(1) restore_list_mem by (fastforce simp: shut_def)
next
  case (Restore r)
  then show ?thesis using assms by (cases r) (auto simp: shut_def split: close_phase.splits list.splits if_splits)
qed (use assms in \<open>auto simp: shut_def Register_def Observe_def applyAfterDelay_def move_job_def Let_def
    split: if_splits option.splits\<close>)

text \<open>
  A session strands no flag: if \<^verbatim>\<open>Close\<close> has stopped the timers and no change is decided, in
  flight or unanswered any more, then however recomputes, late timers and the restoring
  interleave, when \<^verbatim>\<open>Close\<close> has returned (and Discord accepted the restores) no registered bot
  is server-deafened.
\<close>

theorem close_strands_no_flag:
  assumes "deaf_run es (fresh_world f) = Some w" and "closer w = Waiting" and "jobs w = []"
    and "deaf_run es' w = Some w'" and "\<And>x. Restore (Some x) \<notin> set es'" and "closer w' = CloseReturned"
    and "map_of (dc_members (ctl w)) b \<noteq> None"
  shows "\<not> flag w' b"
proof -
  have "dc_closed (ctl w)" using closer_closed [OF assms(1)] assms(2) by (simp add: fresh_world_def)
  moreover have "flag w b = dm_deaf m" if "member (ctl w) b = Some m" for b m
  proof -
    have "bot_inv w b" using deaf_inv_run [OF deaf_inv_fresh assms(1)] by (simp add: deaf_inv_def)
    with that show ?thesis using assms(2,3) by (simp add: bot_inv_def agrees_def)
  qed
  ultimately have "shut w" using assms(2,3) by (auto simp: shut_def)
  moreover have "closer w \<noteq> NotClosed" using assms(2) by simp
  ultimately have "shut w' \<and> member (ctl w') = member (ctl w)"
    using assms(4,5)
  proof (induction es' arbitrary: w)
    case (Cons e es')
    then obtain w1 where w1: "deaf_step e w = Some w1" "deaf_run es' w1 = Some w'" by (auto split: option.splits)
    have "\<And>x. e \<noteq> Restore (Some x)" using Cons.prems(4) by auto
    note st = shut_step [OF Cons.prems(1,2) w1(1) this]
    have "shut w' \<and> member (ctl w') = member (ctl w1)"
      using Cons.IH [OF _ _ w1(2)] st Cons.prems(4) by simp
    with st show ?case by simp
  qed simp
  then show ?thesis using assms(6,7) by (auto simp: shut_def member_def)
qed

lemma close_strands_no_flag_witness:
  "\<exists>w w'. deaf_run [Joins 5, OnObserve [], OnTimer 5, StartApply 5 True, CloseBegins, Answer 5 True None,
       ApplyDone 5 True None] (fresh_world (\<lambda>_. False)) = Some w \<and> flag w 5 \<and>
     deaf_run [OnObserve [], CloseWaited, OnTimer 5, Restore None, CloseEnds] w = Some w' \<and> \<not> flag w' 5"
proof -
  obtain w where w: "deaf_run [Joins 5, OnObserve [], OnTimer 5, StartApply 5 True, CloseBegins, Answer 5 True None,
       ApplyDone 5 True None] (fresh_world (\<lambda>_. False)) = Some w" "closer w = Waiting" "jobs w = []" "flag w 5"
     "map_of (dc_members (ctl w)) 5 \<noteq> None" "restore_list (ctl w) = [5]" "dc_closed (ctl w)"
    by (simp add: deaf_eval close_begin_def stop_timers_def restore_list_def)
  obtain w' where w': "deaf_run [OnObserve [], CloseWaited, OnTimer 5, Restore None, CloseEnds] w = Some w'"
      "closer w' = CloseReturned"
    using w by (simp add: Let_def Observe_def applyAfterDelay_def split: option.splits)
  from close_strands_no_flag [OF w(1-3) w'(1) _ w'(2) w(5)] w w' show ?thesis by auto
qed

text \<open>
  The race that is left: a change that has been decided under the lock but has not reached
  \<^verbatim>\<open>applying.Add\<close> is invisible to \<^verbatim>\<open>Close\<close>, which can return while the deafening PATCH is still to
  be sent.  The bot then stays server-deafened, and the closed controller never undoes it.
\<close>

theorem late_deafen_stranded:
  "\<exists>w. deaf_run [Joins 5, OnObserve [], OnTimer 5, CloseBegins, CloseWaited, CloseEnds,
       StartApply 5 True, Answer 5 True None, ApplyDone 5 True None] (fresh_world (\<lambda>_. False)) = Some w \<and>
     closer w = CloseReturned \<and> jobs w = [] \<and> flag w 5"
  by (simp add: deaf_eval close_begin_def stop_timers_def restore_list_def)

section \<open>Joining and leaving\<close>

text \<open>\<open>cached\<close> is the cached server-deaf bit, \<open>update\<close> the answer of the REST call.\<close>

definition ensureSpeakerDeaf :: "bool option \<Rightarrow> bool \<Rightarrow> setDeaf_error option \<Rightarrow> bool option \<times> setDeaf_error option" where
  "ensureSpeakerDeaf cached want update =
     (if cached = Some want then (None, None) else (Some want, update))"

text \<open>
  \<^verbatim>\<open>reconcileSpeakerDeaf\<close>: the change sent to Discord, the controller (absent when the guild has
  none) and whether there is something to undo at teardown.
\<close>

definition note_maybe :: "setDeaf_error option \<Rightarrow> deafController option \<Rightarrow> deafController option" where
  "note_maybe err c = (case err of None \<Rightarrow> c | Some e \<Rightarrow> map_option (noteError e) c)"

definition reconcileSpeakerDeaf ::
  "bool option \<Rightarrow> bool \<Rightarrow> setDeaf_error option \<Rightarrow> deafController option \<Rightarrow>
     bool option \<times> deafController option \<times> bool" where
  "reconcileSpeakerDeaf cached withCapture update c =
     (if withCapture then
        let (sent, err) = ensureSpeakerDeaf cached False update in (sent, note_maybe err c, False)
      else
        let (sent, err) = ensureSpeakerDeaf cached True update in (sent, note_maybe err c, err = None))"

section \<open>Readiness\<close>

record caches =
  ca_Member :: "snowflake \<Rightarrow> snowflake list option"
  ca_Role :: "snowflake \<Rightarrow> int option"
  ca_Permissions :: "snowflake \<Rightarrow> bool \<times> bool"

record DeafenReadiness =
  MissingPermission :: bool
  OutrankedBy :: "snowflake list"

definition OK :: "DeafenReadiness \<Rightarrow> bool" where
  "OK d \<longleftrightarrow> \<not> MissingPermission d \<and> OutrankedBy d = []"

fun top_of :: "caches \<Rightarrow> int \<Rightarrow> snowflake list \<Rightarrow> int option" where
  "top_of ca t [] = Some t"
| "top_of ca t (r # rs) = (case ca_Role ca r of None \<Rightarrow> None | Some p \<Rightarrow> top_of ca (max t p) rs)"

definition topRolePosition :: "caches \<Rightarrow> snowflake list \<Rightarrow> int option" where
  "topRolePosition ca roles = top_of ca 0 roles"

text \<open>\<open>ca_Permissions\<close> tells whether a member is an administrator and may deafen members.\<close>

definition CheckDeafenReadiness :: "caches \<Rightarrow> snowflake \<Rightarrow> (snowflake \<times> bool) list option \<Rightarrow> DeafenReadiness" where
  "CheckDeafenReadiness ca owner speakers =
     (case ca_Member ca owner of
        None \<Rightarrow> \<lparr>MissingPermission = False, OutrankedBy = []\<rparr>
      | Some ownerRoles \<Rightarrow>
          let (admin, deafen) = ca_Permissions ca owner;
              missing = (\<not> admin \<and> \<not> deafen)
          in case (topRolePosition ca ownerRoles, speakers) of
               (Some ownerTop, Some sps) \<Rightarrow>
                 \<lparr>MissingPermission = missing,
                  OutrankedBy = map fst (filter (\<lambda>(sp, enabled). enabled \<and>
                    (case ca_Member ca sp of None \<Rightarrow> False
                     | Some roles \<Rightarrow>
                         (case topRolePosition ca roles of None \<Rightarrow> False | Some t \<Rightarrow> t \<ge> ownerTop))) sps)\<rparr>
             | _ \<Rightarrow> \<lparr>MissingPermission = missing, OutrankedBy = []\<rparr>)"

lemma top_of_max:
  "top_of ca t rs = (if list_all (\<lambda>r. ca_Role ca r \<noteq> None) rs
     then Some (fold (\<lambda>r t. max t (the (ca_Role ca r))) rs t) else None)"
  by (induction rs arbitrary: t) (auto split: option.split)

lemma fold_max_less:
  "fold (\<lambda>r t. max t (f r)) rs (t0 :: int) < b \<longleftrightarrow> t0 < b \<and> (\<forall>r \<in> set rs. f r < b)"
  by (induction rs arbitrary: t0) auto

lemma less_fold_max:
  "b < fold (\<lambda>r t. max t (f r)) rs (t0 :: int) \<longleftrightarrow> b < t0 \<or> (\<exists>r \<in> set rs. b < f r)"
  by (induction rs arbitrary: t0) auto

text \<open>
  The readiness check is Discord's rule: with everything in the cache it reports no problem
  exactly if the owner bot may deafen members (or is an administrator) and, for every enabled
  speaker bot, has a role strictly above \<^verbatim>\<open>@everyone\<close> and above every role of that bot.
\<close>

theorem CheckDeafenReadiness_OK_iff:
  assumes "ca_Member ca owner = Some oroles" and "\<forall>r \<in> set oroles. ca_Role ca r \<noteq> None"
    and "\<And>sp enabled. (sp, enabled) \<in> set sps \<Longrightarrow>
      ca_Member ca sp = Some (roles sp) \<and> (\<forall>r \<in> set (roles sp). ca_Role ca r \<noteq> None)"
  shows "OK (CheckDeafenReadiness ca owner (Some sps)) \<longleftrightarrow>
    (fst (ca_Permissions ca owner) \<or> snd (ca_Permissions ca owner)) \<and>
    (\<forall>sp. (sp, True) \<in> set sps \<longrightarrow>
       (\<exists>o_role \<in> set oroles. 0 < the (ca_Role ca o_role) \<and>
          (\<forall>r \<in> set (roles sp). the (ca_Role ca r) < the (ca_Role ca o_role))))"
proof -
  let ?pos = "\<lambda>r. the (ca_Role ca r)"
  let ?top = "\<lambda>rs. fold (\<lambda>r t. max t (?pos r)) rs 0"
  have otop: "topRolePosition ca oroles = Some (?top oroles)"
    using assms(2) by (simp add: topRolePosition_def top_of_max list_all_iff)
  have stop: "topRolePosition ca (roles sp) = Some (?top (roles sp))" if "(sp, en) \<in> set sps" for sp en
    using assms(3) [OF that] by (simp add: topRolePosition_def top_of_max list_all_iff)
  have cmp: "?top rs < ?top oroles \<longleftrightarrow> (\<exists>o_role \<in> set oroles. 0 < ?pos o_role \<and> (\<forall>r \<in> set rs. ?pos r < ?pos o_role))" for rs
    using less_fold_max [of "?top rs" ?pos oroles 0] fold_max_less [of ?pos rs 0] by auto
  have out: "OutrankedBy (CheckDeafenReadiness ca owner (Some sps)) = [] \<longleftrightarrow>
      (\<forall>sp. (sp, True) \<in> set sps \<longrightarrow> ?top (roles sp) < ?top oroles)"
    using assms(3) stop
    by (fastforce simp: CheckDeafenReadiness_def assms(1) otop split_def Let_def filter_empty_conv)
  have "MissingPermission (CheckDeafenReadiness ca owner (Some sps)) \<longleftrightarrow>
      \<not> (fst (ca_Permissions ca owner) \<or> snd (ca_Permissions ca owner))"
    by (simp add: CheckDeafenReadiness_def assms(1) otop split_def Let_def)
  with out show ?thesis unfolding OK_def cmp by blast
qed

definition two_bots :: caches where
  "two_bots = \<lparr>ca_Member = [1 \<mapsto> [10], 2 \<mapsto> [20], 3 \<mapsto> [10]],
     ca_Role = [10 \<mapsto> 5, 20 \<mapsto> 4], ca_Permissions = (\<lambda>_. (False, True))\<rparr>"

lemma CheckDeafenReadiness_OK_iff_witness:
  "OK (CheckDeafenReadiness two_bots 1 (Some [(2, True), (3, False)])) \<and>
   \<not> OK (CheckDeafenReadiness two_bots 1 (Some [(2, True), (3, True)]))"
proof -
  have "OK (CheckDeafenReadiness two_bots 1 (Some [(2, True), (3, False)]))"
    by (subst CheckDeafenReadiness_OK_iff [where roles = "\<lambda>sp. if sp = 2 then [20] else [10]" and oroles = "[10]"])
      (auto simp: two_bots_def)
  moreover have "\<not> OK (CheckDeafenReadiness two_bots 1 (Some [(2, True), (3, True)]))"
    by (subst CheckDeafenReadiness_OK_iff [where roles = "\<lambda>sp. if sp = 2 then [20] else [10]" and oroles = "[10]"])
      (auto simp: two_bots_def)
  ultimately show ?thesis ..
qed

end
