(* ===== verification/Store.thy ===== *)
theory Store
  imports Prelude
begin

text \<open>
  The persistence interface and its in-memory implementation: \<^verbatim>\<open>internal/store/store.go\<close>.

  A Go map is an association list here, because the code iterates over these maps: \<^verbatim>\<open>range\<close>
  visits the list from left to right, and since Go leaves the order open every theorem is about
  all lists.  The interface \<^verbatim>\<open>Store\<close> is a record of operations (\<open>Store\<close>); what it promises
  is the locale \<open>store_laws\<close>, over an abstraction to finite maps (\<open>bindings\<close>).
\<close>

section \<open>Keys and state\<close>

type_synonym RoleType = string

definition RoleTypeCaller :: RoleType where "RoleTypeCaller = ''caller''"
definition RoleTypeManager :: RoleType where "RoleTypeManager = ''manager''"

record botKey =
  userID :: snowflake
  guildID :: snowflake

record roleKey =
  rk_guildID :: snowflake
  rk_roleType :: RoleType

abbreviation bot_key :: "snowflake \<Rightarrow> snowflake \<Rightarrow> botKey" where
  "bot_key u g \<equiv> \<lparr>userID = u, guildID = g\<rparr>"

abbreviation role_key :: "snowflake \<Rightarrow> RoleType \<Rightarrow> roleKey" where
  "role_key g r \<equiv> \<lparr>rk_guildID = g, rk_roleType = r\<rparr>"

record InMemoryStore =
  channels :: "(botKey \<times> snowflake) list"
  roles :: "(roleKey \<times> snowflake) list"
  relayCodes :: "(snowflake \<times> string) list"
  locales :: "(snowflake \<times> string) list"
  disabled :: "(botKey \<times> unit) list"

definition NewInMemoryStore :: InMemoryStore where
  "NewInMemoryStore = \<lparr>channels = [], roles = [], relayCodes = [], locales = [], disabled = []\<rparr>"

section \<open>Ally codes\<close>

text \<open>
  \<^verbatim>\<open>base32.StdEncoding\<close> without padding reads five bytes as one 40-bit big-endian number and
  writes its eight base-32 digits.
\<close>

definition base32_alphabet :: string where
  "base32_alphabet = ''ABCDEFGHIJKLMNOPQRSTUVWXYZ234567''"

definition big_endian :: "8 word list \<Rightarrow> nat" where
  "big_endian bs = foldl (\<lambda>n b. 256 * n + unat b) 0 bs"

definition base32_block :: "8 word list \<Rightarrow> string" where
  "base32_block bs =
     map (\<lambda>i. base32_alphabet ! (big_endian bs div 32 ^ (7 - i) mod 32)) [0..<8]"

definition to_upper :: "char \<Rightarrow> char" where
  "to_upper c = (let n = (of_char c :: nat) in if 97 \<le> n \<and> n \<le> 122 then char_of (n - 32) else c)"

text \<open>The argument is what \<^verbatim>\<open>rand.Read\<close> wrote into the buffer.\<close>

definition generateAllyCode :: "8 word list \<Rightarrow> string" where
  "generateAllyCode b = take 8 (map to_upper (base32_block b))"

text \<open>\<open>draws n\<close> is the result of the call number \<open>n\<close> of \<^verbatim>\<open>rand.Read\<close>.\<close>

partial_function (option) draw_code :: "string list \<Rightarrow> (nat \<Rightarrow> 8 word list) \<Rightarrow> nat \<Rightarrow> string option" where
  "draw_code used draws n =
     (if generateAllyCode (draws n) \<notin> set used then Some (generateAllyCode (draws n))
      else draw_code used draws (Suc n))"

definition uniqueAllyCode :: "(snowflake \<times> string) list \<Rightarrow> (nat \<Rightarrow> 8 word list) \<Rightarrow> string option" where
  "uniqueAllyCode existing draws = draw_code (map snd existing) draws 0"

section \<open>Operations\<close>

definition BindChannel :: "snowflake \<Rightarrow> snowflake \<Rightarrow> snowflake \<Rightarrow> 'a InMemoryStore_scheme \<Rightarrow> 'a InMemoryStore_scheme" where
  "BindChannel g u ch s = s\<lparr>channels := AList.update (bot_key u g) ch (channels s)\<rparr>"

definition UnbindChannel :: "snowflake \<Rightarrow> snowflake \<Rightarrow> 'a InMemoryStore_scheme \<Rightarrow> 'a InMemoryStore_scheme" where
  "UnbindChannel g u s = s\<lparr>channels := AList.delete (bot_key u g) (channels s)\<rparr>"

definition GetBoundChannel :: "snowflake \<Rightarrow> snowflake \<Rightarrow> 'a InMemoryStore_scheme \<Rightarrow> snowflake option" where
  "GetBoundChannel g u s = map_of (channels s) (bot_key u g)"

definition BindRole :: "snowflake \<Rightarrow> RoleType \<Rightarrow> snowflake \<Rightarrow> 'a InMemoryStore_scheme \<Rightarrow> 'a InMemoryStore_scheme" where
  "BindRole g rt r s = s\<lparr>roles := AList.update (role_key g rt) r (roles s)\<rparr>"

definition UnbindRole :: "snowflake \<Rightarrow> RoleType \<Rightarrow> 'a InMemoryStore_scheme \<Rightarrow> 'a InMemoryStore_scheme" where
  "UnbindRole g rt s = s\<lparr>roles := AList.delete (role_key g rt) (roles s)\<rparr>"

definition GetBoundRole :: "snowflake \<Rightarrow> RoleType \<Rightarrow> 'a InMemoryStore_scheme \<Rightarrow> snowflake option" where
  "GetBoundRole g rt s = map_of (roles s) (role_key g rt)"

text \<open>\<open>None\<close>: the loop that draws a code never returns.\<close>

definition GetOrCreateAllyCode ::
  "(nat \<Rightarrow> 8 word list) \<Rightarrow> snowflake \<Rightarrow> 'a InMemoryStore_scheme \<Rightarrow> ('a InMemoryStore_scheme \<times> string) option" where
  "GetOrCreateAllyCode draws g s =
     (case map_of (relayCodes s) g of
        Some code \<Rightarrow> Some (s, code)
      | None \<Rightarrow>
          (case uniqueAllyCode (relayCodes s) draws of
             None \<Rightarrow> None
           | Some code \<Rightarrow> Some (s\<lparr>relayCodes := AList.update g code (relayCodes s)\<rparr>, code)))"

definition GetAllyCode :: "snowflake \<Rightarrow> 'a InMemoryStore_scheme \<Rightarrow> string option" where
  "GetAllyCode g s = map_of (relayCodes s) g"

definition BindLocale :: "snowflake \<Rightarrow> string \<Rightarrow> 'a InMemoryStore_scheme \<Rightarrow> 'a InMemoryStore_scheme" where
  "BindLocale g loc s =
     (if loc = [] then s\<lparr>locales := AList.delete g (locales s)\<rparr>
      else s\<lparr>locales := AList.update g loc (locales s)\<rparr>)"

definition UnbindLocale :: "snowflake \<Rightarrow> 'a InMemoryStore_scheme \<Rightarrow> 'a InMemoryStore_scheme" where
  "UnbindLocale g s = s\<lparr>locales := AList.delete g (locales s)\<rparr>"

definition GetLocale :: "snowflake \<Rightarrow> 'a InMemoryStore_scheme \<Rightarrow> string option" where
  "GetLocale g s = map_of (locales s) g"

definition SetSpeakerEnabled :: "snowflake \<Rightarrow> snowflake \<Rightarrow> bool \<Rightarrow> 'a InMemoryStore_scheme \<Rightarrow> 'a InMemoryStore_scheme" where
  "SetSpeakerEnabled g u enabled s =
     (if enabled then s\<lparr>disabled := AList.delete (bot_key u g) (disabled s)\<rparr>
      else s\<lparr>disabled := AList.update (bot_key u g) () (disabled s)\<rparr>)"

definition IsSpeakerEnabled :: "snowflake \<Rightarrow> snowflake \<Rightarrow> 'a InMemoryStore_scheme \<Rightarrow> bool" where
  "IsSpeakerEnabled g u s \<longleftrightarrow> map_of (disabled s) (bot_key u g) = None"

lemmas store_op_defs =
  BindChannel_def UnbindChannel_def GetBoundChannel_def BindRole_def UnbindRole_def
  GetBoundRole_def GetAllyCode_def BindLocale_def UnbindLocale_def GetLocale_def
  SetSpeakerEnabled_def IsSpeakerEnabled_def

section \<open>The interface\<close>

record 's Store =
  s_BindChannel :: "snowflake \<Rightarrow> snowflake \<Rightarrow> snowflake \<Rightarrow> 's \<Rightarrow> 's"
  s_UnbindChannel :: "snowflake \<Rightarrow> snowflake \<Rightarrow> 's \<Rightarrow> 's"
  s_GetBoundChannel :: "snowflake \<Rightarrow> snowflake \<Rightarrow> 's \<Rightarrow> snowflake option"
  s_BindRole :: "snowflake \<Rightarrow> RoleType \<Rightarrow> snowflake \<Rightarrow> 's \<Rightarrow> 's"
  s_UnbindRole :: "snowflake \<Rightarrow> RoleType \<Rightarrow> 's \<Rightarrow> 's"
  s_GetBoundRole :: "snowflake \<Rightarrow> RoleType \<Rightarrow> 's \<Rightarrow> snowflake option"
  s_GetOrCreateAllyCode :: "(nat \<Rightarrow> 8 word list) \<Rightarrow> snowflake \<Rightarrow> 's \<Rightarrow> ('s \<times> string) option"
  s_GetAllyCode :: "snowflake \<Rightarrow> 's \<Rightarrow> string option"
  s_BindLocale :: "snowflake \<Rightarrow> string \<Rightarrow> 's \<Rightarrow> 's"
  s_UnbindLocale :: "snowflake \<Rightarrow> 's \<Rightarrow> 's"
  s_GetLocale :: "snowflake \<Rightarrow> 's \<Rightarrow> string option"
  s_SetSpeakerEnabled :: "snowflake \<Rightarrow> snowflake \<Rightarrow> bool \<Rightarrow> 's \<Rightarrow> 's"
  s_IsSpeakerEnabled :: "snowflake \<Rightarrow> snowflake \<Rightarrow> 's \<Rightarrow> bool"

definition memory_store :: "InMemoryStore Store" where
  "memory_store =
     \<lparr>s_BindChannel = BindChannel, s_UnbindChannel = UnbindChannel,
      s_GetBoundChannel = GetBoundChannel, s_BindRole = BindRole, s_UnbindRole = UnbindRole,
      s_GetBoundRole = GetBoundRole, s_GetOrCreateAllyCode = GetOrCreateAllyCode,
      s_GetAllyCode = GetAllyCode, s_BindLocale = BindLocale, s_UnbindLocale = UnbindLocale,
      s_GetLocale = GetLocale, s_SetSpeakerEnabled = SetSpeakerEnabled,
      s_IsSpeakerEnabled = IsSpeakerEnabled\<rparr>"

section \<open>What a draw of a code gives\<close>

lemma alphabet_length [simp]: "length base32_alphabet = 32"
  by (simp add: base32_alphabet_def)

lemma alphabet_distinct: "distinct base32_alphabet"
  by (simp add: base32_alphabet_def)

lemma alphabet_upper: "c \<in> set base32_alphabet \<Longrightarrow> to_upper c = c"
  by (auto simp: base32_alphabet_def to_upper_def)

lemma base32_block_alphabet: "set (base32_block bs) \<subseteq> set base32_alphabet"
  by (auto simp: base32_block_def intro!: nth_mem)

lemma map_to_upper_alphabet: "set cs \<subseteq> set base32_alphabet \<Longrightarrow> map to_upper cs = cs"
  by (induction cs) (auto simp: alphabet_upper)

text \<open>Upper-casing and the slice change nothing: five bytes are eight digits.\<close>

lemma generateAllyCode_block: "generateAllyCode b = base32_block b"
  using map_to_upper_alphabet [OF base32_block_alphabet [of b]]
  by (simp add: generateAllyCode_def base32_block_def)

lemma digits_inject:
  fixes m n b :: nat
  assumes "\<forall>k < K. n div b ^ k mod b = m div b ^ k mod b"
  shows "n mod b ^ K = m mod b ^ K"
  using assms
proof (induction K)
  case (Suc K)
  have "n mod (b ^ K * b) = b ^ K * (n div b ^ K mod b) + n mod b ^ K"
    "m mod (b ^ K * b) = b ^ K * (m div b ^ K mod b) + m mod b ^ K"
    by (rule mod_mult2_eq)+
  with Suc show ?case by (simp add: mult.commute)
qed simp

lemma big_endian_snoc: "big_endian (bs @ [b]) = 256 * big_endian bs + unat b"
  by (simp add: big_endian_def)

lemma unat_byte: "unat (b :: 8 word) < 256"
  using unsigned_less [of b] by simp

lemma big_endian_less: "big_endian bs < 256 ^ length bs"
proof (induction bs rule: rev_induct)
  case (snoc b bs)
  then show ?case using unat_byte [of b] by (simp add: big_endian_snoc)
qed (simp add: big_endian_def)

lemma big_endian_inject:
  "length as = length bs \<Longrightarrow> big_endian as = big_endian bs \<Longrightarrow> as = bs"
proof (induction as arbitrary: bs rule: rev_induct)
  case (snoc a as)
  then obtain b bs' where bs: "bs = bs' @ [b]"
    by (metis length_0_conv length_append_singleton rev_exhaust Zero_not_Suc)
  from snoc.prems(2) have e: "256 * big_endian as + unat a = 256 * big_endian bs' + unat b"
    by (simp add: bs big_endian_snoc)
  from arg_cong [OF e, of "\<lambda>n. n mod 256"] have "unat a = unat b"
    using unat_byte [of a] unat_byte [of b] by simp
  with e snoc bs show ?case by (simp add: unsigned_word_eqI)
qed simp

lemma generateAllyCode_inject:
  assumes "length as = 5" and "length bs = 5" and "generateAllyCode as = generateAllyCode bs"
  shows "as = bs"
proof (rule big_endian_inject)
  have dig: "big_endian as div 32 ^ k mod 32 = big_endian bs div 32 ^ k mod 32" if k: "k < 8" for k
  proof -
    have "base32_block as ! (7 - k) = base32_block bs ! (7 - k)"
      using assms(3) by (simp add: generateAllyCode_block)
    moreover have "7 - (7 - k) = k" "7 - k < 8" using k by simp_all
    ultimately show ?thesis
      using alphabet_distinct by (simp add: base32_block_def nth_eq_iff_index_eq)
  qed
  have "big_endian as mod 32 ^ 8 = big_endian bs mod 32 ^ 8"
    by (rule digits_inject) (use dig in simp)
  moreover have "big_endian as < 32 ^ 8" "big_endian bs < 32 ^ 8"
    using big_endian_less [of as] big_endian_less [of bs] assms by simp_all
  ultimately show "big_endian as = big_endian bs" by simp
qed (use assms in simp)

lemma draw_code_first:
  assumes "generateAllyCode (draws k) \<notin> set used" and "n \<le> k"
    and "\<And>i. n \<le> i \<Longrightarrow> i < k \<Longrightarrow> generateAllyCode (draws i) \<in> set used"
  shows "draw_code used draws n = Some (generateAllyCode (draws k))"
  using assms(2,3)
proof (induction "k - n" arbitrary: n)
  case 0
  then show ?case using assms(1) by (simp add: draw_code.simps)
next
  case (Suc d)
  then show ?case by (subst draw_code.simps) simp
qed

lemma draw_code_sound:
  assumes "draw_code used draws n = Some c"
  shows "c \<notin> set used \<and> (\<exists>i \<ge> n. c = generateAllyCode (draws i))"
proof (rule draw_code.raw_induct [where P = "\<lambda>used draws n c.
    c \<notin> set used \<and> (\<exists>i \<ge> n. c = generateAllyCode (draws i))", OF _ assms])
  fix rec used draws n c
  assume IH: "\<And>used draws n c. rec used draws n = Some c \<Longrightarrow>
      c \<notin> set used \<and> (\<exists>i \<ge> n. c = generateAllyCode (draws i))"
    and step: "(if generateAllyCode (draws n) \<notin> set used then Some (generateAllyCode (draws n))
      else rec used draws (Suc n)) = Some c"
  show "c \<notin> set used \<and> (\<exists>i \<ge> n. c = generateAllyCode (draws i))"
  proof (cases "generateAllyCode (draws n) \<in> set used")
    case False
    with step show ?thesis by auto
  next
    case True
    with step have "rec used draws (Suc n) = Some c" by simp
    from IH [OF this] show ?thesis by (auto dest: Suc_leD)
  qed
qed

lemma draw_code_returns:
  assumes "generateAllyCode (draws k) \<notin> set used" and "n \<le> k"
  obtains i where "n \<le> i" "i \<le> k" "draw_code used draws n = Some (generateAllyCode (draws i))"
proof -
  let ?P = "\<lambda>i. n \<le> i \<and> generateAllyCode (draws i) \<notin> set used"
  define i where "i = (LEAST i. ?P i)"
  have "?P i" unfolding i_def by (rule LeastI [of ?P k]) (use assms in simp)
  moreover have "i \<le> k" unfolding i_def by (rule Least_le) (use assms in simp)
  moreover have "n \<le> j \<Longrightarrow> j < i \<Longrightarrow> generateAllyCode (draws j) \<in> set used" for j
    using not_less_Least [of j ?P] by (auto simp: i_def)
  ultimately show ?thesis using that [of i] draw_code_first [of draws i used n] by blast
qed

lemma uniqueAllyCode_some:
  "generateAllyCode (draws k) \<notin> snd ` set existing \<Longrightarrow> uniqueAllyCode existing draws \<noteq> None"
  using draw_code_returns [of draws k "map snd existing" 0] by (auto simp: uniqueAllyCode_def)

text \<open>
  C39. Drawing an ally code ends and gives a usable code: if some draw among the first
  \<open>k + 1\<close> gives a code that no guild has, then \<^verbatim>\<open>uniqueAllyCode\<close> returns after at most
  \<open>k + 1\<close> draws with eight letters or digits of the base-32 alphabet that no guild has.
\<close>

theorem uniqueAllyCode_returns:
  assumes "generateAllyCode (draws k) \<notin> snd ` set existing"
  shows "\<exists>i \<le> k. uniqueAllyCode existing draws = Some (generateAllyCode (draws i)) \<and>
    generateAllyCode (draws i) \<notin> snd ` set existing \<and> length (generateAllyCode (draws i)) = 8 \<and>
    set (generateAllyCode (draws i)) \<subseteq> set base32_alphabet"
proof -
  from assms obtain i where "i \<le> k"
    "draw_code (map snd existing) draws 0 = Some (generateAllyCode (draws i))"
    using draw_code_returns [of draws k "map snd existing" 0] by auto
  then show ?thesis
    using draw_code_sound [of "map snd existing" draws 0] base32_block_alphabet
    by (auto simp: uniqueAllyCode_def generateAllyCode_block base32_block_def)
qed

text \<open>Two guilds hold the codes of the first two draws; the third one is fresh.\<close>

lemma uniqueAllyCode_returns_witness:
  "\<exists>i \<le> 2. uniqueAllyCode [(1, ''AAAAAAAA''), (2, ''AAAAAAAB'')]
      (\<lambda>n. [0, 0, 0, 0, word_of_nat n]) = Some (generateAllyCode [0, 0, 0, 0, word_of_nat i])"
proof -
  have "generateAllyCode [0, 0, 0, 0, word_of_nat 2] = ''AAAAAAAC''"
    by (simp add: generateAllyCode_block base32_block_def big_endian_def base32_alphabet_def upt_conv_Cons)
  then show ?thesis
    using uniqueAllyCode_returns [of "\<lambda>n. [0, 0, 0, 0, word_of_nat n]" 2
      "[(1, ''AAAAAAAA''), (2, ''AAAAAAAB'')]"] by auto
qed

text \<open>
  With \<open>n\<close> codes taken, the loop of \<^verbatim>\<open>uniqueAllyCode\<close> cannot fail on \<open>n + 1\<close>
  different draws of five bytes: different draws give different codes, so one of them is free.
\<close>

theorem uniqueAllyCode_pigeonhole:
  assumes "inj_on draws {0..length existing}" and "\<And>i. length (draws i) = 5"
  shows "uniqueAllyCode existing draws \<noteq> None"
proof -
  have "inj_on (\<lambda>i. generateAllyCode (draws i)) {0..length existing}"
    using assms by (auto simp: inj_on_def intro: generateAllyCode_inject)
  then have "card ((\<lambda>i. generateAllyCode (draws i)) ` {0..length existing}) = Suc (length existing)"
    by (simp add: card_image)
  moreover have "card (snd ` set existing) \<le> length existing"
    by (metis card_length list.set_map length_map)
  ultimately have "\<not> (\<lambda>i. generateAllyCode (draws i)) ` {0..length existing} \<subseteq> snd ` set existing"
    (is "\<not> ?codes \<subseteq> ?used")
    using card_mono [of ?used ?codes] by auto
  then obtain k where "generateAllyCode (draws k) \<notin> snd ` set existing" by auto
  then show ?thesis by (rule uniqueAllyCode_some)
qed

lemma uniqueAllyCode_pigeonhole_witness:
  "uniqueAllyCode [(7, ''AAAAAAAA'')] (\<lambda>n. [0, 0, 0, 0, word_of_nat n]) \<noteq> None"
proof (rule uniqueAllyCode_pigeonhole)
  show "inj_on (\<lambda>n. [0 :: 8 word, 0, 0, 0, word_of_nat n]) {0..length [(7 :: snowflake, ''AAAAAAAA'')]}"
    by (auto simp: inj_on_def le_Suc_eq)
qed simp

section \<open>What the interface promises\<close>

record bindings =
  v_channel :: "botKey \<rightharpoonup> snowflake"
  v_role :: "roleKey \<rightharpoonup> snowflake"
  v_code :: "snowflake \<rightharpoonup> string"
  v_locale :: "snowflake \<rightharpoonup> string"
  v_disabled :: "botKey set"

definition no_bindings :: bindings where
  "no_bindings = \<lparr>v_channel = Map.empty, v_role = Map.empty, v_code = Map.empty,
     v_locale = Map.empty, v_disabled = {}\<rparr>"

text \<open>Every mutation of the interface, and a run of several; a hanging draw is \<open>None\<close>.\<close>

datatype StoreOp =
  OpBindChannel snowflake snowflake snowflake
| OpUnbindChannel snowflake snowflake
| OpBindRole snowflake RoleType snowflake
| OpUnbindRole snowflake RoleType
| OpAllyCode "nat \<Rightarrow> 8 word list" snowflake
| OpBindLocale snowflake string
| OpUnbindLocale snowflake
| OpSetEnabled snowflake snowflake bool

primrec apply_op :: "'s Store \<Rightarrow> StoreOp \<Rightarrow> 's \<Rightarrow> 's option" where
  "apply_op S (OpBindChannel g u ch) s = Some (s_BindChannel S g u ch s)"
| "apply_op S (OpUnbindChannel g u) s = Some (s_UnbindChannel S g u s)"
| "apply_op S (OpBindRole g rt r) s = Some (s_BindRole S g rt r s)"
| "apply_op S (OpUnbindRole g rt) s = Some (s_UnbindRole S g rt s)"
| "apply_op S (OpAllyCode draws g) s = map_option fst (s_GetOrCreateAllyCode S draws g s)"
| "apply_op S (OpBindLocale g loc) s = Some (s_BindLocale S g loc s)"
| "apply_op S (OpUnbindLocale g) s = Some (s_UnbindLocale S g s)"
| "apply_op S (OpSetEnabled g u on) s = Some (s_SetSpeakerEnabled S g u on s)"

fun run_ops :: "'s Store \<Rightarrow> StoreOp list \<Rightarrow> 's \<Rightarrow> 's option" where
  "run_ops S [] s = Some s"
| "run_ops S (op # ops) s = Option.bind (apply_op S op s) (run_ops S ops)"

locale store_laws =
  fixes S :: "'s Store" and view :: "'s \<Rightarrow> bindings" and wf :: "'s \<Rightarrow> bool"
  assumes get_channel: "s_GetBoundChannel S g u s = v_channel (view s) (bot_key u g)"
    and get_role: "s_GetBoundRole S g rt s = v_role (view s) (role_key g rt)"
    and get_code: "s_GetAllyCode S g s = v_code (view s) g"
    and get_locale: "s_GetLocale S g s = v_locale (view s) g"
    and speaker_enabled: "s_IsSpeakerEnabled S g u s \<longleftrightarrow> bot_key u g \<notin> v_disabled (view s)"
    and bind_channel: "view (s_BindChannel S g u ch s) =
      (view s)\<lparr>v_channel := (v_channel (view s))(bot_key u g \<mapsto> ch)\<rparr>"
    and unbind_channel: "view (s_UnbindChannel S g u s) =
      (view s)\<lparr>v_channel := (v_channel (view s))(bot_key u g := None)\<rparr>"
    and bind_role: "view (s_BindRole S g rt r s) =
      (view s)\<lparr>v_role := (v_role (view s))(role_key g rt \<mapsto> r)\<rparr>"
    and unbind_role: "view (s_UnbindRole S g rt s) =
      (view s)\<lparr>v_role := (v_role (view s))(role_key g rt := None)\<rparr>"
    and bind_locale: "view (s_BindLocale S g loc s) =
      (view s)\<lparr>v_locale := (v_locale (view s))(g := (if loc = [] then None else Some loc))\<rparr>"
    and unbind_locale: "view (s_UnbindLocale S g s) =
      (view s)\<lparr>v_locale := (v_locale (view s))(g := None)\<rparr>"
    and set_enabled: "view (s_SetSpeakerEnabled S g u on s) =
      (view s)\<lparr>v_disabled := (if on then v_disabled (view s) - {bot_key u g}
                             else insert (bot_key u g) (v_disabled (view s)))\<rparr>"
    and create_code: "s_GetOrCreateAllyCode S draws g s = Some (s', c) \<Longrightarrow>
      (case v_code (view s) g of
         Some c' \<Rightarrow> c = c' \<and> view s' = view s
       | None \<Rightarrow> c \<notin> ran (v_code (view s)) \<and> (\<exists>i. c = generateAllyCode (draws i)) \<and>
           view s' = (view s)\<lparr>v_code := (v_code (view s))(g \<mapsto> c)\<rparr>)"
    and create_code_returns: "wf s \<Longrightarrow> generateAllyCode (draws k) \<notin> ran (v_code (view s)) \<Longrightarrow>
      s_GetOrCreateAllyCode S draws g s \<noteq> None"
    and wf_kept: "wf s \<Longrightarrow> apply_op S op s = Some s' \<Longrightarrow> wf s'"

text \<open>What the YAML file can hold: no channel 0, no empty code, no empty locale.\<close>

definition storable :: "bindings \<Rightarrow> bool" where
  "storable v \<longleftrightarrow> 0 \<notin> ran (v_channel v) \<and> [] \<notin> ran (v_code v) \<and> [] \<notin> ran (v_locale v)"

fun storable_op :: "StoreOp \<Rightarrow> bool" where
  "storable_op (OpBindChannel g u ch) \<longleftrightarrow> ch \<noteq> 0"
| "storable_op _ \<longleftrightarrow> True"

context store_laws
begin

lemmas mutators =
  bind_channel unbind_channel bind_role unbind_role bind_locale unbind_locale set_enabled

lemma apply_op_codes:
  assumes "apply_op S op s = Some s'" and "inj_on (v_code (view s)) (dom (v_code (view s)))"
  shows "inj_on (v_code (view s')) (dom (v_code (view s')))"
proof (cases op)
  case (OpAllyCode draws g)
  with assms(1) obtain c where c: "s_GetOrCreateAllyCode S draws g s = Some (s', c)" by auto
  show ?thesis
  proof (cases "v_code (view s) g")
    case None
    with create_code [OF c] assms(2) show ?thesis
      by (auto simp: inj_on_def ran_def dom_def)
  qed (use create_code [OF c] assms(2) in simp)
qed (use assms in \<open>auto simp: mutators\<close>)

lemma run_ops_codes:
  "run_ops S ops s = Some s' \<Longrightarrow> inj_on (v_code (view s)) (dom (v_code (view s))) \<Longrightarrow>
     inj_on (v_code (view s')) (dom (v_code (view s')))"
  by (induction ops arbitrary: s) (auto simp: bind_eq_Some_conv dest: apply_op_codes)

lemma code_kept:
  "apply_op S op s = Some s' \<Longrightarrow> v_code (view s) g = Some c \<Longrightarrow> v_code (view s') g = Some c"
  by (cases op) (auto simp: mutators dest!: create_code split: option.splits)

lemma run_ops_code_kept:
  "run_ops S ops s = Some s' \<Longrightarrow> v_code (view s) g = Some c \<Longrightarrow> v_code (view s') g = Some c"
  by (induction ops arbitrary: s) (auto simp: bind_eq_Some_conv dest: code_kept)

lemma ran_upd_subset: "ran (m(k := x)) \<subseteq> ran m \<union> set_option x"
  by (auto simp: ran_def)

lemma generated_nonempty: "generateAllyCode b \<noteq> []"
  by (simp add: generateAllyCode_block base32_block_def)

lemma apply_op_storable:
  assumes "apply_op S op s = Some s'" and "storable_op op" and "storable (view s)"
  shows "storable (view s')"
proof (cases op)
  case (OpAllyCode draws g)
  with assms(1) obtain c where c: "s_GetOrCreateAllyCode S draws g s = Some (s', c)" by auto
  show ?thesis
  proof (cases "v_code (view s) g")
    case None
    with create_code [OF c] assms(3) show ?thesis
      by (auto simp: storable_def dest!: subsetD [OF ran_upd_subset] generated_nonempty [THEN notE, OF sym])
  qed (use create_code [OF c] assms(3) in simp)
qed (use assms in \<open>auto simp: mutators storable_def dest!: subsetD [OF ran_upd_subset] split: if_splits\<close>)

lemma run_ops_storable:
  "run_ops S ops s = Some s' \<Longrightarrow> list_all storable_op ops \<Longrightarrow> storable (view s) \<Longrightarrow> storable (view s')"
  by (induction ops arbitrary: s) (auto simp: bind_eq_Some_conv dest: apply_op_storable)

end

section \<open>The in-memory store keeps the promises\<close>

definition view_of :: "'a InMemoryStore_scheme \<Rightarrow> bindings" where
  "view_of s = \<lparr>v_channel = map_of (channels s), v_role = map_of (roles s),
     v_code = map_of (relayCodes s), v_locale = map_of (locales s),
     v_disabled = fst ` set (disabled s)\<rparr>"

lemma snd_set_subset_ran: "ran (map_of xs) \<subseteq> snd ` set xs"
  by (auto simp: ran_def dest: map_of_SomeD intro: rev_image_eqI)

lemma fst_delete: "fst ` set (AList.delete k xs) = fst ` set xs - {k}"
  by (induction xs) auto

lemma fst_update: "fst ` set (AList.update k v xs) = insert k (fst ` set xs)"
  by (induction xs) auto

lemma update_single_valued:
  "distinct (map fst xs) \<Longrightarrow> distinct (map fst (AList.update k v xs))"
  by (simp add: distinct_update)

text \<open>The invariant of the association lists: a key occurs once.\<close>

definition keys_once :: "'a InMemoryStore_scheme \<Rightarrow> bool" where
  "keys_once s \<longleftrightarrow> distinct (map fst (channels s)) \<and> distinct (map fst (roles s)) \<and>
     distinct (map fst (relayCodes s)) \<and> distinct (map fst (locales s)) \<and>
     distinct (map fst (disabled s))"

lemma ran_map_of: "distinct (map fst xs) \<Longrightarrow> ran (map_of xs) = snd ` set xs"
  by (rule ran_distinct)

lemma GetOrCreateAllyCode_cases:
  assumes "GetOrCreateAllyCode draws g s = Some (s', c)"
  obtains "map_of (relayCodes s) g = Some c" "s' = s"
  | i where "map_of (relayCodes s) g = None" "uniqueAllyCode (relayCodes s) draws = Some c"
      "s' = s\<lparr>relayCodes := AList.update g c (relayCodes s)\<rparr>"
      "c \<notin> snd ` set (relayCodes s)" "c = generateAllyCode (draws i)"
  using assms draw_code_sound [of "map snd (relayCodes s)" draws 0 c]
  by (auto simp: GetOrCreateAllyCode_def uniqueAllyCode_def split: option.splits)

lemmas alist_simps = update_conv' delete_conv' fst_delete fst_update

interpretation mem: store_laws memory_store "view_of" "keys_once"
proof (unfold_locales, goal_cases)
  case (13 draws g s s' c)
  then have "GetOrCreateAllyCode draws g s = Some (s', c)" by (simp add: memory_store_def)
  then show ?case
    using snd_set_subset_ran [of "relayCodes s"]
    by (cases rule: GetOrCreateAllyCode_cases) (auto simp: view_of_def alist_simps)
next
  case (14 s draws k g)
  then have "generateAllyCode (draws k) \<notin> snd ` set (relayCodes s)"
    by (simp add: keys_once_def view_of_def ran_map_of)
  then have "uniqueAllyCode (relayCodes s) draws \<noteq> None" by (rule uniqueAllyCode_some)
  then show ?case by (auto simp: memory_store_def GetOrCreateAllyCode_def split: option.splits)
next
  case (15 s op s')
  then show ?case
    by (cases op)
      (auto simp: memory_store_def store_op_defs keys_once_def distinct_update distinct_delete
        elim!: GetOrCreateAllyCode_cases)
qed (auto simp: memory_store_def store_op_defs view_of_def alist_simps map_of_eq_None_iff)

text \<open>
  In the in-memory store no two guilds ever share an ally code, whatever operations run on
  a fresh store, and a code once handed out stays the guild's code.
\<close>

theorem memory_store_codes_unique:
  assumes "run_ops memory_store ops NewInMemoryStore = Some s"
    and "run_ops memory_store later s = Some s'"
    and "GetAllyCode g s = Some c" and "GetAllyCode g' s' = Some c"
  shows "g' = g \<and> GetAllyCode g s' = Some c"
proof -
  have "inj_on (v_code (view_of s')) (dom (v_code (view_of s')))"
    using mem.run_ops_codes [OF assms(2) mem.run_ops_codes [OF assms(1)]]
    by (simp add: view_of_def NewInMemoryStore_def)
  moreover have "v_code (view_of s') g = Some c"
    using mem.run_ops_code_kept [OF assms(2), of g c] assms(3) by (simp add: GetAllyCode_def view_of_def)
  ultimately show ?thesis
    using assms(4) by (auto simp: GetAllyCode_def view_of_def dest: inj_onD [where x = g' and y = g])
qed

lemma memory_store_codes_unique_witness:
  "GetAllyCode 1 NewInMemoryStore = None \<and>
   (let s = the (run_ops memory_store [OpAllyCode (\<lambda>n. [0, 0, 0, 0, word_of_nat n]) 1] NewInMemoryStore);
        s' = the (run_ops memory_store [OpUnbindLocale 1] s)
    in GetAllyCode 1 s' = Some (generateAllyCode [0, 0, 0, 0, 0]))"
proof -
  let ?draws = "\<lambda>n. [0, 0, 0, 0, word_of_nat n] :: 8 word list"
  let ?c = "generateAllyCode [0, 0, 0, 0, 0]"
  let ?s = "NewInMemoryStore\<lparr>relayCodes := [(1, ?c)]\<rparr>"
  have 1: "run_ops memory_store [OpAllyCode ?draws 1] NewInMemoryStore = Some ?s"
    by (simp add: memory_store_def NewInMemoryStore_def GetOrCreateAllyCode_def uniqueAllyCode_def
        draw_code.simps)
  have 2: "run_ops memory_store [OpUnbindLocale 1] ?s = Some ?s"
    by (simp add: memory_store_def NewInMemoryStore_def UnbindLocale_def)
  have "GetAllyCode 1 ?s = Some ?c" by (simp add: GetAllyCode_def)
  from memory_store_codes_unique [OF 1 2 this this] 1 2
  show ?thesis by (simp add: GetAllyCode_def NewInMemoryStore_def)
qed

end
