(* ===== verification/YamlStore.thy ===== *)
theory YamlStore
  imports Store "HOL-Library.Sublist"
begin

text \<open>
  The file-backed store: \<^verbatim>\<open>internal/store/yaml_store.go\<close>.

  \<^item> The bindings are those of the in-memory store; every mutation also signals the flush
    goroutine through a channel of capacity one (\<open>dirtyCh\<close>).
  \<^item> \<open>load_data\<close> and \<open>save_data\<close> are the two loops between the maps and the YAML document;
    the YAML library itself (\<^verbatim>\<open>gopkg.in/yaml.v3\<close>) is a pair of parameters.
  \<^item> \<open>write_file\<close> is the sequence of file operations of one save, with its error exits, and
    \<open>fs_step\<close> what a crash may leave of the two files.
  \<^item> \<open>flush_step\<close> is the flush goroutine with the mutating callers around it.
\<close>

section \<open>The document\<close>

record yamlChannelEntry =
  yc_UserID :: snowflake
  yc_ChannelID :: snowflake
  yc_Disabled :: bool

record yamlRoleEntry =
  yr_RoleType :: RoleType
  yr_RoleID :: snowflake

record yamlGuildEntry =
  yg_GuildID :: snowflake
  yg_AllyCode :: string
  yg_Locale :: string
  yg_Channels :: "yamlChannelEntry list"
  yg_Roles :: "yamlRoleEntry list"

record yamlData =
  Guilds :: "yamlGuildEntry list"

section \<open>The store\<close>

definition saveDebounce :: duration where "saveDebounce = 500 * Millisecond"

record YAMLStore = InMemoryStore +
  path :: string
  dirtyCh :: bool
  done_closed :: bool
  flushed_closed :: bool

definition empty_YAMLStore :: "string \<Rightarrow> YAMLStore" where
  "empty_YAMLStore p =
     \<lparr>channels = [], roles = [], relayCodes = [], locales = [], disabled = [],
      path = p, dirtyCh = False, done_closed = False, flushed_closed = False\<rparr>"

text \<open>A send on the full channel is dropped, so the channel is simply full afterwards.\<close>

definition markDirty :: "YAMLStore \<Rightarrow> YAMLStore" where
  "markDirty s = s\<lparr>dirtyCh := True\<rparr>"

definition Y_BindChannel :: "snowflake \<Rightarrow> snowflake \<Rightarrow> snowflake \<Rightarrow> YAMLStore \<Rightarrow> YAMLStore" where
  "Y_BindChannel g u ch s = markDirty (s\<lparr>channels := AList.update (bot_key u g) ch (channels s)\<rparr>)"

definition Y_UnbindChannel :: "snowflake \<Rightarrow> snowflake \<Rightarrow> YAMLStore \<Rightarrow> YAMLStore" where
  "Y_UnbindChannel g u s = markDirty (s\<lparr>channels := AList.delete (bot_key u g) (channels s)\<rparr>)"

definition Y_GetBoundChannel :: "snowflake \<Rightarrow> snowflake \<Rightarrow> YAMLStore \<Rightarrow> snowflake option" where
  "Y_GetBoundChannel g u s = map_of (channels s) (bot_key u g)"

definition Y_BindRole :: "snowflake \<Rightarrow> RoleType \<Rightarrow> snowflake \<Rightarrow> YAMLStore \<Rightarrow> YAMLStore" where
  "Y_BindRole g rt r s = markDirty (s\<lparr>roles := AList.update (role_key g rt) r (roles s)\<rparr>)"

definition Y_UnbindRole :: "snowflake \<Rightarrow> RoleType \<Rightarrow> YAMLStore \<Rightarrow> YAMLStore" where
  "Y_UnbindRole g rt s = markDirty (s\<lparr>roles := AList.delete (role_key g rt) (roles s)\<rparr>)"

definition Y_GetBoundRole :: "snowflake \<Rightarrow> RoleType \<Rightarrow> YAMLStore \<Rightarrow> snowflake option" where
  "Y_GetBoundRole g rt s = map_of (roles s) (role_key g rt)"

definition Y_GetOrCreateAllyCode ::
  "(nat \<Rightarrow> 8 word list) \<Rightarrow> snowflake \<Rightarrow> YAMLStore \<Rightarrow> (YAMLStore \<times> string) option" where
  "Y_GetOrCreateAllyCode draws g s =
     (case map_of (relayCodes s) g of
        Some code \<Rightarrow> Some (s, code)
      | None \<Rightarrow>
          (case uniqueAllyCode (relayCodes s) draws of
             None \<Rightarrow> None
           | Some code \<Rightarrow>
               Some (markDirty (s\<lparr>relayCodes := AList.update g code (relayCodes s)\<rparr>), code)))"

definition Y_GetAllyCode :: "snowflake \<Rightarrow> YAMLStore \<Rightarrow> string option" where
  "Y_GetAllyCode g s = map_of (relayCodes s) g"

definition Y_BindLocale :: "snowflake \<Rightarrow> string \<Rightarrow> YAMLStore \<Rightarrow> YAMLStore" where
  "Y_BindLocale g loc s = markDirty
     (if loc = [] then s\<lparr>locales := AList.delete g (locales s)\<rparr>
      else s\<lparr>locales := AList.update g loc (locales s)\<rparr>)"

definition Y_UnbindLocale :: "snowflake \<Rightarrow> YAMLStore \<Rightarrow> YAMLStore" where
  "Y_UnbindLocale g s = markDirty (s\<lparr>locales := AList.delete g (locales s)\<rparr>)"

definition Y_GetLocale :: "snowflake \<Rightarrow> YAMLStore \<Rightarrow> string option" where
  "Y_GetLocale g s = map_of (locales s) g"

definition Y_SetSpeakerEnabled :: "snowflake \<Rightarrow> snowflake \<Rightarrow> bool \<Rightarrow> YAMLStore \<Rightarrow> YAMLStore" where
  "Y_SetSpeakerEnabled g u enabled s = markDirty
     (if enabled then s\<lparr>disabled := AList.delete (bot_key u g) (disabled s)\<rparr>
      else s\<lparr>disabled := AList.update (bot_key u g) () (disabled s)\<rparr>)"

definition Y_IsSpeakerEnabled :: "snowflake \<Rightarrow> snowflake \<Rightarrow> YAMLStore \<Rightarrow> bool" where
  "Y_IsSpeakerEnabled g u s \<longleftrightarrow> map_of (disabled s) (bot_key u g) = None"

lemmas yaml_op_defs =
  Y_BindChannel_def Y_UnbindChannel_def Y_GetBoundChannel_def Y_BindRole_def Y_UnbindRole_def
  Y_GetBoundRole_def Y_GetAllyCode_def Y_BindLocale_def Y_UnbindLocale_def Y_GetLocale_def
  Y_SetSpeakerEnabled_def Y_IsSpeakerEnabled_def markDirty_def

definition yaml_store :: "YAMLStore Store" where
  "yaml_store =
     \<lparr>s_BindChannel = Y_BindChannel, s_UnbindChannel = Y_UnbindChannel,
      s_GetBoundChannel = Y_GetBoundChannel, s_BindRole = Y_BindRole, s_UnbindRole = Y_UnbindRole,
      s_GetBoundRole = Y_GetBoundRole, s_GetOrCreateAllyCode = Y_GetOrCreateAllyCode,
      s_GetAllyCode = Y_GetAllyCode, s_BindLocale = Y_BindLocale, s_UnbindLocale = Y_UnbindLocale,
      s_GetLocale = Y_GetLocale, s_SetSpeakerEnabled = Y_SetSpeakerEnabled,
      s_IsSpeakerEnabled = Y_IsSpeakerEnabled\<rparr>"

lemma Y_GetOrCreateAllyCode_memory:
  "Y_GetOrCreateAllyCode draws g s =
     map_option (\<lambda>(s', c). (if map_of (relayCodes s) g = None then markDirty s' else s', c))
       (GetOrCreateAllyCode draws g s)"
  by (simp add: Y_GetOrCreateAllyCode_def GetOrCreateAllyCode_def split: option.splits)

lemma Y_GetOrCreateAllyCode_cases:
  assumes "Y_GetOrCreateAllyCode draws g s = Some (s', c)"
  obtains "map_of (relayCodes s) g = Some c" "s' = s"
  | i where "map_of (relayCodes s) g = None" "uniqueAllyCode (relayCodes s) draws = Some c"
      "s' = markDirty (s\<lparr>relayCodes := AList.update g c (relayCodes s)\<rparr>)"
      "c \<notin> snd ` set (relayCodes s)" "c = generateAllyCode (draws i)"
proof -
  from assms obtain s0 where s0: "GetOrCreateAllyCode draws g s = Some (s0, c)"
    and s': "s' = (if map_of (relayCodes s) g = None then markDirty s0 else s0)"
    by (auto simp: Y_GetOrCreateAllyCode_memory split: if_splits)
  from s0 show ?thesis
    by (cases rule: GetOrCreateAllyCode_cases) (use s' that in auto)
qed

text \<open>The file-backed store keeps the promises of the interface.\<close>

interpretation yaml: store_laws yaml_store "view_of" "keys_once"
proof (unfold_locales, goal_cases)
  case (13 draws g s s' c)
  then have "Y_GetOrCreateAllyCode draws g s = Some (s', c)" by (simp add: yaml_store_def)
  then show ?case
    using snd_set_subset_ran [of "relayCodes s"]
    by (cases rule: Y_GetOrCreateAllyCode_cases) (auto simp: view_of_def alist_simps markDirty_def)
next
  case (14 s draws k g)
  then have "generateAllyCode (draws k) \<notin> snd ` set (relayCodes s)"
    by (simp add: keys_once_def view_of_def ran_map_of)
  then have "uniqueAllyCode (relayCodes s) draws \<noteq> None" by (rule uniqueAllyCode_some)
  then show ?case by (auto simp: yaml_store_def Y_GetOrCreateAllyCode_def split: option.splits)
next
  case (15 s op s')
  then show ?case
    by (cases op)
      (auto simp: yaml_store_def yaml_op_defs keys_once_def distinct_update distinct_delete
        elim!: Y_GetOrCreateAllyCode_cases)
qed (auto simp: yaml_store_def yaml_op_defs view_of_def alist_simps map_of_eq_None_iff)

section \<open>Reading the document\<close>

definition load_channel :: "snowflake \<Rightarrow> yamlChannelEntry \<Rightarrow> 'a InMemoryStore_scheme \<Rightarrow> 'a InMemoryStore_scheme" where
  "load_channel g c s =
     (let s1 = (if yc_ChannelID c \<noteq> 0
                then s\<lparr>channels := AList.update (bot_key (yc_UserID c) g) (yc_ChannelID c) (channels s)\<rparr>
                else s)
      in if yc_Disabled c
         then s1\<lparr>disabled := AList.update (bot_key (yc_UserID c) g) () (disabled s1)\<rparr>
         else s1)"

definition load_role :: "snowflake \<Rightarrow> yamlRoleEntry \<Rightarrow> 'a InMemoryStore_scheme \<Rightarrow> 'a InMemoryStore_scheme" where
  "load_role g r s = s\<lparr>roles := AList.update (role_key g (yr_RoleType r)) (yr_RoleID r) (roles s)\<rparr>"

definition load_guild :: "yamlGuildEntry \<Rightarrow> 'a InMemoryStore_scheme \<Rightarrow> 'a InMemoryStore_scheme" where
  "load_guild g s =
     (let guildID = yg_GuildID g;
          s1 = fold (load_channel guildID) (yg_Channels g) s;
          s2 = fold (load_role guildID) (yg_Roles g) s1;
          s3 = (if yg_AllyCode g \<noteq> []
                then s2\<lparr>relayCodes := AList.update guildID (yg_AllyCode g) (relayCodes s2)\<rparr> else s2)
      in if yg_Locale g \<noteq> []
         then s3\<lparr>locales := AList.update guildID (yg_Locale g) (locales s3)\<rparr> else s3)"

definition load_data :: "yamlData \<Rightarrow> 'a InMemoryStore_scheme \<Rightarrow> 'a InMemoryStore_scheme" where
  "load_data yd s = fold load_guild (Guilds yd) s"

text \<open>The result of \<^verbatim>\<open>os.ReadFile\<close>, and the whole of \<^verbatim>\<open>load\<close> and \<^verbatim>\<open>NewYAMLStore\<close>.\<close>

datatype ReadFile = NotExist | ReadFailed string | ReadOk string

definition load :: "(string \<Rightarrow> string + yamlData) \<Rightarrow> ReadFile \<Rightarrow> YAMLStore \<Rightarrow> string + YAMLStore" where
  "load unmarshal file s =
     (case file of
        NotExist \<Rightarrow> Inr s
      | ReadFailed err \<Rightarrow> Inl err
      | ReadOk bytes \<Rightarrow>
          (case unmarshal bytes of Inl err \<Rightarrow> Inl err | Inr yd \<Rightarrow> Inr (load_data yd s)))"

definition NewYAMLStore :: "(string \<Rightarrow> string + yamlData) \<Rightarrow> ReadFile \<Rightarrow> string \<Rightarrow> string + YAMLStore" where
  "NewYAMLStore unmarshal file p = load unmarshal file (empty_YAMLStore p)"

section \<open>Writing the document\<close>

type_synonym guildSet = "(snowflake \<times> yamlGuildEntry) list"

definition new_entry :: "snowflake \<Rightarrow> yamlGuildEntry" where
  "new_entry g = \<lparr>yg_GuildID = g, yg_AllyCode = [], yg_Locale = [], yg_Channels = [], yg_Roles = []\<rparr>"

definition ensureGuild :: "snowflake \<Rightarrow> guildSet \<Rightarrow> guildSet" where
  "ensureGuild g gs = (case map_of gs g of Some e \<Rightarrow> gs | None \<Rightarrow> AList.update g (new_entry g) gs)"

text \<open>\<^verbatim>\<open>g := ensureGuild(id)\<close> followed by an assignment through the pointer.\<close>

definition upd_guild :: "snowflake \<Rightarrow> (yamlGuildEntry \<Rightarrow> yamlGuildEntry) \<Rightarrow> guildSet \<Rightarrow> guildSet" where
  "upd_guild g f gs = AList.map_entry g f (ensureGuild g gs)"

definition save_channel :: "(botKey \<times> unit) list \<Rightarrow> botKey \<times> snowflake \<Rightarrow> guildSet \<Rightarrow> guildSet" where
  "save_channel dis kv = upd_guild (guildID (fst kv))
     (\<lambda>e. e\<lparr>yg_Channels := yg_Channels e @
        [\<lparr>yc_UserID = userID (fst kv), yc_ChannelID = snd kv,
          yc_Disabled = (map_of dis (fst kv) \<noteq> None)\<rparr>]\<rparr>)"

definition save_role :: "roleKey \<times> snowflake \<Rightarrow> guildSet \<Rightarrow> guildSet" where
  "save_role kv = upd_guild (rk_guildID (fst kv))
     (\<lambda>e. e\<lparr>yg_Roles := yg_Roles e @ [\<lparr>yr_RoleType = rk_roleType (fst kv), yr_RoleID = snd kv\<rparr>]\<rparr>)"

definition save_code :: "snowflake \<times> string \<Rightarrow> guildSet \<Rightarrow> guildSet" where
  "save_code kv = upd_guild (fst kv) (\<lambda>e. e\<lparr>yg_AllyCode := snd kv\<rparr>)"

definition save_locale :: "snowflake \<times> string \<Rightarrow> guildSet \<Rightarrow> guildSet" where
  "save_locale kv = upd_guild (fst kv) (\<lambda>e. e\<lparr>yg_Locale := snd kv\<rparr>)"

definition save_disabled :: "(botKey \<times> snowflake) list \<Rightarrow> botKey \<times> unit \<Rightarrow> guildSet \<Rightarrow> guildSet" where
  "save_disabled chs kv gs =
     (if map_of chs (fst kv) \<noteq> None then gs
      else upd_guild (guildID (fst kv))
        (\<lambda>e. e\<lparr>yg_Channels := yg_Channels e @
           [\<lparr>yc_UserID = userID (fst kv), yc_ChannelID = 0, yc_Disabled = True\<rparr>]\<rparr>) gs)"

definition guild_set :: "'a InMemoryStore_scheme \<Rightarrow> guildSet" where
  "guild_set s =
     fold (save_disabled (channels s)) (disabled s)
       (fold save_locale (locales s)
          (fold save_code (relayCodes s)
             (fold save_role (roles s)
                (fold (save_channel (disabled s)) (channels s) []))))"

definition save_data :: "'a InMemoryStore_scheme \<Rightarrow> yamlData" where
  "save_data s =
     (let gs = guild_set s; guildIDs = sort (map fst gs)
      in \<lparr>Guilds = map (\<lambda>i. the (map_of gs i)) guildIDs\<rparr>)"

section \<open>The document of a store\<close>

text \<open>Writing is one fold of updates, each of one guild.\<close>

definition updates_of :: "'a InMemoryStore_scheme \<Rightarrow> (snowflake \<times> (yamlGuildEntry \<Rightarrow> yamlGuildEntry)) list" where
  "updates_of s =
     map (\<lambda>kv. (guildID (fst kv), \<lambda>e. e\<lparr>yg_Channels := yg_Channels e @
        [\<lparr>yc_UserID = userID (fst kv), yc_ChannelID = snd kv,
          yc_Disabled = (map_of (disabled s) (fst kv) \<noteq> None)\<rparr>]\<rparr>)) (channels s) @
     map (\<lambda>kv. (rk_guildID (fst kv), \<lambda>e. e\<lparr>yg_Roles := yg_Roles e @
        [\<lparr>yr_RoleType = rk_roleType (fst kv), yr_RoleID = snd kv\<rparr>]\<rparr>)) (roles s) @
     map (\<lambda>kv. (fst kv, \<lambda>e. e\<lparr>yg_AllyCode := snd kv\<rparr>)) (relayCodes s) @
     map (\<lambda>kv. (fst kv, \<lambda>e. e\<lparr>yg_Locale := snd kv\<rparr>)) (locales s) @
     map (\<lambda>kv. (guildID (fst kv), \<lambda>e. e\<lparr>yg_Channels := yg_Channels e @
        [\<lparr>yc_UserID = userID (fst kv), yc_ChannelID = 0, yc_Disabled = True\<rparr>]\<rparr>))
       (filter (\<lambda>kv. map_of (channels s) (fst kv) = None) (disabled s))"

lemma fold_save_disabled:
  "fold (save_disabled chs) xs gs =
     fold (\<lambda>kv. upd_guild (guildID (fst kv)) (\<lambda>e. e\<lparr>yg_Channels := yg_Channels e @
           [\<lparr>yc_UserID = userID (fst kv), yc_ChannelID = 0, yc_Disabled = True\<rparr>]\<rparr>))
       (filter (\<lambda>kv. map_of chs (fst kv) = None) xs) gs"
  by (induction xs arbitrary: gs) (simp_all add: save_disabled_def)

lemma guild_set_updates: "guild_set s = fold (\<lambda>(g, f). upd_guild g f) (updates_of s) []"
  unfolding guild_set_def updates_of_def fold_save_disabled
  by (simp add: fold_map comp_def save_channel_def [abs_def] save_role_def [abs_def]
      save_code_def [abs_def] save_locale_def [abs_def])

lemma map_of_upd_guild:
  "map_of (upd_guild g f gs) i =
     (if i = g then Some (f (case map_of gs g of None \<Rightarrow> new_entry g | Some e \<Rightarrow> e)) else map_of gs i)"
  by (auto simp: upd_guild_def ensureGuild_def map_of_map_entry update_conv' split: option.splits)

lemma filter_other_key: "k \<notin> fst ` set xs \<Longrightarrow> filter (\<lambda>p. fst p = k) xs = []"
  by (auto simp: filter_empty_conv)

lemma map_of_guild_updates:
  "map_of (fold (\<lambda>(g, f). upd_guild g f) us gs) i =
     (if i \<in> fst ` set us
      then Some (fold snd (filter (\<lambda>u. fst u = i) us)
                  (case map_of gs i of None \<Rightarrow> new_entry i | Some e \<Rightarrow> e))
      else map_of gs i)"
proof (induction us arbitrary: gs)
  case (Cons u us)
  obtain h f where u: "u = (h, f)" by fastforce
  show ?case
    by (cases "h = i") (simp_all add: u Cons.IH map_of_upd_guild filter_other_key split: option.splits)
qed simp

lemma filter_key:
  "distinct (map fst xs) \<Longrightarrow>
     filter (\<lambda>p. fst p = k) xs = (case map_of xs k of None \<Rightarrow> [] | Some v \<Rightarrow> [(k, v)])"
proof (induction xs)
  case (Cons x xs)
  then show ?case
    by (cases x) (auto simp: filter_other_key)
qed simp

definition entry_of :: "'a InMemoryStore_scheme \<Rightarrow> snowflake \<Rightarrow> yamlGuildEntry" where
  "entry_of s g =
     \<lparr>yg_GuildID = g,
      yg_AllyCode = (case map_of (relayCodes s) g of None \<Rightarrow> [] | Some c \<Rightarrow> c),
      yg_Locale = (case map_of (locales s) g of None \<Rightarrow> [] | Some l \<Rightarrow> l),
      yg_Channels =
        map (\<lambda>kv. \<lparr>yc_UserID = userID (fst kv), yc_ChannelID = snd kv,
            yc_Disabled = (map_of (disabled s) (fst kv) \<noteq> None)\<rparr>)
          (filter (\<lambda>kv. guildID (fst kv) = g) (channels s)) @
        map (\<lambda>kv. \<lparr>yc_UserID = userID (fst kv), yc_ChannelID = 0, yc_Disabled = True\<rparr>)
          (filter (\<lambda>kv. guildID (fst kv) = g)
            (filter (\<lambda>kv. map_of (channels s) (fst kv) = None) (disabled s))),
      yg_Roles =
        map (\<lambda>kv. \<lparr>yr_RoleType = rk_roleType (fst kv), yr_RoleID = snd kv\<rparr>)
          (filter (\<lambda>kv. rk_guildID (fst kv) = g) (roles s))\<rparr>"

lemma fold_append_channels:
  "fold (\<lambda>x e. e\<lparr>yg_Channels := yg_Channels e @ [f x]\<rparr>) xs e =
     e\<lparr>yg_Channels := yg_Channels e @ map f xs\<rparr>"
  by (induction xs arbitrary: e) simp_all

lemma fold_append_roles:
  "fold (\<lambda>x e. e\<lparr>yg_Roles := yg_Roles e @ [f x]\<rparr>) xs e =
     e\<lparr>yg_Roles := yg_Roles e @ map f xs\<rparr>"
  by (induction xs arbitrary: e) simp_all

lemma map_of_guild_set:
  assumes "keys_once s"
  shows "map_of (guild_set s) g =
    (if g \<in> fst ` set (updates_of s) then Some (entry_of s g) else None)"
proof -
  from assms have d: "distinct (map fst (relayCodes s))" "distinct (map fst (locales s))"
    by (simp_all add: keys_once_def)
  have "fold snd (filter (\<lambda>u. fst u = g) (updates_of s)) (new_entry g) = entry_of s g"
    unfolding updates_of_def
    by (simp add: filter_map comp_def fold_map fold_append_channels fold_append_roles
        filter_key [OF d(1)] filter_key [OF d(2)] new_entry_def entry_of_def split: option.splits)
  then show ?thesis by (simp add: guild_set_updates map_of_guild_updates)
qed

section \<open>Reading back what was written\<close>

definition upd_all :: "('k \<times> 'v) list \<Rightarrow> ('k \<times> 'v) list \<Rightarrow> ('k \<times> 'v) list" where
  "upd_all us al = fold (\<lambda>(k, v). AList.update k v) us al"

lemma upd_all_simps [simp]:
  "upd_all [] al = al"
  "upd_all (u # us) al = upd_all us (AList.update (fst u) (snd u) al)"
  "upd_all (us @ vs) al = upd_all vs (upd_all us al)"
  by (simp_all add: upd_all_def split_def)

lemma map_of_upd_all: "map_of (upd_all us al) = map_of al ++ map_of (rev us)"
  by (induction us arbitrary: al) (auto simp: update_conv' split_def)

lemma distinct_upd_all: "distinct (map fst al) \<Longrightarrow> distinct (map fst (upd_all us al))"
  by (induction us arbitrary: al) (auto simp: distinct_update)

lemma fst_upd_all: "fst ` set (upd_all us al) = fst ` set us \<union> fst ` set al"
  by (induction us arbitrary: al) (auto simp: fst_update)

definition chan_updates :: "snowflake \<Rightarrow> yamlChannelEntry list \<Rightarrow> (botKey \<times> snowflake) list" where
  "chan_updates g cs =
     map (\<lambda>c. (bot_key (yc_UserID c) g, yc_ChannelID c)) (filter (\<lambda>c. yc_ChannelID c \<noteq> 0) cs)"

definition disabled_updates :: "snowflake \<Rightarrow> yamlChannelEntry list \<Rightarrow> (botKey \<times> unit) list" where
  "disabled_updates g cs = map (\<lambda>c. (bot_key (yc_UserID c) g, ())) (filter yc_Disabled cs)"

definition role_updates :: "snowflake \<Rightarrow> yamlRoleEntry list \<Rightarrow> (roleKey \<times> snowflake) list" where
  "role_updates g rs = map (\<lambda>r. (role_key g (yr_RoleType r), yr_RoleID r)) rs"

definition text_update :: "snowflake \<Rightarrow> string \<Rightarrow> (snowflake \<times> string) list" where
  "text_update g t = (if t = [] then [] else [(g, t)])"

lemma load_channels:
  "fold (load_channel g) cs s =
     s\<lparr>channels := upd_all (chan_updates g cs) (channels s),
       disabled := upd_all (disabled_updates g cs) (disabled s)\<rparr>"
  by (induction cs arbitrary: s) (auto simp: load_channel_def Let_def chan_updates_def disabled_updates_def)

lemma load_roles:
  "fold (load_role g) rs s = s\<lparr>roles := upd_all (role_updates g rs) (roles s)\<rparr>"
  by (induction rs arbitrary: s) (simp_all add: load_role_def role_updates_def)

lemma load_guild_updates:
  "load_guild g s =
     s\<lparr>channels := upd_all (chan_updates (yg_GuildID g) (yg_Channels g)) (channels s),
       roles := upd_all (role_updates (yg_GuildID g) (yg_Roles g)) (roles s),
       relayCodes := upd_all (text_update (yg_GuildID g) (yg_AllyCode g)) (relayCodes s),
       locales := upd_all (text_update (yg_GuildID g) (yg_Locale g)) (locales s),
       disabled := upd_all (disabled_updates (yg_GuildID g) (yg_Channels g)) (disabled s)\<rparr>"
  by (simp add: load_guild_def Let_def load_channels load_roles text_update_def)

text \<open>Reading is one bulk update of each map.\<close>

lemma load_data_updates:
  "load_data yd s =
     s\<lparr>channels := upd_all (concat (map (\<lambda>g. chan_updates (yg_GuildID g) (yg_Channels g)) (Guilds yd))) (channels s),
       roles := upd_all (concat (map (\<lambda>g. role_updates (yg_GuildID g) (yg_Roles g)) (Guilds yd))) (roles s),
       relayCodes := upd_all (concat (map (\<lambda>g. text_update (yg_GuildID g) (yg_AllyCode g)) (Guilds yd))) (relayCodes s),
       locales := upd_all (concat (map (\<lambda>g. text_update (yg_GuildID g) (yg_Locale g)) (Guilds yd))) (locales s),
       disabled := upd_all (concat (map (\<lambda>g. disabled_updates (yg_GuildID g) (yg_Channels g)) (Guilds yd))) (disabled s)\<rparr>"
proof -
  have "fold load_guild gs s =
     s\<lparr>channels := upd_all (concat (map (\<lambda>g. chan_updates (yg_GuildID g) (yg_Channels g)) gs)) (channels s),
       roles := upd_all (concat (map (\<lambda>g. role_updates (yg_GuildID g) (yg_Roles g)) gs)) (roles s),
       relayCodes := upd_all (concat (map (\<lambda>g. text_update (yg_GuildID g) (yg_AllyCode g)) gs)) (relayCodes s),
       locales := upd_all (concat (map (\<lambda>g. text_update (yg_GuildID g) (yg_Locale g)) gs)) (locales s),
       disabled := upd_all (concat (map (\<lambda>g. disabled_updates (yg_GuildID g) (yg_Channels g)) gs)) (disabled s)\<rparr>" for gs
    by (induction gs arbitrary: s) (simp_all add: load_guild_updates)
  then show ?thesis by (simp add: load_data_def)
qed

lemma map_of_same_set:
  assumes "set xs = set ys" and "distinct (map fst ys)"
  shows "map_of xs = map_of ys"
proof
  fix k
  show "map_of xs k = map_of ys k"
  proof (cases "map_of xs k")
    case None
    then have "map_of ys k = None" using assms(1) by (simp add: map_of_eq_None_iff)
    with None show ?thesis by simp
  next
    case (Some v)
    then have "(k, v) \<in> set ys" using assms(1) by (auto dest: map_of_SomeD)
    with assms(2) Some show ?thesis by simp
  qed
qed

lemma storable_pairs:
  assumes "keys_once s"
  shows "storable (view_of s) \<longleftrightarrow> 0 \<notin> snd ` set (channels s) \<and> [] \<notin> snd ` set (relayCodes s)
    \<and> [] \<notin> snd ` set (locales s)"
  using assms by (simp add: storable_def view_of_def keys_once_def ran_map_of)

definition saved_ids :: "'a InMemoryStore_scheme \<Rightarrow> snowflake set" where
  "saved_ids s = fst ` set (updates_of s)"

lemma saved_guilds:
  assumes "keys_once s"
  shows "set (Guilds (save_data s)) = entry_of s ` saved_ids s"
proof -
  have "fst ` set (guild_set s) = dom (map_of (guild_set s))" by (simp add: dom_map_of_conv_image_fst)
  also have "\<dots> = saved_ids s"
    by (auto simp: map_of_guild_set [OF assms] dom_def saved_ids_def)
  finally show ?thesis
    by (force simp: save_data_def Let_def map_of_guild_set [OF assms] saved_ids_def)
qed

lemma fst_imageI: "(k, v) \<in> A \<Longrightarrow> f k \<in> (\<lambda>x. f (fst x)) ` A"
  by (rule rev_image_eqI) auto

lemma guild_in_updates:
  "(k, v) \<in> set (channels s) \<Longrightarrow> guildID k \<in> saved_ids s"
  "(r, v) \<in> set (roles s) \<Longrightarrow> rk_guildID r \<in> saved_ids s"
  "(g, c) \<in> set (relayCodes s) \<Longrightarrow> g \<in> saved_ids s"
  "(g, c) \<in> set (locales s) \<Longrightarrow> g \<in> saved_ids s"
  "(k, u) \<in> set (disabled s) \<Longrightarrow> map_of (channels s) k = None \<Longrightarrow>
     guildID k \<in> saved_ids s"
  using fst_imageI [of k v "set (channels s)" guildID] fst_imageI [of r v "set (roles s)" rk_guildID]
    fst_imageI [of g c "set (relayCodes s)" "\<lambda>x. x"] fst_imageI [of g c "set (locales s)" "\<lambda>x. x"]
    fst_imageI [of k u "{kv \<in> set (disabled s). map_of (channels s) (fst kv) = None}" guildID]
  by (simp_all add: saved_ids_def updates_of_def image_Un image_image)

lemma keys_eta [simp]:
  "bot_key (userID k) (guildID k) = k" "role_key (rk_guildID r) (rk_roleType r) = r"
  by simp_all

lemma rekey_guild:
  "map (\<lambda>x. (bot_key (userID (fst x)) g, h x)) (filter P (filter (\<lambda>kv. guildID (fst kv) = g) xs)) =
     map (\<lambda>x. (fst x, h x)) (filter (\<lambda>kv. guildID (fst kv) = g \<and> P kv) xs)"
  by (induction xs) auto

lemma rekey_role:
  "map (\<lambda>x. (role_key g (rk_roleType (fst x)), snd x)) (filter (\<lambda>kv. rk_guildID (fst kv) = g) xs) =
     filter (\<lambda>kv. rk_guildID (fst kv) = g) xs"
  by (induction xs) auto

lemma entry_channels:
  "chan_updates g (yg_Channels (entry_of s g)) =
     filter (\<lambda>kv. guildID (fst kv) = g \<and> snd kv \<noteq> 0) (channels s)"
  using rekey_guild [of g snd "\<lambda>x. snd x \<noteq> 0" "channels s"]
  by (simp add: chan_updates_def entry_of_def filter_map comp_def del: filter_filter)

lemma entry_roles:
  "role_updates g (yg_Roles (entry_of s g)) = filter (\<lambda>kv. rk_guildID (fst kv) = g) (roles s)"
  by (simp add: role_updates_def entry_of_def comp_def rekey_role)

lemma fst_image_Collect: "fst ` {x \<in> A. P (fst x)} = {k \<in> fst ` A. P k}"
  by auto

lemma entry_disabled:
  "fst ` set (disabled_updates g (yg_Channels (entry_of s g))) =
     {k \<in> fst ` set (disabled s). guildID k = g}"
proof -
  have "disabled_updates g (yg_Channels (entry_of s g)) =
      map (\<lambda>x. (fst x, ())) (filter (\<lambda>kv. guildID (fst kv) = g \<and> map_of (disabled s) (fst kv) \<noteq> None) (channels s)) @
      map (\<lambda>x. (fst x, ())) (filter (\<lambda>kv. guildID (fst kv) = g \<and> map_of (channels s) (fst kv) = None) (disabled s))"
    using rekey_guild [of g "\<lambda>_. ()" "\<lambda>x. map_of (disabled s) (fst x) \<noteq> None" "channels s"]
      rekey_guild [of g "\<lambda>_. ()" "\<lambda>_. True" "filter (\<lambda>kv. map_of (channels s) (fst kv) = None) (disabled s)"]
    by (simp add: disabled_updates_def entry_of_def filter_map comp_def conj_commute)
  then have "fst ` set (disabled_updates g (yg_Channels (entry_of s g))) =
      {k \<in> fst ` set (channels s). guildID k = g \<and> map_of (disabled s) k \<noteq> None} \<union>
      {k \<in> fst ` set (disabled s). guildID k = g \<and> map_of (channels s) k = None}"
    using fst_image_Collect [of "set (channels s)" "\<lambda>k. guildID k = g \<and> map_of (disabled s) k \<noteq> None"]
      fst_image_Collect [of "set (disabled s)" "\<lambda>k. guildID k = g \<and> map_of (channels s) k = None"]
    by (simp add: image_Un image_image)
  then show ?thesis
    unfolding dom_map_of_conv_image_fst [symmetric] by auto
qed

lemma text_pairs:
  assumes "distinct (map fst xs)" and "[] \<notin> snd ` set xs" and "fst ` set xs \<subseteq> I"
  shows "(\<Union>g \<in> I. set (text_update g (case map_of xs g of None \<Rightarrow> [] | Some c \<Rightarrow> c))) = set xs"
proof -
  have "set (text_update g (case map_of xs g of None \<Rightarrow> [] | Some c \<Rightarrow> c)) = {p \<in> set xs. fst p = g}" for g
  proof (cases "map_of xs g")
    case None
    then have "g \<notin> fst ` set xs" by (simp add: map_of_eq_None_iff)
    with None show ?thesis by (force simp: text_update_def)
  next
    case (Some c)
    then have "(g, c) \<in> set xs" by (rule map_of_SomeD)
    then have "c \<noteq> []" "{p \<in> set xs. fst p = g} = {(g, c)}"
      using assms(1,2) by (force, auto dest: eq_key_imp_eq_value)
    with Some show ?thesis by (simp add: text_update_def)
  qed
  with assms(3) show ?thesis by auto
qed

lemma entry_guild [simp]: "yg_GuildID (entry_of s g) = g"
  by (simp add: entry_of_def)

text \<open>The pairs a reader finds in the document are exactly the pairs of the maps.\<close>

lemma saved_pairs:
  assumes once: "keys_once s" and st: "storable (view_of s)"
  shows "set (concat (map (\<lambda>g. chan_updates (yg_GuildID g) (yg_Channels g)) (Guilds (save_data s)))) = set (channels s)"
    and "set (concat (map (\<lambda>g. role_updates (yg_GuildID g) (yg_Roles g)) (Guilds (save_data s)))) = set (roles s)"
    and "set (concat (map (\<lambda>g. text_update (yg_GuildID g) (yg_AllyCode g)) (Guilds (save_data s)))) = set (relayCodes s)"
    and "set (concat (map (\<lambda>g. text_update (yg_GuildID g) (yg_Locale g)) (Guilds (save_data s)))) = set (locales s)"
    and "fst ` set (concat (map (\<lambda>g. disabled_updates (yg_GuildID g) (yg_Channels g)) (Guilds (save_data s)))) = fst ` set (disabled s)"
proof -
  note saved = saved_guilds [OF once]
  have nz: "(k, v) \<in> set (channels s) \<Longrightarrow> v \<noteq> 0" for k v
    using st by (force simp: storable_pairs [OF once])
  show "set (concat (map (\<lambda>g. chan_updates (yg_GuildID g) (yg_Channels g)) (Guilds (save_data s)))) = set (channels s)"
    using guild_in_updates(1) [of _ _ s] nz by (auto simp: saved entry_channels)
  show "set (concat (map (\<lambda>g. role_updates (yg_GuildID g) (yg_Roles g)) (Guilds (save_data s)))) = set (roles s)"
    using guild_in_updates(2) [of _ _ s] by (auto simp: saved entry_roles)
  have texts: "yg_AllyCode (entry_of s g) = (case map_of (relayCodes s) g of None \<Rightarrow> [] | Some c \<Rightarrow> c)"
    "yg_Locale (entry_of s g) = (case map_of (locales s) g of None \<Rightarrow> [] | Some c \<Rightarrow> c)" for g
    by (simp_all add: entry_of_def)
  have ids: "fst ` set (relayCodes s) \<subseteq> saved_ids s" "fst ` set (locales s) \<subseteq> saved_ids s"
    using guild_in_updates(3,4) [of _ _ s] by auto
  show "set (concat (map (\<lambda>g. text_update (yg_GuildID g) (yg_AllyCode g)) (Guilds (save_data s)))) = set (relayCodes s)"
    using text_pairs [OF _ _ ids(1)] once st by (simp add: saved texts keys_once_def storable_pairs [OF once])
  show "set (concat (map (\<lambda>g. text_update (yg_GuildID g) (yg_Locale g)) (Guilds (save_data s)))) = set (locales s)"
    using text_pairs [OF _ _ ids(2)] once st by (simp add: saved texts keys_once_def storable_pairs [OF once])
  show "fst ` set (concat (map (\<lambda>g. disabled_updates (yg_GuildID g) (yg_Channels g)) (Guilds (save_data s)))) = fst ` set (disabled s)"
  proof -
    have "guildID k \<in> saved_ids s" if "k \<in> fst ` set (disabled s)" for k
    proof (cases "map_of (channels s) k")
      case None
      then show ?thesis using that guild_in_updates(5) [of k _ s] by auto
    next
      case (Some c)
      then show ?thesis using guild_in_updates(1) [of k c s] by (auto dest: map_of_SomeD)
    qed
    then show ?thesis
      by (auto simp: saved image_UN entry_disabled)
  qed
qed

section \<open>The round trip\<close>

definition blank :: "'a InMemoryStore_scheme \<Rightarrow> bool" where
  "blank s \<longleftrightarrow> channels s = [] \<and> roles s = [] \<and> relayCodes s = [] \<and> locales s = [] \<and> disabled s = []"

lemma upd_all_same: "set us = set ys \<Longrightarrow> distinct (map fst ys) \<Longrightarrow> map_of (upd_all us []) = map_of ys"
  using map_of_same_set [of "rev us" ys] by (simp add: map_of_upd_all)

lemma load_data_view:
  assumes "blank s0"
  shows "view_of (load_data yd s0) =
    \<lparr>v_channel = map_of (upd_all (concat (map (\<lambda>g. chan_updates (yg_GuildID g) (yg_Channels g)) (Guilds yd))) []),
     v_role = map_of (upd_all (concat (map (\<lambda>g. role_updates (yg_GuildID g) (yg_Roles g)) (Guilds yd))) []),
     v_code = map_of (upd_all (concat (map (\<lambda>g. text_update (yg_GuildID g) (yg_AllyCode g)) (Guilds yd))) []),
     v_locale = map_of (upd_all (concat (map (\<lambda>g. text_update (yg_GuildID g) (yg_Locale g)) (Guilds yd))) []),
     v_disabled = fst ` set (upd_all (concat (map (\<lambda>g. disabled_updates (yg_GuildID g) (yg_Channels g)) (Guilds yd))) [])\<rparr>"
  using assms by (simp add: view_of_def load_data_updates blank_def)

lemma load_saved:
  assumes once: "keys_once s" and st: "storable (view_of s)" and s0: "blank s0"
  shows "view_of (load_data (save_data s) s0) = view_of s"
proof -
  have d: "distinct (map fst (channels s))" "distinct (map fst (roles s))"
    "distinct (map fst (relayCodes s))" "distinct (map fst (locales s))"
    using once by (simp_all add: keys_once_def)
  note same = upd_all_same [OF saved_pairs(1) [OF once st] d(1)] upd_all_same [OF saved_pairs(2) [OF once st] d(2)]
    upd_all_same [OF saved_pairs(3) [OF once st] d(3)] upd_all_same [OF saved_pairs(4) [OF once st] d(4)]
  have dis: "fst ` set (upd_all (concat (map (\<lambda>g. disabled_updates (yg_GuildID g) (yg_Channels g))
      (Guilds (save_data s)))) []) = fst ` set (disabled s)"
    by (simp only: fst_upd_all saved_pairs(5) [OF once st]) simp
  show ?thesis
    by (simp only: load_data_view [OF s0] same dis) (simp add: view_of_def)
qed

lemma load_data_wf:
  assumes "blank s0"
  shows "keys_once (load_data yd s0)" and "storable (view_of (load_data yd s0))"
proof -
  show once: "keys_once (load_data yd s0)"
    using assms by (simp add: keys_once_def load_data_updates blank_def distinct_upd_all)
  have "snd ` set (upd_all us []) \<subseteq> snd ` set us" for us :: "('k \<times> 'v) list"
  proof -
    have "(k, v) \<in> set (upd_all us []) \<Longrightarrow> (k, v) \<in> set us" for k v
    proof -
      assume "(k, v) \<in> set (upd_all us [])"
      then have "map_of (upd_all us []) k = Some v"
        using distinct_upd_all [of "[]" us] by simp
      then show "(k, v) \<in> set us" by (auto simp: map_of_upd_all dest: map_of_SomeD)
    qed
    then show ?thesis by force
  qed
  note sub = subsetD [OF this]
  show "storable (view_of (load_data yd s0))"
    unfolding storable_pairs [OF once]
    using assms by (auto simp: load_data_updates blank_def chan_updates_def text_update_def
        dest!: sub split: if_splits)
qed

text \<open>
  C23. Saving and reopening loses nothing: if the YAML library reads back the documents it
  writes, then opening the file a save wrote gives a store with the same channel and role
  bindings, ally codes, locales and disabled speakers, whatever the order in which Go ranged
  over the maps (no speaker is bound to channel 0, no code or locale is empty).
\<close>

theorem reopen_gives_same_bindings:
  assumes "unmarshal (marshal (save_data s)) = Inr (save_data s)"
    and "keys_once s" and "storable (view_of s)"
  shows "\<exists>s'. NewYAMLStore unmarshal (ReadOk (marshal (save_data s))) p = Inr s' \<and>
    view_of s' = view_of s \<and> keys_once s'"
  using assms load_saved [OF assms(2,3), of "empty_YAMLStore p"]
    load_data_wf(1) [of "empty_YAMLStore p" "save_data s"]
  by (simp add: NewYAMLStore_def load_def blank_def empty_YAMLStore_def)

text \<open>Two guilds, one speaker disabled without a channel.\<close>

definition sample_store :: YAMLStore where
  "sample_store = (empty_YAMLStore ''store.yaml'')
     \<lparr>channels := [(bot_key 7 2, 70), (bot_key 8 1, 80)], roles := [(role_key 1 RoleTypeCaller, 9)],
      relayCodes := [(2, ''ABCDEFGH'')], locales := [(1, ''ru'')],
      disabled := [(bot_key 6 1, ()), (bot_key 7 2, ())]\<rparr>"

lemma reopen_gives_same_bindings_witness:
  "\<exists>s'. NewYAMLStore (\<lambda>_. Inr (save_data sample_store)) (ReadOk ''doc'') ''store.yaml'' = Inr s' \<and>
     view_of s' = view_of sample_store \<and> keys_once s'"
  using reopen_gives_same_bindings [of "\<lambda>_. Inr (save_data sample_store)" "\<lambda>_. ''doc''" sample_store]
  by (simp add: storable_pairs keys_once_def sample_store_def empty_YAMLStore_def)

section \<open>The atomic write\<close>

text \<open>
  The calls \<^verbatim>\<open>save\<close> makes after marshalling, on the temporary file, the target and the
  directory.  \<open>fails\<close> tells which calls return an error; the result is the list of calls made
  and the error returned, if any.
\<close>

datatype FsCall =
  CreateTemp | WriteTemp | SyncTemp | CloseTemp | RemoveTemp | RenameTemp | OpenDir | DirSync | CloseDir

definition syncDir :: "(FsCall \<Rightarrow> bool) \<Rightarrow> FsCall list \<times> bool" where
  "syncDir fails =
     (if fails OpenDir then ([OpenDir], False)
      else if fails DirSync then ([OpenDir, DirSync, CloseDir], False)
      else ([OpenDir, DirSync, CloseDir], \<not> fails CloseDir))"

definition write_file :: "(FsCall \<Rightarrow> bool) \<Rightarrow> FsCall list \<times> bool" where
  "write_file fails =
     (if fails CreateTemp then ([CreateTemp], False)
      else if fails WriteTemp then ([CreateTemp, WriteTemp, CloseTemp, RemoveTemp], False)
      else if fails SyncTemp then ([CreateTemp, WriteTemp, SyncTemp, CloseTemp, RemoveTemp], False)
      else if fails CloseTemp then ([CreateTemp, WriteTemp, SyncTemp, CloseTemp, RemoveTemp], False)
      else if fails RenameTemp
        then ([CreateTemp, WriteTemp, SyncTemp, CloseTemp, RenameTemp, RemoveTemp], False)
      else let (calls, ok) = syncDir fails
           in ([CreateTemp, WriteTemp, SyncTemp, CloseTemp, RenameTemp] @ calls, ok))"

definition save :: "(yamlData \<Rightarrow> string + string) \<Rightarrow> (FsCall \<Rightarrow> bool) \<Rightarrow> 'a InMemoryStore_scheme \<Rightarrow>
    string option \<times> FsCall list \<times> bool" where
  "save marshal fails s =
     (case marshal (save_data s) of
        Inl err \<Rightarrow> (None, [], False)
      | Inr out \<Rightarrow> (Some out, write_file fails))"

text \<open>
  What a crash may leave.  \<open>ct_temp\<close> and \<open>ct_target\<close> hold the contents the two files can have
  after a crash now: a written but unsynced file may hold any prefix of the data, and an
  unsynced rename may or may not have happened.
\<close>

record crash_state =
  ct_temp :: "string list"
  ct_target :: "string list"

definition fs_step :: "string \<Rightarrow> (FsCall \<Rightarrow> bool) \<Rightarrow> FsCall \<Rightarrow> crash_state \<Rightarrow> crash_state" where
  "fs_step out fails c st =
     (case c of
        CreateTemp \<Rightarrow> if fails c then st else st\<lparr>ct_temp := [[]]\<rparr>
      | WriteTemp \<Rightarrow> st\<lparr>ct_temp := prefixes out\<rparr>
      | SyncTemp \<Rightarrow> if fails c then st else st\<lparr>ct_temp := [out]\<rparr>
      | RenameTemp \<Rightarrow> if fails c then st else st\<lparr>ct_target := ct_target st @ ct_temp st\<rparr>
      | DirSync \<Rightarrow> if fails c then st else st\<lparr>ct_target := ct_temp st\<rparr>
      | _ \<Rightarrow> st)"

definition after_calls :: "string \<Rightarrow> string \<Rightarrow> (FsCall \<Rightarrow> bool) \<Rightarrow> FsCall list \<Rightarrow> crash_state" where
  "after_calls old out fails cs = fold (fs_step out fails) cs \<lparr>ct_temp = [], ct_target = [old]\<rparr>"

text \<open>
  A save is atomic and durable: whichever calls fail and wherever the machine stops, the
  store file holds the complete old or the complete new document; when \<^verbatim>\<open>save\<close> returns
  without an error it can only be the new one, and when it fails before the rename it is the
  old one.
\<close>

theorem save_is_atomic:
  "let (cs, ok) = write_file fails
   in list_all (\<lambda>done. set (ct_target (after_calls old out fails done)) \<subseteq> {old, out}) (prefixes cs)
    \<and> (if ok then ct_target (after_calls old out fails cs) = [out]
       else RenameTemp \<in> set cs \<or> ct_target (after_calls old out fails cs) = [old])"
  by (simp add: write_file_def syncDir_def after_calls_def fs_step_def)

section \<open>The flush goroutine\<close>

text \<open>
  The goroutine and its callers: the store, the document the file decodes to, whether the
  debounce timer is armed, and whether a save has failed since the last one that succeeded.
\<close>

record flusher =
  f_store :: YAMLStore
  f_file :: yamlData
  f_timer :: bool
  f_failed :: bool

text \<open>A save that fails may already have replaced the file (\<open>wrote\<close>).\<close>

definition flush_save :: "bool \<Rightarrow> bool \<Rightarrow> flusher \<Rightarrow> flusher" where
  "flush_save ok wrote f =
     (if ok then f\<lparr>f_file := save_data (f_store f), f_failed := False\<rparr>
      else f\<lparr>f_file := (if wrote then save_data (f_store f) else f_file f), f_failed := True\<rparr>)"

inductive flush_step :: "flusher \<Rightarrow> flusher \<Rightarrow> bool" where
  mutate: "\<not> flushed_closed (f_store f) \<Longrightarrow> storable_op op \<Longrightarrow> apply_op yaml_store op (f_store f) = Some s' \<Longrightarrow>
    flush_step f (f\<lparr>f_store := s'\<rparr>)"
| close: "flush_step f (f\<lparr>f_store := (f_store f)\<lparr>done_closed := True\<rparr>\<rparr>)"
| on_done: "done_closed (f_store f) \<Longrightarrow> \<not> flushed_closed (f_store f) \<Longrightarrow>
    flush_step f ((flush_save ok wrote f)\<lparr>f_store := (f_store f)\<lparr>flushed_closed := True\<rparr>\<rparr>)"
| on_dirty: "dirtyCh (f_store f) \<Longrightarrow> \<not> flushed_closed (f_store f) \<Longrightarrow>
    flush_step f (f\<lparr>f_store := (f_store f)\<lparr>dirtyCh := False\<rparr>, f_timer := True\<rparr>)"
| on_timer: "f_timer f \<Longrightarrow> \<not> flushed_closed (f_store f) \<Longrightarrow>
    flush_step f ((flush_save ok wrote f)\<lparr>f_timer := False\<rparr>)"

inductive_cases flush_stepE: "flush_step f f'"

text \<open>Reopening the file now gives the bindings in memory.\<close>

definition file_current :: "flusher \<Rightarrow> bool" where
  "file_current f \<longleftrightarrow>
     view_of (load_data (f_file f) (empty_YAMLStore (path (f_store f)))) = view_of (f_store f)"

definition flush_inv :: "flusher \<Rightarrow> bool" where
  "flush_inv f \<longleftrightarrow> keys_once (f_store f) \<and> storable (view_of (f_store f)) \<and>
     (file_current f \<or> f_failed f \<or>
       (\<not> flushed_closed (f_store f) \<and> (dirtyCh (f_store f) \<or> f_timer f \<or> done_closed (f_store f))))"

lemma flush_save_current:
  "keys_once (f_store f) \<Longrightarrow> storable (view_of (f_store f)) \<Longrightarrow>
     file_current (flush_save ok wrote f) \<or> f_failed (flush_save ok wrote f)"
  by (simp add: flush_save_def file_current_def load_saved blank_def empty_YAMLStore_def)

lemma view_of_extended [simp]:
  "view_of (s\<lparr>dirtyCh := b\<rparr>) = view_of s" "view_of (s\<lparr>done_closed := b\<rparr>) = view_of s"
  "view_of (s\<lparr>flushed_closed := b\<rparr>) = view_of s"
  "keys_once (s\<lparr>dirtyCh := b\<rparr>) = keys_once s" "keys_once (s\<lparr>done_closed := b\<rparr>) = keys_once s"
  "keys_once (s\<lparr>flushed_closed := b\<rparr>) = keys_once s"
  by (simp_all add: view_of_def keys_once_def)

text \<open>A mutation either leaves the bindings alone or signals the goroutine.\<close>

lemma mutation_signals:
  assumes "apply_op yaml_store op s = Some s'"
  shows "(s' = s \<or> dirtyCh s') \<and> flushed_closed s' = flushed_closed s \<and> path s' = path s"
  using assms
  by (cases op) (auto simp: yaml_store_def yaml_op_defs elim!: Y_GetOrCreateAllyCode_cases split: if_splits)

lemma flush_save_simps [simp]:
  "f_store (flush_save ok wrote f) = f_store f" "f_timer (flush_save ok wrote f) = f_timer f"
  by (simp_all add: flush_save_def)

lemma file_current_simps [simp]:
  "file_current (f\<lparr>f_store := (f_store f)\<lparr>dirtyCh := b\<rparr>\<rparr>) = file_current f"
  "file_current (f\<lparr>f_store := (f_store f)\<lparr>done_closed := b\<rparr>\<rparr>) = file_current f"
  "file_current (f\<lparr>f_store := (f_store f)\<lparr>flushed_closed := b\<rparr>\<rparr>) = file_current f"
  "file_current (f\<lparr>f_timer := b\<rparr>) = file_current f"
  by (simp_all add: file_current_def)

lemma flush_step_inv:
  assumes "flush_step f f'" and "flush_inv f"
  shows "flush_inv f'"
  using assms(1)
proof (cases rule: flush_step.cases)
  case (mutate op s')
  have "keys_once s'" "storable (view_of s')"
    using yaml.wf_kept [OF _ mutate(4)] yaml.apply_op_storable [OF mutate(4,3)] assms(2)
    by (simp_all add: flush_inv_def)
  with mutation_signals [OF mutate(4)] mutate(1,2) assms(2) show ?thesis
    by (auto simp: flush_inv_def file_current_def)
next
  case close
  with assms(2) show ?thesis by (auto simp: flush_inv_def)
next
  case (on_done ok wrote)
  have "file_current (flush_save ok wrote f) \<or> f_failed (flush_save ok wrote f)"
    using assms(2) by (intro flush_save_current) (simp_all add: flush_inv_def)
  with on_done(1) assms(2) show ?thesis
    by (auto simp: flush_inv_def file_current_def)
next
  case on_dirty
  with assms(2) show ?thesis by (auto simp: flush_inv_def file_current_def)
next
  case (on_timer ok wrote)
  have "file_current (flush_save ok wrote f) \<or> f_failed (flush_save ok wrote f)"
    using assms(2) by (intro flush_save_current) (simp_all add: flush_inv_def)
  with on_timer(1) assms(2) show ?thesis by (auto simp: flush_inv_def)
qed

definition opened :: "yamlData \<Rightarrow> string \<Rightarrow> flusher" where
  "opened yd p = \<lparr>f_store = load_data yd (empty_YAMLStore p), f_file = yd, f_timer = False, f_failed = False\<rparr>"

lemma flush_inv_opened: "flush_inv (opened yd p)"
proof -
  have "path (load_data yd (empty_YAMLStore p)) = p"
    by (simp add: load_data_updates empty_YAMLStore_def)
  then show ?thesis
    using load_data_wf [of "empty_YAMLStore p" yd]
    by (simp add: flush_inv_def opened_def file_current_def blank_def empty_YAMLStore_def)
qed

lemma flush_inv_reachable: "flush_step\<^sup>*\<^sup>* f f' \<Longrightarrow> flush_inv f \<Longrightarrow> flush_inv f'"
  by (induction rule: rtranclp_induct) (auto dest: flush_step_inv)


text \<open>A binding, its signal, the debounced save.\<close>

definition one_flush :: flusher where
  "one_flush =
     (let s = Y_BindChannel 1 7 70 (empty_YAMLStore ''f'')
      in \<lparr>f_store = s\<lparr>dirtyCh := False\<rparr>, f_file = save_data s, f_timer = False, f_failed = False\<rparr>)"



end
