(* ===== verification/RaidMode.thy ===== *)
theory RaidMode
  imports Prelude
begin

text \<open>
  Raid modes: \<^verbatim>\<open>internal/guild/raid_mode.go\<close>, the choice of a mode from the
  \<^verbatim>\<open>/start\<close> arguments (\<^verbatim>\<open>internal/bot/handlers_voice.go\<close>), the downgrade of a
  guest (\<^verbatim>\<open>internal/manager/voice_raid.go\<close>, JoinSession) and the choice of the audio
  pipeline (\<^verbatim>\<open>internal/manager/pipeline/pipeline.go\<close>).
\<close>

section \<open>Modes\<close>

text \<open>\<^verbatim>\<open>RaidMode\<close> is a Go string type with six constants; other strings are
  representable and the code gives them a default everywhere.\<close>

type_synonym RaidMode = string

definition RaidModeOneCaller :: RaidMode where "RaidModeOneCaller = ''one_caller''"
definition RaidModeGuildCaller :: RaidMode where "RaidModeGuildCaller = ''guild_caller''"
definition RaidModeAllyListener :: RaidMode where "RaidModeAllyListener = ''ally_listener''"
definition RaidModeAllyCaller :: RaidMode where "RaidModeAllyCaller = ''ally_caller''"
definition RaidModeOneManyGuildCaller :: RaidMode where
  "RaidModeOneManyGuildCaller = ''one_many_guild_caller''"
definition RaidModeOneManyAllyCaller :: RaidMode where
  "RaidModeOneManyAllyCaller = ''one_many_ally_caller''"

lemmas raid_mode_defs =
  RaidModeOneCaller_def RaidModeGuildCaller_def RaidModeAllyListener_def RaidModeAllyCaller_def
  RaidModeOneManyGuildCaller_def RaidModeOneManyAllyCaller_def

definition WithCapture :: "RaidMode \<Rightarrow> bool" where
  "WithCapture m \<longleftrightarrow>
     m = RaidModeGuildCaller \<or> m = RaidModeAllyCaller \<or>
     m = RaidModeOneManyGuildCaller \<or> m = RaidModeOneManyAllyCaller"

definition AllowGuestCapture :: "RaidMode \<Rightarrow> bool" where
  "AllowGuestCapture m \<longleftrightarrow> m = RaidModeGuildCaller \<or> m = RaidModeOneManyGuildCaller"

definition IsStarTopology :: "RaidMode \<Rightarrow> bool" where
  "IsStarTopology m \<longleftrightarrow> m = RaidModeOneManyGuildCaller \<or> m = RaidModeOneManyAllyCaller"

definition IsDirectPassthrough :: "RaidMode \<Rightarrow> bool" where
  "IsDirectPassthrough m \<longleftrightarrow> m = RaidModeOneCaller"

definition IsDirectOutput :: "RaidMode \<Rightarrow> bool" where
  "IsDirectOutput m \<longleftrightarrow> m = RaidModeOneCaller \<or> m = RaidModeOneManyAllyCaller"

lemmas raid_predicate_defs =
  WithCapture_def AllowGuestCapture_def IsStarTopology_def IsDirectPassthrough_def
  IsDirectOutput_def

section \<open>Labels\<close>

definition PrettyKey :: "RaidMode \<Rightarrow> string" where
  "PrettyKey m =
     (if m = RaidModeOneCaller then ''raid_mode.one_caller_host''
      else if m = RaidModeGuildCaller then ''raid_mode.many_callers_host''
      else if m = RaidModeAllyListener then ''raid_mode.listener_guest''
      else if m = RaidModeAllyCaller then ''raid_mode.caller_guest''
      else if m = RaidModeOneManyGuildCaller then ''raid_mode.one_many_callers_host''
      else if m = RaidModeOneManyAllyCaller then ''raid_mode.one_many_caller_guest''
      else [])"

text \<open>The double arrow of the labels is U+2194, three bytes of UTF-8.\<close>

definition double_arrow :: string where
  "double_arrow = map char_of [226 :: nat, 134, 148]"

definition englishPretty :: "string \<rightharpoonup> string" where
  "englishPretty = map_of
     [(''raid_mode.one_caller_host'', ''One Caller (host)''),
      (''raid_mode.many_callers_host'', ''Many Callers (host)''),
      (''raid_mode.listener_guest'', ''Listener (guest)''),
      (''raid_mode.caller_guest'', ''Caller (guest)''),
      (''raid_mode.one_many_callers_host'', ''One'' @ double_arrow @ ''Many Callers (host)''),
      (''raid_mode.one_many_caller_guest'', ''One'' @ double_arrow @ ''Many Caller (guest)'')]"

text \<open>The translator is the method \<^verbatim>\<open>T\<close> of the interface, \<open>None\<close> for a nil one.\<close>

definition Pretty :: "RaidMode \<Rightarrow> (string \<Rightarrow> string) option \<Rightarrow> string" where
  "Pretty m loc =
     (let key = PrettyKey m in
      if key = [] then m
      else case loc of None \<Rightarrow> map_get [] englishPretty key | Some T \<Rightarrow> T key)"

section \<open>From the command to the mode and the pipeline\<close>

text \<open>The values of the \<^verbatim>\<open>mode\<close> option of \<^verbatim>\<open>/start\<close>.\<close>

definition callerModeOne :: string where "callerModeOne = ''one''"
definition callerModeMany :: string where "callerModeMany = ''many''"
definition callerModeOneMany :: string where "callerModeOneMany = ''one_many''"

lemmas caller_mode_defs = callerModeOne_def callerModeMany_def callerModeOneMany_def

definition host_mode_of :: "string \<Rightarrow> RaidMode" where
  "host_mode_of modeStr =
     (if modeStr = callerModeMany then RaidModeGuildCaller
      else if modeStr = callerModeOneMany then RaidModeOneManyGuildCaller
      else RaidModeOneCaller)"

definition guest_mode_of :: "string \<Rightarrow> RaidMode" where
  "guest_mode_of modeStr =
     (if modeStr = callerModeMany then RaidModeAllyCaller
      else if modeStr = callerModeOneMany then RaidModeOneManyAllyCaller
      else RaidModeAllyListener)"

definition effective_guest_mode :: "RaidMode \<Rightarrow> RaidMode \<Rightarrow> RaidMode" where
  "effective_guest_mode hostMode guestMode =
     (if WithCapture guestMode \<and> \<not> AllowGuestCapture hostMode
      then RaidModeAllyListener else guestMode)"

datatype HostPipeline = OneCallerPipeline | GuildCallerPipeline | StarCallerPipeline
datatype GuestPipeline = GuestListenerPipeline | GuestCallerPipeline | GuestStarCallerPipeline

definition HostFor :: "RaidMode \<Rightarrow> HostPipeline" where
  "HostFor mode =
     (if IsDirectPassthrough mode then OneCallerPipeline
      else if IsStarTopology mode then StarCallerPipeline
      else GuildCallerPipeline)"

definition GuestFor :: "RaidMode \<Rightarrow> GuestPipeline" where
  "GuestFor mode =
     (if \<not> WithCapture mode then GuestListenerPipeline
      else if IsStarTopology mode then GuestStarCallerPipeline
      else GuestCallerPipeline)"

lemmas command_defs =
  host_mode_of_def guest_mode_of_def effective_guest_mode_def HostFor_def GuestFor_def

lemma effective_guest_mode_capture:
  "WithCapture (effective_guest_mode h g) \<longleftrightarrow> WithCapture g \<and> AllowGuestCapture h"
  by (auto simp: effective_guest_mode_def raid_predicate_defs raid_mode_defs)

text \<open>
  Whatever arguments two servers pass to \<^verbatim>\<open>/start\<close>, the guest captures audio exactly
  when it asked for a capturing mode and the host runs a mode that lets speakers capture; the
  guest's pipeline is then a capturing one, it is the star pipeline exactly when the guest
  asked for \<^verbatim>\<open>one_many\<close>, and a guest that may not capture gets the listener pipeline.
\<close>

theorem guest_pipeline_matrix:
  "let h = host_mode_of hostArg; g = effective_guest_mode h (guest_mode_of guestArg)
   in (WithCapture g \<longleftrightarrow>
         hostArg \<in> {callerModeMany, callerModeOneMany} \<and>
         guestArg \<in> {callerModeMany, callerModeOneMany})
    \<and> (WithCapture h \<longleftrightarrow> HostFor h \<noteq> OneCallerPipeline)
    \<and> (GuestFor g = GuestListenerPipeline \<longleftrightarrow> \<not> WithCapture g)
    \<and> (GuestFor g = GuestStarCallerPipeline \<longleftrightarrow> WithCapture g \<and> guestArg = callerModeOneMany)"
  by (simp add: command_defs raid_predicate_defs raid_mode_defs caller_mode_defs)

end
