(* ===== verification/VoiceIO.thy ===== *)
theory VoiceIO
  imports Source
begin

text \<open>
  The two ends of a voice connection: \<^verbatim>\<open>internal/opus/voice_provider.go\<close>, which feeds packets to
  the Discord sender, and \<^verbatim>\<open>internal/opus/voice_receiver.go\<close>, which fans received packets out
  to channels, a callback and mixer inputs through a \<^verbatim>\<open>FanoutHandle\<close>.

  Channels and rings are shared, so they live in a heap (\<open>media\<close>) under references.  A buffered
  channel is the list of its packets.  A \<^verbatim>\<open>select\<close> with two ready cases picks either; the
  choice is a parameter.  The Opus decoder is a library and a parameter.
\<close>

section \<open>Channels\<close>

definition providerDrainThreshold :: nat where "providerDrainThreshold = 3"
definition AudioChanBuf :: nat where "AudioChanBuf = providerDrainThreshold"
definition providerHardDrainThreshold :: nat where
  "providerHardDrainThreshold = 2 * providerDrainThreshold"

lemmas provider_consts = providerDrainThreshold_def AudioChanBuf_def providerHardDrainThreshold_def

record media =
  chans :: "nat \<Rightarrow> packet list"
  rings :: "nat \<Rightarrow> SourceBuffer"
  m_pools :: pools
  called_back :: "packet list"
  dropped :: "nat list"

section \<open>VoiceProvider\<close>

record VoiceProvider =
  vp_ch :: nat
  vp_done :: bool
  vp_prev :: "packet option"
  vp_drops :: nat

definition NewVoiceProvider :: "nat \<Rightarrow> VoiceProvider" where
  "NewVoiceProvider c = \<lparr>vp_ch = c, vp_done = False, vp_prev = None, vp_drops = 0\<rparr>"

definition put_packet :: "packet option \<Rightarrow> pools \<Rightarrow> pools" where
  "put_packet b p = (case b of None \<Rightarrow> p | Some b \<Rightarrow> PutEncodedFrame b p)"

text \<open>One iteration of the drain: the frame in hand goes back, the next one is taken.\<close>

fun bleed :: "nat \<Rightarrow> packet \<Rightarrow> packet list \<Rightarrow> pools \<Rightarrow> nat \<Rightarrow> packet \<times> packet list \<times> pools \<times> nat" where
  "bleed 0 data q p d = (data, q, p, d)"
| "bleed (Suc n) data [] p d = (data, [], p, d)"
| "bleed (Suc n) data (newer # q) p d = bleed n newer q (PutEncodedFrame data p) (Suc d)"

definition bleed_count :: "nat \<Rightarrow> nat" where
  "bleed_count depth =
     (if depth > providerHardDrainThreshold then depth - providerDrainThreshold
      else if depth > providerDrainThreshold then 1 else 0)"

text \<open>
  The outcomes: it blocks, it reports that it is closed, or it provides a packet.
  \<open>see_done\<close> is the choice when the provider is closed and a packet waits.
\<close>

datatype provided = Blocks | ProviderClosed | Provides packet

definition ProvideOpusFrame :: "bool \<Rightarrow> VoiceProvider \<Rightarrow> media \<Rightarrow> VoiceProvider \<times> media \<times> provided" where
  "ProvideOpusFrame see_done v w =
     (let w1 = w\<lparr>m_pools := put_packet (vp_prev v) (m_pools w)\<rparr>;
          v1 = v\<lparr>vp_prev := None\<rparr>
      in case chans w1 (vp_ch v) of
           [] \<Rightarrow> (v1, w1, if vp_done v then ProviderClosed else Blocks)
         | data # q \<Rightarrow>
             if vp_done v \<and> see_done then (v1, w1, ProviderClosed)
             else
               let (data', q', p', d') = bleed (bleed_count (length q)) data q (m_pools w1) (vp_drops v1)
               in (v1\<lparr>vp_prev := Some data', vp_drops := d'\<rparr>,
                   w1\<lparr>chans := (chans w1)(vp_ch v := q'), m_pools := p'\<rparr>, Provides data'))"

definition DiscardFrame :: "VoiceProvider \<Rightarrow> media \<Rightarrow> media \<times> bool" where
  "DiscardFrame v w =
     (case chans w (vp_ch v) of
        [] \<Rightarrow> (w, False)
      | data # q \<Rightarrow> (w\<lparr>chans := (chans w)(vp_ch v := q), m_pools := PutEncodedFrame data (m_pools w)\<rparr>, True))"

definition VoiceProvider_Close :: "VoiceProvider \<Rightarrow> VoiceProvider" where
  "VoiceProvider_Close v = v\<lparr>vp_done := True\<rparr>"

text \<open>\<^verbatim>\<open>EmptyVoiceProvider\<close> is its \<^verbatim>\<open>done\<close> channel.\<close>

definition EmptyProvider_Provide :: "bool \<Rightarrow> provided" where
  "EmptyProvider_Provide closed = (if closed then ProviderClosed else Blocks)"

lemma bleed_spec:
  "bleed n data q p d =
     (let k = min n (length q) in
      ((data # q) ! k, drop k q, fold PutEncodedFrame (take k (data # q)) p, d + k))"
  by (induction n data q p d rule: bleed.induct) (auto simp: Let_def)

lemma bleed_count_le: "bleed_count n \<le> n"
  by (simp add: bleed_count_def provider_consts)

lemma bleed_count_small: "n \<le> 3 \<Longrightarrow> bleed_count n = 0"
  by (simp add: bleed_count_def provider_consts)

definition packets :: "packet list \<Rightarrow> nat multiset" where
  "packets q = mset (map pkt_id q)"

lemma accounted_put_packets:
  "accounted p (packets q + held) \<Longrightarrow> accounted (fold PutEncodedFrame q p) held"
  by (induction q arbitrary: p) (auto simp: packets_def intro!: accounted_PutEncodedFrame)

lemma accounted_put_packet:
  "accounted p (mset (map pkt_id (case b of None \<Rightarrow> [] | Some b \<Rightarrow> [b])) + held) \<Longrightarrow>
     accounted (put_packet b p) held"
  by (auto simp: put_packet_def intro!: accounted_PutEncodedFrame split: option.splits)

text \<open>
  The provider hands out the oldest packet; only a queue longer than three makes it skip:
  one packet from four to six waiting, all but three beyond that. Skipped packets and the
  packet of the previous call are returned to their pools, each once.
\<close>

theorem ProvideOpusFrame_provides:
  assumes "chans w (vp_ch v) = data # q" and "\<not> vp_done v"
  shows "let k = (if length q > 6 then length q - 3 else if length q > 3 then 1 else 0) in
   ProvideOpusFrame see_done v w =
    (v\<lparr>vp_prev := Some ((data # q) ! k), vp_drops := vp_drops v + k\<rparr>,
     w\<lparr>m_pools := fold PutEncodedFrame (take k (data # q)) (put_packet (vp_prev v) (m_pools w)),
       chans := (chans w)(vp_ch v := drop k q)\<rparr>,
     Provides ((data # q) ! k))"
proof -
  have k: "(if length q > 6 then length q - 3 else if length q > 3 then 1 else 0) = bleed_count (length q)"
    by (simp add: bleed_count_def provider_consts)
  show ?thesis
    unfolding k using assms(1,2) bleed_count_le [of "length q"]
    by (simp add: ProvideOpusFrame_def Let_def bleed_spec min_absorb1)
qed

definition sample_packet :: "nat \<Rightarrow> packet" where
  "sample_packet i = \<lparr>pkt_id = i, pkt_cap = 256, pkt_bytes = [of_nat i]\<rparr>"

definition queue_of :: "nat \<Rightarrow> media" where
  "queue_of n = \<lparr>chans = (\<lambda>_. map sample_packet [0..<n]), rings = (\<lambda>_. NewSourceBuffer False),
     m_pools = empty_pools\<lparr>next_id := n\<rparr>, called_back = [], dropped = []\<rparr>"

lemma ProvideOpusFrame_provides_witness:
  "snd (snd (ProvideOpusFrame False (NewVoiceProvider 0) (queue_of 5))) = Provides (sample_packet 1)"
  using ProvideOpusFrame_provides [of "queue_of 5" "NewVoiceProvider 0" "sample_packet 0"
      "map sample_packet [1..<5]" False]
  by (simp add: queue_of_def NewVoiceProvider_def upt_conv_Cons)

text \<open>
  The bleed-off is dead code: \<^verbatim>\<open>AudioChanBuf\<close> equals the drain threshold, so a channel of
  that capacity never holds enough packets and the provider never skips one.
\<close>

theorem provider_never_bleeds:
  assumes "length (chans w (vp_ch v)) \<le> AudioChanBuf"
    and "ProvideOpusFrame see_done v w = (v', w', Provides pkt)"
  shows "pkt = hd (chans w (vp_ch v)) \<and> chans w' (vp_ch v) = tl (chans w (vp_ch v)) \<and>
    vp_drops v' = vp_drops v"
  using assms
  by (cases "chans w (vp_ch v)")
    (auto simp: ProvideOpusFrame_def Let_def provider_consts bleed_count_small split: if_splits)

lemma provider_never_bleeds_witness:
  "case ProvideOpusFrame False (NewVoiceProvider 0) (queue_of 3) of
     (v', w', Provides pkt) \<Rightarrow> pkt = sample_packet 0 \<and> vp_drops v' = 0 | _ \<Rightarrow> False"
proof -
  obtain v' w' where p: "ProvideOpusFrame False (NewVoiceProvider 0) (queue_of 3) = (v', w', Provides (sample_packet 0))"
    by (simp add: ProvideOpusFrame_def Let_def bleed_count_small queue_of_def NewVoiceProvider_def upt_conv_Cons)
  from provider_never_bleeds [OF _ p] p show ?thesis
    by (simp add: queue_of_def NewVoiceProvider_def provider_consts)
qed

lemma accounted_ProvideOpusFrame:
  assumes "ProvideOpusFrame see_done v w = (v', w', r)"
    and "accounted (m_pools w) (packets (case vp_prev v of None \<Rightarrow> [] | Some b \<Rightarrow> [b]) +
      (packets (chans w (vp_ch v)) + held))"
  shows "accounted (m_pools w') (packets (case vp_prev v' of None \<Rightarrow> [] | Some b \<Rightarrow> [b]) +
      (packets (chans w' (vp_ch v)) + held))"
proof -
  have p1: "accounted (put_packet (vp_prev v) (m_pools w)) (packets (chans w (vp_ch v)) + held)"
    by (rule accounted_put_packet) (use assms(2) in \<open>simp add: packets_def\<close>)
  show ?thesis
  proof (cases "chans w (vp_ch v) = [] \<or> (vp_done v \<and> see_done)")
    case True
    with assms(1) p1 show ?thesis
      by (auto simp: ProvideOpusFrame_def Let_def packets_def split: list.splits)
  next
    case False
    then obtain data q where q: "chans w (vp_ch v) = data # q" by (cases "chans w (vp_ch v)") auto
    obtain k where k: "k \<le> length q" and v': "vp_prev v' = Some ((data # q) ! k)"
      "m_pools w' = fold PutEncodedFrame (take k (data # q)) (put_packet (vp_prev v) (m_pools w))"
      "chans w' (vp_ch v) = drop k q"
      using assms(1) False bleed_count_le [of "length q"]
      by (auto simp: ProvideOpusFrame_def Let_def q bleed_spec min_absorb1)
    have "data # q = take k (data # q) @ (data # q) ! k # drop (Suc k) (data # q)"
      by (rule id_take_nth_drop) (use k in simp)
    then have "packets (data # q) = packets (take k (data # q)) + (packets [(data # q) ! k] + packets (drop k q))"
      by (metis append_Cons append_Nil drop_Suc_Cons map_append mset_append packets_def)
    with p1 q have "accounted (put_packet (vp_prev v) (m_pools w))
        (packets (take k (data # q)) + (packets [(data # q) ! k] + (packets (drop k q) + held)))"
      by (simp add: ac_simps)
    from accounted_put_packets [OF this] v' show ?thesis by simp
  qed
qed

section \<open>FanoutHandle\<close>

text \<open>
  \<^verbatim>\<open>opusCallback\<close> and \<^verbatim>\<open>dropOpus\<close> are present or not; what they are handed is recorded in
  \<open>called_back\<close> and \<open>dropped\<close>.
\<close>

record fanoutDispatch =
  opusTargets :: "nat list"
  sourceTargets :: "(snowflake \<rightharpoonup> nat list) option"
  opusCallback :: bool
  onClose :: bool
  dropOpus :: bool

text \<open>
  The atomic pointer of a handle, with the bundles installed so far: \<open>fh_state\<close> is an index
  into \<open>fh_installed\<close>, because the receiver compares pointers.
\<close>

record FanoutHandle =
  fh_installed :: "fanoutDispatch list"
  fh_state :: "nat option"
  fh_closed :: bool
  fh_on_close_calls :: nat

definition NewFanoutHandle :: FanoutHandle where
  "NewFanoutHandle = \<lparr>fh_installed = [], fh_state = None, fh_closed = False, fh_on_close_calls = 0\<rparr>"

definition installTargetsForUser :: "fanoutDispatch \<Rightarrow> snowflake \<Rightarrow> nat list" where
  "installTargetsForUser s u =
     (case sourceTargets s of None \<Rightarrow> [] | Some m \<Rightarrow> map_get [] m u)"

definition Install :: "fanoutDispatch \<Rightarrow> FanoutHandle \<Rightarrow> FanoutHandle" where
  "Install opts h =
     h\<lparr>fh_installed := fh_installed h @ [opts], fh_state := Some (length (fh_installed h))\<rparr>"

definition FanoutHandle_Close :: "FanoutHandle \<Rightarrow> FanoutHandle" where
  "FanoutHandle_Close h =
     (if fh_closed h then h
      else let h' = h\<lparr>fh_closed := True\<rparr> in
        case fh_state h of
          None \<Rightarrow> h'
        | Some i \<Rightarrow> if onClose (fh_installed h ! i)
                    then h'\<lparr>fh_on_close_calls := fh_on_close_calls h + 1\<rparr> else h')"

section \<open>VoiceReceiver\<close>

record arrival =
  arr_at :: instant
  arr_timestamp :: "32 word"

record 'd VoiceReceiver =
  vr_done :: bool
  botID :: snowflake
  allowUser :: "(snowflake \<Rightarrow> bool) option"
  decoders :: "snowflake \<rightharpoonup> 'd"
  cachedState :: "nat option"
  cachedUserID :: snowflake
  cachedTargets :: "nat list"
  lastArrivals :: "snowflake \<rightharpoonup> arrival"

definition NewVoiceReceiver :: "snowflake \<Rightarrow> (snowflake \<Rightarrow> bool) option \<Rightarrow> 'd VoiceReceiver" where
  "NewVoiceReceiver me allow =
     \<lparr>vr_done = False, botID = me, allowUser = allow, decoders = Map.empty, cachedState = None,
      cachedUserID = 0, cachedTargets = [], lastArrivals = Map.empty\<rparr>"

definition targetsAndDecoder ::
  "string + 'd \<Rightarrow> FanoutHandle \<Rightarrow> nat \<Rightarrow> snowflake \<Rightarrow> 'd VoiceReceiver \<Rightarrow>
     'd VoiceReceiver \<times> nat list \<times> 'd option" where
  "targetsAndDecoder newDecoder h i u v =
     (let (v1, ts) =
        (if cachedState v = Some i \<and> cachedUserID v = u then (v, cachedTargets v)
         else let ts = installTargetsForUser (fh_installed h ! i) u
              in (v\<lparr>cachedState := Some i, cachedUserID := u, cachedTargets := ts\<rparr>, ts))
      in if ts = [] then (v1, ts, None)
         else case decoders v1 u of
                Some d \<Rightarrow> (v1, ts, Some d)
              | None \<Rightarrow>
                  (case newDecoder of
                     Inl err \<Rightarrow> (v1, ts, None)
                   | Inr d \<Rightarrow> (v1\<lparr>decoders := (decoders v1)(u \<mapsto> d)\<rparr>, ts, Some d)))"

text \<open>
  The loop over the raw targets.  \<open>quits\<close> tells, target by target, whether the \<^verbatim>\<open>select\<close> took
  the closed \<^verbatim>\<open>done\<close> channel; the result says whether the function returned there.
\<close>

fun send_targets ::
  "(nat \<Rightarrow> bool) \<Rightarrow> fanoutDispatch \<Rightarrow> 8 word list \<Rightarrow> nat list \<Rightarrow> media \<Rightarrow> media \<times> bool" where
  "send_targets quits st bytes [] w = (w, False)"
| "send_targets quits st bytes (c # cs) w =
     (let (buf, p1) = CopyOpusFrame bytes (m_pools w) in
      if quits c then (w\<lparr>m_pools := PutEncodedFrame buf p1\<rparr>, True)
      else if length (chans w c) < AudioChanBuf
      then send_targets quits st bytes cs
             (w\<lparr>m_pools := p1, chans := (chans w)(c := chans w c @ [buf])\<rparr>)
      else send_targets quits st bytes cs
             (w\<lparr>m_pools := PutEncodedFrame buf p1,
                dropped := (if dropOpus st then dropped w @ [c] else dropped w)\<rparr>))"

text \<open>One frame into one mixer input, with its own copies.\<close>

definition feed_target :: "16 word list \<Rightarrow> 8 word list \<Rightarrow> instant \<Rightarrow> nat \<Rightarrow> media \<Rightarrow> media" where
  "feed_target samples bytes at r w =
     (let (i, p1) = GetPCM (m_pools w);
          (buf, p2) = CopyOpusFrame bytes p1;
          f = \<lparr>PCM = Some \<lparr>pcm_id = i, pcm_samples = samples\<rparr>, Opus = Some buf, CreatedAt = at\<rparr>;
          (s', p3, ahead) = Feed f (rings w r) p2
      in w\<lparr>m_pools := p3, rings := (rings w)(r := s')\<rparr>)"

definition dispatchFanout ::
  "string + 'd \<Rightarrow> ('d \<Rightarrow> 8 word list \<Rightarrow> 'd \<times> (string + 16 word list)) \<Rightarrow> (nat \<Rightarrow> bool) \<Rightarrow>
   FanoutHandle \<Rightarrow> nat \<Rightarrow> snowflake \<Rightarrow> 8 word list \<Rightarrow> instant \<Rightarrow>
   'd VoiceReceiver \<Rightarrow> media \<Rightarrow> 'd VoiceReceiver \<times> media" where
  "dispatchFanout newDecoder decode quits h i u bytes at v w =
     (let st = fh_installed h ! i;
          (v1, ts, dec) = targetsAndDecoder newDecoder h i u v;
          (w1, quit) = send_targets quits st bytes (opusTargets st) w
      in if quit then (v1, w1)
         else
           let w2 = (if opusCallback st
                     then let (buf, p) = CopyOpusFrame bytes (m_pools w1)
                          in w1\<lparr>m_pools := p, called_back := called_back w1 @ [buf]\<rparr>
                     else w1)
           in case dec of
                None \<Rightarrow> (v1, w2)
              | Some d \<Rightarrow>
                  if ts = [] then (v1, w2)
                  else (case decode d bytes of
                          (d', Inl err) \<Rightarrow> (v1\<lparr>decoders := (decoders v1)(u \<mapsto> d')\<rparr>, w2)
                        | (d', Inr samples) \<Rightarrow>
                            (v1\<lparr>decoders := (decoders v1)(u \<mapsto> d')\<rparr>,
                             fold (feed_target samples bytes at) ts w2)))"

text \<open>The result tells whether an interval was recorded.\<close>

definition recordReceiveInterval ::
  "snowflake \<Rightarrow> 32 word \<Rightarrow> instant \<Rightarrow> 'd VoiceReceiver \<Rightarrow> 'd VoiceReceiver \<times> duration option" where
  "recordReceiveInterval u ts at v =
     (v\<lparr>lastArrivals := (lastArrivals v)(u \<mapsto> \<lparr>arr_at = at, arr_timestamp = ts\<rparr>)\<rparr>,
      case lastArrivals v u of
        None \<Rightarrow> None
      | Some a \<Rightarrow>
          if ts - arr_timestamp a = of_nat mixerFrameSize then Some (at - arr_at a) else None)"

text \<open>\<open>h = None\<close> is a receiver without a handle; a packet is nil or its payload and timestamp.\<close>

definition ReceiveOpusFrame ::
  "string + 'd \<Rightarrow> ('d \<Rightarrow> 8 word list \<Rightarrow> 'd \<times> (string + 16 word list)) \<Rightarrow> (nat \<Rightarrow> bool) \<Rightarrow>
   FanoutHandle option \<Rightarrow> snowflake \<Rightarrow> (8 word list \<times> 32 word) option \<Rightarrow> instant \<Rightarrow>
   'd VoiceReceiver \<Rightarrow> media \<Rightarrow> 'd VoiceReceiver \<times> media" where
  "ReceiveOpusFrame newDecoder decode quits h u pkt at v w =
     (case pkt of
        None \<Rightarrow> (v, w)
      | Some (bytes, ts) \<Rightarrow>
          if bytes = [] then (v, w)
          else if vr_done v then (v, w)
          else if botID v \<noteq> 0 \<and> u = botID v then (v, w)
          else if (case allowUser v of None \<Rightarrow> False | Some allow \<Rightarrow> \<not> allow u) then (v, w)
          else
            let v1 = fst (recordReceiveInterval u ts at v)
            in case h of
                 None \<Rightarrow> (v1, w)
               | Some h \<Rightarrow>
                   (case fh_state h of
                      None \<Rightarrow> (v1, w)
                    | Some i \<Rightarrow> dispatchFanout newDecoder decode quits h i u bytes at v1 w))"

definition CleanupUser :: "snowflake \<Rightarrow> 'd VoiceReceiver \<Rightarrow> 'd VoiceReceiver" where
  "CleanupUser u v =
     (let v1 = (if cachedUserID v = u
                then v\<lparr>cachedState := None, cachedUserID := 0, cachedTargets := []\<rparr> else v)
      in v1\<lparr>decoders := (decoders v1)(u := None), lastArrivals := (lastArrivals v1)(u := None)\<rparr>)"

definition VoiceReceiver_Close :: "'d VoiceReceiver \<Rightarrow> 'd VoiceReceiver" where
  "VoiceReceiver_Close v = v\<lparr>vr_done := True\<rparr>"

section \<open>The same-user cache\<close>

text \<open>A cached bundle is one of the installed ones, with this user's targets.\<close>

definition cache_ok :: "FanoutHandle \<Rightarrow> 'd VoiceReceiver \<Rightarrow> bool" where
  "cache_ok h v \<longleftrightarrow>
     (case cachedState v of
        None \<Rightarrow> True
      | Some i \<Rightarrow> i < length (fh_installed h) \<and>
          cachedTargets v = installTargetsForUser (fh_installed h ! i) (cachedUserID v))"

definition handle_ok :: "FanoutHandle \<Rightarrow> bool" where
  "handle_ok h \<longleftrightarrow> (case fh_state h of None \<Rightarrow> True | Some i \<Rightarrow> i < length (fh_installed h))"

lemma targetsAndDecoder_targets:
  "cache_ok h v \<Longrightarrow> i < length (fh_installed h) \<Longrightarrow> targetsAndDecoder nd h i u v = (v', ts, dec) \<Longrightarrow>
     ts = installTargetsForUser (fh_installed h ! i) u \<and> cache_ok h v' \<and> (ts = [] \<longrightarrow> dec = None)"
  by (auto simp: targetsAndDecoder_def cache_ok_def Let_def split: if_splits option.splits sum.splits)

lemma cache_ok_CleanupUser: "cache_ok h v \<Longrightarrow> cache_ok h (CleanupUser u v)"
  by (simp add: CleanupUser_def cache_ok_def Let_def split: option.splits)

lemma cache_ok_Install: "cache_ok h v \<Longrightarrow> cache_ok (Install opts h) v"
  by (auto simp: Install_def cache_ok_def nth_append split: option.splits)

lemma handle_ok_Install: "handle_ok (Install opts h)"
  by (simp add: handle_ok_def Install_def)

lemma cache_ok_interval [simp]: "cache_ok h (fst (recordReceiveInterval u ts at v)) = cache_ok h v"
  by (simp add: recordReceiveInterval_def cache_ok_def split: option.splits)

lemma cache_ok_dispatch:
  assumes "cache_ok h v" and "i < length (fh_installed h)"
  shows "cache_ok h (fst (dispatchFanout nd decode quits h i u bytes at v w))"
proof -
  obtain v1 ts dec where t: "targetsAndDecoder nd h i u v = (v1, ts, dec)" by (metis prod_cases3)
  have "cache_ok h v1" using targetsAndDecoder_targets [OF assms t] by simp
  moreover have "cache_ok h (v1\<lparr>decoders := D\<rparr>) = cache_ok h v1" for D
    by (simp add: cache_ok_def split: option.splits)
  ultimately show ?thesis
    by (auto simp: dispatchFanout_def t Let_def split_def split: option.splits sum.splits prod.splits)
qed

lemma cache_ok_Receive:
  assumes "cache_ok h v" and "handle_ok h"
  shows "cache_ok h (fst (ReceiveOpusFrame nd decode quits (Some h) u pkt at v w))"
  using assms cache_ok_dispatch [of h "fst (recordReceiveInterval u _ at v)"]
  by (auto simp: ReceiveOpusFrame_def Let_def handle_ok_def split: option.splits)

text \<open>Anything that happens to a receiver and its handle, in any order.\<close>

datatype recv_op =
  DoInstall fanoutDispatch
| DoCleanup snowflake
| DoReceive snowflake "(8 word list \<times> 32 word) option" instant

definition recv_op ::
  "string + 'd \<Rightarrow> ('d \<Rightarrow> 8 word list \<Rightarrow> 'd \<times> (string + 16 word list)) \<Rightarrow> recv_op \<Rightarrow>
   FanoutHandle \<times> 'd VoiceReceiver \<times> media \<Rightarrow> FanoutHandle \<times> 'd VoiceReceiver \<times> media" where
  "recv_op nd decode op = (\<lambda>(h, v, w).
     case op of
       DoInstall st \<Rightarrow> (Install st h, v, w)
     | DoCleanup u \<Rightarrow> (h, CleanupUser u v, w)
     | DoReceive u pkt at \<Rightarrow> (h, ReceiveOpusFrame nd decode (\<lambda>_. False) (Some h) u pkt at v w))"

lemma recv_op_cache:
  "cache_ok (fst s) (fst (snd s)) \<and> handle_ok (fst s) \<Longrightarrow>
     cache_ok (fst (recv_op nd decode op s)) (fst (snd (recv_op nd decode op s))) \<and>
     handle_ok (fst (recv_op nd decode op s))"
  by (cases s; cases op)
    (auto simp: recv_op_def cache_ok_Install handle_ok_Install cache_ok_CleanupUser cache_ok_Receive)

lemma recv_ops_cache:
  "cache_ok (fst s) (fst (snd s)) \<and> handle_ok (fst s) \<Longrightarrow>
     cache_ok (fst (fold (recv_op nd decode) ops s)) (fst (snd (fold (recv_op nd decode) ops s))) \<and>
     handle_ok (fst (fold (recv_op nd decode) ops s))"
  by (induction ops arbitrary: s) (simp_all add: recv_op_cache)

text \<open>
  The same-user cache is invisible: after any sequence of installs, packets and user
  cleanups, the targets used for the next packet are those a fresh lookup in the currently
  installed bundle gives.
\<close>

theorem same_user_cache_transparent:
  assumes "fold (recv_op nd decode) ops (NewFanoutHandle, NewVoiceReceiver me allow, w0) = (h, v, w)"
    and "fh_state h = Some i" and "targetsAndDecoder nd h i u v = (v', ts, dec)"
  shows "ts = installTargetsForUser (fh_installed h ! i) u"
proof -
  have "cache_ok NewFanoutHandle (NewVoiceReceiver me allow)" "handle_ok NewFanoutHandle"
    by (simp_all add: cache_ok_def handle_ok_def NewFanoutHandle_def NewVoiceReceiver_def)
  then have "cache_ok h v \<and> handle_ok h"
    using recv_ops_cache [of "(NewFanoutHandle, NewVoiceReceiver me allow, w0)" nd decode ops]
    by (simp add: assms(1))
  with assms(2,3) targetsAndDecoder_targets [of h v i nd u v' ts dec] show ?thesis
    by (simp add: handle_ok_def)
qed

definition to_ring :: "snowflake \<Rightarrow> nat \<Rightarrow> fanoutDispatch" where
  "to_ring u r = \<lparr>opusTargets = [], sourceTargets = Some [u \<mapsto> [r]], opusCallback = False,
     onClose = False, dropOpus = False\<rparr>"

lemma same_user_cache_transparent_witness:
  "case fold (recv_op (Inr ()) (\<lambda>d _. (d, Inr [0, 0, 0, 0])))
      [DoInstall (to_ring 5 0), DoReceive 5 (Some ([1, 2], 0)) 10, DoInstall (to_ring 5 1)]
      (NewFanoutHandle, NewVoiceReceiver 9 None, queue_of 0) of
     (h, v, w) \<Rightarrow> fst (snd (targetsAndDecoder (Inr ()) h 1 5 v)) = [1]"
proof -
  let ?ops = "[DoInstall (to_ring 5 0), DoReceive 5 (Some ([1, 2], 0)) 10, DoInstall (to_ring 5 1)]"
  obtain h v w where s: "fold (recv_op (Inr ()) (\<lambda>d _. (d, Inr [0, 0, 0, 0]))) ?ops
      (NewFanoutHandle, NewVoiceReceiver 9 None, queue_of 0) = (h, v, w)" by (metis prod_cases3)
  then have h: "fh_state h = Some 1" "fh_installed h = [to_ring 5 0, to_ring 5 1]"
    by (auto simp: recv_op_def Install_def NewFanoutHandle_def)
  obtain v' ts dec where t: "targetsAndDecoder (Inr ()) h 1 5 v = (v', ts, dec)" by (metis prod_cases3)
  from same_user_cache_transparent [OF s h(1) t] show ?thesis
    unfolding s prod.case t by (simp add: h(2) installTargetsForUser_def to_ring_def)
qed

text \<open>
  Packets that must not be relayed have no effect at all: an absent or empty payload, any
  packet after \<^verbatim>\<open>Close\<close>, the bot's own audio, and users the filter rejects.
\<close>

theorem unwanted_packets_ignored:
  assumes "pkt = None \<or> map_option fst pkt = Some [] \<or> vr_done v \<or> (botID v \<noteq> 0 \<and> u = botID v) \<or>
    (\<exists>allow. allowUser v = Some allow \<and> \<not> allow u)"
  shows "ReceiveOpusFrame nd decode quits h u pkt at v w = (v, w)"
  using assms by (auto simp: ReceiveOpusFrame_def split: option.splits)

lemma unwanted_packets_ignored_witness:
  "ReceiveOpusFrame (Inr ()) (\<lambda>d _. (d, Inr [])) (\<lambda>_. False) (Some (Install (to_ring 9 0) NewFanoutHandle)) 9
     (Some ([1, 2, 3], 0)) 10 (NewVoiceReceiver 9 None) (queue_of 0)
   = (NewVoiceReceiver 9 None, queue_of 0)"
  by (rule unwanted_packets_ignored) (simp add: NewVoiceReceiver_def)

text \<open>
  The receive interval is taken between consecutive frames only, also across the
  wrap-around of the 32-bit RTP timestamp: it is recorded if and only if the user's previous
  packet had the timestamp 960 less modulo \<open>2 ^ 32\<close>.
\<close>

theorem receive_interval_consecutive:
  "let (v', r) = recordReceiveInterval u ts at v
   in lastArrivals v' u = Some \<lparr>arr_at = at, arr_timestamp = ts\<rparr> \<and>
      (r \<noteq> None \<longleftrightarrow>
        (\<exists>a. lastArrivals v u = Some a \<and>
             (uint (arr_timestamp a) + 960) mod 2 ^ 32 = uint ts \<and> r = Some (at - arr_at a)))"
proof -
  have "ts - t = 960 \<longleftrightarrow> (uint t + 960) mod 2 ^ 32 = uint ts" for t :: "32 word"
  proof -
    have "ts - t = 960 \<longleftrightarrow> t + 960 = ts" by (metis add.commute diff_add_cancel add_diff_cancel_left')
    also have "\<dots> \<longleftrightarrow> uint (t + 960) = uint ts" by (simp add: word_uint_eq_iff)
    also have "uint (t + 960) = (uint t + 960) mod 2 ^ 32" by (simp add: uint_word_ariths take_bit_eq_mod)
    finally show ?thesis .
  qed
  then show ?thesis
    by (auto simp: recordReceiveInterval_def mixerFrameSize_def split: option.splits)
qed

section \<open>Every target owns its copy\<close>

text \<open>What the channels \<open>C\<close> and the rings \<open>R\<close> hold, with the callback's packets.\<close>

definition media_bufs :: "nat set \<Rightarrow> nat set \<Rightarrow> media \<Rightarrow> nat multiset" where
  "media_bufs C R w =
     (\<Sum>c \<in> C. packets (chans w c)) + (\<Sum>r \<in> R. \<Sum>f \<leftarrow> queued (rings w r). frame_bufs f) +
     packets (called_back w)"

lemma sum_upd:
  fixes g :: "'a \<Rightarrow> 'b :: comm_monoid_add"
  assumes "finite C" and "c \<in> C"
  shows "(\<Sum>x \<in> C. g ((f(c := q)) x)) = g q + (\<Sum>x \<in> C - {c}. g (f x))"
    and "(\<Sum>x \<in> C. g (f x)) = g (f c) + (\<Sum>x \<in> C - {c}. g (f x))"
proof -
  have "(\<Sum>x \<in> C - {c}. g ((f(c := q)) x)) = (\<Sum>x \<in> C - {c}. g (f x))"
    by (rule sum.cong) auto
  then show "(\<Sum>x \<in> C. g ((f(c := q)) x)) = g q + (\<Sum>x \<in> C - {c}. g (f x))"
    using sum.remove [OF assms, of "\<lambda>x. g ((f(c := q)) x)"] by simp
  show "(\<Sum>x \<in> C. g (f x)) = g (f c) + (\<Sum>x \<in> C - {c}. g (f x))"
    by (rule sum.remove [OF assms])
qed

lemma send_targets_accounted:
  assumes "finite C" and "set cs \<subseteq> C" and "send_targets quits st bytes cs w = (w', quit)"
    and "accounted (m_pools w) (media_bufs C R w + held)"
  shows "accounted (m_pools w') (media_bufs C R w' + held) \<and> rings w' = rings w"
  using assms(2-4)
proof (induction cs arbitrary: w)
  case (Cons c cs)
  obtain buf p1 where b: "CopyOpusFrame bytes (m_pools w) = (buf, p1)" by fastforce
  have p1: "accounted p1 (add_mset (pkt_id buf) (media_bufs C R w + held))"
    by (rule accounted_CopyOpusFrame [OF Cons.prems(3) b])
  then have put: "accounted (PutEncodedFrame buf p1) (media_bufs C R w + held)"
    by (rule accounted_PutEncodedFrame)
  have c: "c \<in> C" and cs: "set cs \<subseteq> C" using Cons.prems(1) by simp_all
  consider "quits c" | "\<not> quits c" "length (chans w c) < AudioChanBuf"
    | "\<not> quits c" "\<not> length (chans w c) < AudioChanBuf" by blast
  then show ?case
  proof cases
    case 1
    with Cons.prems(2) put show ?thesis by (auto simp: b media_bufs_def)
  next
    case 2
    let ?w = "w\<lparr>m_pools := p1, chans := (chans w)(c := chans w c @ [buf])\<rparr>"
    have "media_bufs C R ?w = add_mset (pkt_id buf) (media_bufs C R w)"
      using sum_upd [OF assms(1) c, of packets "chans w"]
      by (simp add: media_bufs_def packets_def ac_simps del: fun_upd_apply)
    with p1 have "accounted (m_pools ?w) (media_bufs C R ?w + held)" by simp
    from Cons.IH [OF cs _ this] 2 Cons.prems(2) b show ?thesis by simp
  next
    case 3
    let ?w = "w\<lparr>m_pools := PutEncodedFrame buf p1,
        dropped := (if dropOpus st then dropped w @ [c] else dropped w)\<rparr>"
    have "accounted (m_pools ?w) (media_bufs C R ?w + held)"
      using put by (simp add: media_bufs_def)
    from Cons.IH [OF cs _ this] 3 Cons.prems(2) b show ?thesis by simp
  qed
qed simp

lemma feed_target_accounted:
  assumes "finite R" and "r \<in> R" and wf: "\<And>r. ring_wf (rings w r)"
    and "accounted (m_pools w) (media_bufs C R w + held)"
  shows "accounted (m_pools (feed_target samples bytes at r w))
      (media_bufs C R (feed_target samples bytes at r w) + held) \<and>
    ring_wf (rings (feed_target samples bytes at r w) r')"
proof -
  obtain i p1 where g: "GetPCM (m_pools w) = (i, p1)" by fastforce
  obtain buf p2 where b: "CopyOpusFrame bytes p1 = (buf, p2)" by fastforce
  let ?f = "\<lparr>PCM = Some \<lparr>pcm_id = i, pcm_samples = samples\<rparr>, Opus = Some buf, CreatedAt = at\<rparr>"
  obtain s' p3 ahead where fd: "Feed ?f (rings w r) p2 = (s', p3, ahead)" by (metis prod_cases3)
  have p2: "accounted p2 (add_mset (pkt_id buf) (add_mset i (media_bufs C R w + held)))"
    by (rule accounted_CopyOpusFrame [OF accounted_GetPCM [OF assms(4) g] b])
  let ?rest = "(\<Sum>x \<in> R - {r}. \<Sum>f \<leftarrow> queued (rings w x). frame_bufs f) +
    (\<Sum>c \<in> C. packets (chans w c)) + packets (called_back w) + held"
  have f: "frame_bufs ?f = add_mset (pkt_id buf) {#i#}"
    by (simp add: frame_bufs_def add_mset_commute)
  have "accounted p2 (frame_bufs ?f + (\<Sum>f \<leftarrow> queued (rings w r). frame_bufs f) + ?rest)"
    using p2 sum_upd(2) [OF assms(1,2), of "\<lambda>s. \<Sum>f \<leftarrow> queued s. frame_bufs f" "rings w"]
    by (simp add: media_bufs_def f ac_simps)
  from accounted_Feed [OF wf fd this]
  have p3: "accounted p3 ((\<Sum>f \<leftarrow> queued s'. frame_bufs f) + ?rest)" .
  have w': "feed_target samples bytes at r w = w\<lparr>m_pools := p3, rings := (rings w)(r := s')\<rparr>"
    by (simp add: feed_target_def g b fd)
  have "media_bufs C R (w\<lparr>m_pools := p3, rings := (rings w)(r := s')\<rparr>) + held =
      (\<Sum>f \<leftarrow> queued s'. frame_bufs f) + ?rest"
    using sum_upd(1) [OF assms(1,2), of "\<lambda>s. \<Sum>f \<leftarrow> queued s. frame_bufs f" "rings w" s']
    by (simp add: media_bufs_def ac_simps del: fun_upd_apply)
  with p3 have "accounted (m_pools (feed_target samples bytes at r w))
      (media_bufs C R (feed_target samples bytes at r w) + held)"
    unfolding w' by (simp add: ac_simps)
  moreover have "ring_wf (rings (feed_target samples bytes at r w) r')"
    unfolding w' using Feed_queued [OF wf fd] wf by simp
  ultimately show ?thesis ..
qed

lemma feed_targets_accounted:
  assumes "finite R" and "set rs \<subseteq> R" and "\<forall>r. ring_wf (rings w r)"
    and "accounted (m_pools w) (media_bufs C R w + held)"
  shows "accounted (m_pools (fold (feed_target samples bytes at) rs w))
      (media_bufs C R (fold (feed_target samples bytes at) rs w) + held)"
  using assms(2-4)
proof (induction rs arbitrary: w)
  case (Cons r rs)
  with feed_target_accounted [OF assms(1), of r w C held samples bytes at] show ?case by simp
qed simp

text \<open>
  Fanning a packet out never shares a buffer: every channel, the callback and every mixer
  input get their own copies, so that with any earlier accounting of the pools each buffer is
  again in exactly one place afterwards, also when a channel is full, a ring evicts, the
  decoder fails, or the receiver is closed on the way.
\<close>

theorem dispatchFanout_accounts_buffers:
  assumes "finite C" and "finite R"
    and "set (opusTargets (fh_installed h ! i)) \<subseteq> C"
    and "set (fst (snd (targetsAndDecoder nd h i u v))) \<subseteq> R"
    and "\<And>r. ring_wf (rings w r)"
    and "accounted (m_pools w) (media_bufs C R w + held)"
    and "dispatchFanout nd decode quits h i u bytes at v w = (v', w')"
  shows "accounted (m_pools w') (media_bufs C R w' + held)"
proof -
  let ?st = "fh_installed h ! i"
  obtain v1 ts dec where t: "targetsAndDecoder nd h i u v = (v1, ts, dec)" by (metis prod_cases3)
  obtain w1 quit where s: "send_targets quits ?st bytes (opusTargets ?st) w = (w1, quit)" by fastforce
  note s1 = send_targets_accounted [OF assms(1,3) s assms(6)]
  define w2 where "w2 = (if opusCallback ?st
       then let (buf, p) = CopyOpusFrame bytes (m_pools w1)
            in w1\<lparr>m_pools := p, called_back := called_back w1 @ [buf]\<rparr>
       else w1)"
  have w2: "accounted (m_pools w2) (media_bufs C R w2 + held) \<and> (\<forall>r. ring_wf (rings w2 r))"
  proof (cases "opusCallback ?st")
    case True
    obtain buf p where b: "CopyOpusFrame bytes (m_pools w1) = (buf, p)" by fastforce
    have "accounted p (add_mset (pkt_id buf) (media_bufs C R w1 + held))"
      using accounted_CopyOpusFrame [OF _ b] s1 by blast
    with True s1 assms(5) show ?thesis by (simp add: w2_def b media_bufs_def packets_def ac_simps)
  next
    case False
    with s1 assms(5) show ?thesis by (simp add: w2_def)
  qed
  have "w' = w1 \<and> quit \<or> w' = w2 \<or> (\<exists>samples. w' = fold (feed_target samples bytes at) ts w2)"
    using assms(7)
    by (auto simp: dispatchFanout_def t s Let_def w2_def split_def split: option.splits sum.splits if_splits)
  then show ?thesis
    using s1 w2 feed_targets_accounted [OF assms(2) _ conjunct2 [OF w2] conjunct1 [OF w2]] assms(4)
    by (auto simp: t)
qed

lemma dispatchFanout_accounts_buffers_witness:
  "case dispatchFanout (Inr ()) (\<lambda>d _. (d, Inr [0, 0, 0, 0])) (\<lambda>_. False)
      (Install \<lparr>opusTargets = [0], sourceTargets = Some [5 \<mapsto> [1]], opusCallback = True,
         onClose = False, dropOpus = True\<rparr> NewFanoutHandle) 0 5 [1, 2] 10 (NewVoiceReceiver 9 None) (queue_of 0) of
     (v', w') \<Rightarrow> accounted (m_pools w') (media_bufs {0} {1} w')"
proof -
  let ?h = "Install \<lparr>opusTargets = [0], sourceTargets = Some [5 \<mapsto> [1]], opusCallback = True,
         onClose = False, dropOpus = True\<rparr> NewFanoutHandle"
  obtain v' w' where d: "dispatchFanout (Inr ()) (\<lambda>d _. (d, Inr [0, 0, 0, 0])) (\<lambda>_. False) ?h 0 5 [1, 2] 10
      (NewVoiceReceiver 9 None) (queue_of 0) = (v', w')" by fastforce
  have "accounted (m_pools w') (media_bufs {0} {1} w' + {#})"
  proof (rule dispatchFanout_accounts_buffers [OF _ _ _ _ _ _ d])
    show "accounted (m_pools (queue_of 0)) (media_bufs {0} {1} (queue_of 0) + {#})"
      by (simp add: queue_of_def media_bufs_def packets_def NewSourceBuffer_wf accounted_def pooled_def
          empty_pools_def)
  qed (simp_all add: Install_def NewFanoutHandle_def targetsAndDecoder_def NewVoiceReceiver_def
      installTargetsForUser_def queue_of_def NewSourceBuffer_wf Let_def)
  then show ?thesis unfolding d by simp
qed

end
