(* ===== verification/Ally.thy ===== *)
theory Ally
  imports RaidMode VoiceIO
begin

text \<open>
  Cross-guild relay sessions: \<^verbatim>\<open>internal/ally/session.go\<close>.  A session fans packets out to the
  channels of the guilds attached to it; the manager is the registry of sessions by code and by
  guild.  Both hold pointers to sessions, so sessions live in a heap.  Go's choice of the order
  of a map range is the order of the association list.
\<close>

section \<open>Session\<close>

type_synonym Code = string

record Session =
  s_Code :: Code
  HostGuildID :: snowflake
  HostMode :: RaidMode
  s_done :: bool
  outs :: "(snowflake \<times> nat list) list"
  guests :: "(snowflake \<times> unit) list"
  capturing :: "(snowflake \<times> unit) list"
  observers :: "(snowflake \<times> unit) list"

definition newSession :: "Code \<Rightarrow> snowflake \<Rightarrow> RaidMode \<Rightarrow> Session" where
  "newSession code host mode =
     \<lparr>s_Code = code, HostGuildID = host, HostMode = mode, s_done = False, outs = [], guests = [],
      capturing = [], observers = []\<rparr>"

text \<open>One copy for one channel; a full channel drops it.\<close>

definition offer_copy :: "8 word list \<Rightarrow> nat \<Rightarrow> media \<Rightarrow> media" where
  "offer_copy bytes c w =
     (let (buf, p) = CopyOpusFrame bytes (m_pools w)
      in if length (chans w c) < AudioChanBuf
         then w\<lparr>m_pools := p, chans := (chans w)(c := chans w c @ [buf])\<rparr>
         else w\<lparr>m_pools := PutEncodedFrame buf p\<rparr>)"

definition broadcast :: "packet \<Rightarrow> snowflake \<Rightarrow> Session \<Rightarrow> media \<Rightarrow> media" where
  "broadcast pkt exclude s w =
     (let w' = fold (\<lambda>(g, chs) w. if g = exclude then w else fold (offer_copy (pkt_bytes pkt)) chs w) (outs s) w
      in w'\<lparr>m_pools := PutEncodedFrame pkt (m_pools w')\<rparr>)"

definition Broadcast :: "packet \<Rightarrow> Session \<Rightarrow> media \<Rightarrow> media" where
  "Broadcast pkt = broadcast pkt 0"

definition BroadcastFromGuild :: "snowflake \<Rightarrow> packet \<Rightarrow> Session \<Rightarrow> media \<Rightarrow> media" where
  "BroadcastFromGuild src pkt = broadcast pkt src"

text \<open>The membership operations also tell which guilds' routers to wake.\<close>

definition observersLocked :: "Session \<Rightarrow> snowflake list" where
  "observersLocked s = map fst (observers s)"

definition AddGuild :: "snowflake \<Rightarrow> nat list \<Rightarrow> Session \<Rightarrow> Session \<times> snowflake list" where
  "AddGuild g chs s =
     (let s1 = s\<lparr>outs := AList.update g chs (outs s)\<rparr>;
          s2 = (if g \<noteq> HostGuildID s then s1\<lparr>guests := AList.update g () (guests s1)\<rparr> else s1)
      in (s2, observersLocked s2))"

definition SetCapturing :: "snowflake \<Rightarrow> Session \<Rightarrow> Session \<times> snowflake list" where
  "SetCapturing g s =
     (let s1 = s\<lparr>capturing := AList.update g () (capturing s)\<rparr> in (s1, observersLocked s1))"

definition HasCapturingPeers :: "snowflake \<Rightarrow> Session \<Rightarrow> bool" where
  "HasCapturingPeers g s = list_ex (\<lambda>(i, _). i \<noteq> g) (capturing s)"

definition SetRouteObserver :: "snowflake \<Rightarrow> Session \<Rightarrow> Session" where
  "SetRouteObserver g s = s\<lparr>observers := AList.update g () (observers s)\<rparr>"

definition RemoveGuild :: "snowflake \<Rightarrow> Session \<Rightarrow> Session \<times> snowflake list" where
  "RemoveGuild g s =
     (let s1 = s\<lparr>outs := AList.delete g (outs s), guests := AList.delete g (guests s),
                 capturing := AList.delete g (capturing s), observers := AList.delete g (observers s)\<rparr>
      in (s1, observersLocked s1))"

definition GuestGuildIDs :: "Session \<Rightarrow> snowflake list" where
  "GuestGuildIDs s = map fst (guests s)"

definition Done :: "Session \<Rightarrow> bool" where
  "Done s = s_done s"

definition close_session :: "Session \<Rightarrow> Session" where
  "close_session s = s\<lparr>s_done := True\<rparr>"

section \<open>Manager\<close>

record Manager =
  sessions :: "Code \<rightharpoonup> nat"
  byGuild :: "snowflake \<rightharpoonup> nat"
  session_heap :: "nat \<Rightarrow> Session"
  next_session :: nat

definition NewManager :: "(nat \<Rightarrow> Session) \<Rightarrow> Manager" where
  "NewManager heap0 = \<lparr>sessions = Map.empty, byGuild = Map.empty, session_heap = heap0, next_session = 0\<rparr>"

definition Create :: "Code \<Rightarrow> snowflake \<Rightarrow> RaidMode \<Rightarrow> Manager \<Rightarrow> Manager \<times> nat" where
  "Create code host mode m =
     (let i = next_session m
      in (m\<lparr>session_heap := (session_heap m)(i := newSession code host mode), next_session := Suc i,
           sessions := (sessions m)(code \<mapsto> i), byGuild := (byGuild m)(host \<mapsto> i)\<rparr>, i))"

datatype join_error = SessionNotFound Code | OwnSession | AlreadyActive

definition Join :: "Code \<Rightarrow> snowflake \<Rightarrow> Manager \<Rightarrow> Manager \<times> (join_error + nat)" where
  "Join code g m =
     (case sessions m code of
        None \<Rightarrow> (m, Inl (SessionNotFound code))
      | Some i \<Rightarrow>
          if HostGuildID (session_heap m i) = g then (m, Inl OwnSession)
          else if byGuild m g \<noteq> None then (m, Inl AlreadyActive)
          else (m\<lparr>byGuild := (byGuild m)(g \<mapsto> i)\<rparr>, Inr i))"

definition GetByGuild :: "snowflake \<Rightarrow> Manager \<Rightarrow> nat option" where
  "GetByGuild g m = byGuild m g"

definition RemoveGuest :: "snowflake \<Rightarrow> Manager \<Rightarrow> Manager" where
  "RemoveGuest g m = m\<lparr>byGuild := (byGuild m)(g := None)\<rparr>"

definition RemoveHost :: "snowflake \<Rightarrow> Manager \<Rightarrow> Manager" where
  "RemoveHost host m =
     (case byGuild m host of
        None \<Rightarrow> m
      | Some i \<Rightarrow>
          let s = close_session (session_heap m i);
              m1 = m\<lparr>session_heap := (session_heap m)(i := s), sessions := (sessions m)(s_Code s := None),
                     byGuild := (byGuild m)(host := None)\<rparr>
          in fold (\<lambda>g m. m\<lparr>byGuild := (byGuild m)(g := None)\<rparr>) (GuestGuildIDs s) m1)"

section \<open>Broadcasting\<close>

lemma offer_copy_channel:
  "chans (offer_copy bytes c w) x =
     (if x = c \<and> length (chans w c) < AudioChanBuf then chans w c @ [fst (CopyOpusFrame bytes (m_pools w))]
      else chans w x)"
  by (simp add: offer_copy_def split_def Let_def)

lemma offer_copies_channel:
  assumes "distinct cs"
  shows "map pkt_bytes (chans (fold (offer_copy bytes) cs w) x) =
    (if x \<in> set cs \<and> length (chans w x) < AudioChanBuf then map pkt_bytes (chans w x) @ [bytes]
     else map pkt_bytes (chans w x))"
  using assms
proof (induction cs arbitrary: w)
  case (Cons c cs)
  have "pkt_bytes (fst (CopyOpusFrame bytes (m_pools w))) = bytes"
    using CopyOpusFrame_bytes [of bytes "m_pools w"] by (metis prod.collapse)
  with Cons show ?case by (auto simp: offer_copy_channel)
qed simp

lemma offer_copies_is_send_targets:
  "\<not> dropOpus st \<Longrightarrow> send_targets (\<lambda>_. False) st bytes cs w = (fold (offer_copy bytes) cs w, False)"
  by (induction cs arbitrary: w) (auto simp: offer_copy_def Let_def split_def)

text \<open>The guilds a broadcast reaches, and their channels.\<close>

definition reached :: "snowflake \<Rightarrow> Session \<Rightarrow> nat list" where
  "reached exclude s = concat (map snd (filter (\<lambda>(g, _). g \<noteq> exclude) (outs s)))"

lemma broadcast_alt:
  "broadcast pkt exclude s w =
     (let w' = fold (offer_copy (pkt_bytes pkt)) (reached exclude s) w
      in w'\<lparr>m_pools := PutEncodedFrame pkt (m_pools w')\<rparr>)"
proof -
  have "fold (\<lambda>(g, chs) w. if g = exclude then w else fold (offer_copy bytes) chs w) os w =
    fold (offer_copy bytes) (concat (map snd (filter (\<lambda>(g, _). g \<noteq> exclude) os))) w" for os bytes
    by (induction os arbitrary: w) auto
  then show ?thesis by (simp add: broadcast_def reached_def)
qed

text \<open>
  C24. A broadcast delivers to everybody but the excluded guild, once, and never blocks: every
  channel of the other guilds that has room gets exactly one more packet, with the same bytes;
  full channels, the excluded guild's channels and all others stay as they were; and no pool buffer
  is lost or shared, the packet handed in included.
\<close>

theorem broadcast_delivers:
  assumes "distinct (reached exclude s)" and "finite C" and "set (reached exclude s) \<subseteq> C"
    and "accounted (m_pools w) (media_bufs C R w + {#pkt_id pkt#} + held)"
  shows "map pkt_bytes (chans (broadcast pkt exclude s w) c) =
      (if c \<in> set (reached exclude s) \<and> length (chans w c) < AudioChanBuf
       then map pkt_bytes (chans w c) @ [pkt_bytes pkt] else map pkt_bytes (chans w c))
    \<and> accounted (m_pools (broadcast pkt exclude s w)) (media_bufs C R (broadcast pkt exclude s w) + held)"
proof -
  let ?w = "fold (offer_copy (pkt_bytes pkt)) (reached exclude s) w"
  define st where "st = \<lparr>opusTargets = [], sourceTargets = None, opusCallback = False, onClose = False, dropOpus = False\<rparr>"
  have s: "send_targets (\<lambda>_. False) st (pkt_bytes pkt) (reached exclude s) w = (?w, False)"
    by (rule offer_copies_is_send_targets) (simp add: st_def)
  have "accounted (m_pools w) (media_bufs C R w + ({#pkt_id pkt#} + held))"
    using assms(4) by (simp add: ac_simps)
  from send_targets_accounted [OF assms(2,3) s this]
  have "accounted (m_pools ?w) (add_mset (pkt_id pkt) (media_bufs C R ?w + held))" by simp
  then have "accounted (PutEncodedFrame pkt (m_pools ?w)) (media_bufs C R ?w + held)"
    by (rule accounted_PutEncodedFrame)
  then show ?thesis
    using offer_copies_channel [OF assms(1), of "pkt_bytes pkt" w c]
    by (simp add: broadcast_alt Let_def media_bufs_def)
qed

definition pkt7 :: packet where "pkt7 = \<lparr>pkt_id = 0, pkt_cap = 256, pkt_bytes = [1, 2, 3]\<rparr>"

definition relay_media :: media where
  "relay_media = \<lparr>chans = (\<lambda>_. []), rings = (\<lambda>_. NewSourceBuffer True),
     m_pools = empty_pools\<lparr>next_id := 1\<rparr>, called_back = [], dropped = []\<rparr>"

definition three_guilds :: Session where
  "three_guilds = (newSession ''ABCD2345'' 10 RaidModeOneCaller)\<lparr>outs := [(10, [0]), (20, [1, 2]), (30, [3])]\<rparr>"

lemma broadcast_delivers_witness:
  "map pkt_bytes (chans (broadcast pkt7 20 three_guilds relay_media) 3) = [[1, 2, 3]] \<and>
   map pkt_bytes (chans (broadcast pkt7 20 three_guilds relay_media) 1) = [] \<and>
   accounted (m_pools (broadcast pkt7 20 three_guilds relay_media))
     (media_bufs {0, 3} {} (broadcast pkt7 20 three_guilds relay_media))"
proof -
  have r: "reached 20 three_guilds = [0, 3]" by (simp add: reached_def three_guilds_def)
  have a: "accounted (m_pools relay_media) (media_bufs {0, 3} {} relay_media + {#pkt_id pkt7#} + {#})"
    by (simp add: accounted_def pooled_def relay_media_def empty_pools_def media_bufs_def packets_def pkt7_def)
  from broadcast_delivers [OF _ _ _ a, of 20 three_guilds 3] broadcast_delivers [OF _ _ _ a, of 20 three_guilds 1]
  show ?thesis by (simp add: r relay_media_def pkt7_def provider_consts)
qed

section \<open>The registry\<close>

text \<open>
  The operations of the registry as the callers use them: a guild is attached to the session it
  joined or hosts.
\<close>

datatype reg_op =
    DoCreate Code snowflake RaidMode
  | DoJoin Code snowflake
  | DoAttach snowflake "nat list"
  | DoDetach snowflake nat
  | DoRemoveGuest snowflake
  | DoRemoveHost snowflake

definition on_session :: "nat \<Rightarrow> (Session \<Rightarrow> Session) \<Rightarrow> Manager \<Rightarrow> Manager" where
  "on_session i f m = m\<lparr>session_heap := (session_heap m)(i := f (session_heap m i))\<rparr>"

fun reg_apply :: "reg_op \<Rightarrow> Manager \<Rightarrow> Manager" where
  "reg_apply (DoCreate code host mode) m = fst (Create code host mode m)"
| "reg_apply (DoJoin code g) m = fst (Join code g m)"
| "reg_apply (DoAttach g chs) m =
     (case GetByGuild g m of None \<Rightarrow> m | Some i \<Rightarrow> on_session i (\<lambda>s. fst (AddGuild g chs s)) m)"
| "reg_apply (DoDetach g i) m = on_session i (\<lambda>s. fst (RemoveGuild g s)) m"
| "reg_apply (DoRemoveGuest g) m = RemoveGuest g m"
| "reg_apply (DoRemoveHost g) m = RemoveHost g m"

text \<open>A guild has left every session it was a guest of.\<close>

definition detached :: "snowflake \<Rightarrow> Manager \<Rightarrow> bool" where
  "detached g m \<longleftrightarrow> (\<forall>i < next_session m. \<not> s_done (session_heap m i) \<longrightarrow> g \<notin> set (GuestGuildIDs (session_heap m i)))"

text \<open>
  What the callers owe: a new session's code and guild are free, a guild that hosts or joins has
  been detached from its last session, a guest entry is removed only while it is one, and only
  hosts end sessions.
\<close>

fun reg_guard :: "reg_op \<Rightarrow> Manager \<Rightarrow> bool" where
  "reg_guard (DoCreate code host mode) m \<longleftrightarrow> sessions m code = None \<and> byGuild m host = None \<and> detached host m"
| "reg_guard (DoJoin code g) m \<longleftrightarrow> byGuild m g = None \<longrightarrow> detached g m"
| "reg_guard (DoRemoveGuest g) m \<longleftrightarrow> (\<forall>i. byGuild m g = Some i \<longrightarrow> HostGuildID (session_heap m i) \<noteq> g)"
| "reg_guard (DoRemoveHost g) m \<longleftrightarrow> (\<forall>i. byGuild m g = Some i \<longrightarrow> HostGuildID (session_heap m i) = g)"
| "reg_guard (DoAttach g chs) m \<longleftrightarrow> True"
| "reg_guard (DoDetach g i) m \<longleftrightarrow> True"

definition hosts :: "Manager \<Rightarrow> nat \<Rightarrow> bool" where
  "hosts m i \<longleftrightarrow> i < next_session m \<and> byGuild m (HostGuildID (session_heap m i)) = Some i"

definition session_ok :: "Manager \<Rightarrow> nat \<Rightarrow> bool" where
  "session_ok m i \<longleftrightarrow>
     (hosts m i \<longrightarrow> \<not> s_done (session_heap m i)) \<and>
     (\<not> s_done (session_heap m i) \<longrightarrow>
        HostGuildID (session_heap m i) \<notin> set (GuestGuildIDs (session_heap m i)) \<and>
        (\<forall>g \<in> set (GuestGuildIDs (session_heap m i)). byGuild m g = None \<or> byGuild m g = Some i))"

definition registry_ok :: "Manager \<Rightarrow> bool" where
  "registry_ok m \<longleftrightarrow>
     (\<forall>g i. byGuild m g = Some i \<longrightarrow> i < next_session m) \<and>
     (\<forall>code i. sessions m code = Some i \<longleftrightarrow> hosts m i \<and> s_Code (session_heap m i) = code) \<and>
     (\<forall>i < next_session m. session_ok m i)"

lemma registry_okD:
  assumes "registry_ok m"
  shows "byGuild m g = Some i \<Longrightarrow> i < next_session m"
    "sessions m code = Some i \<longleftrightarrow> hosts m i \<and> s_Code (session_heap m i) = code"
    "i < next_session m \<Longrightarrow> session_ok m i"
  using assms by (auto simp: registry_ok_def)

lemma registry_ok_new: "registry_ok (NewManager h)"
  by (simp add: registry_ok_def NewManager_def hosts_def)

lemma registry_ok_Create:
  assumes ok: "registry_ok m" and free: "sessions m code = None" "byGuild m host = None" "detached host m"
  shows "registry_ok (fst (Create code host mode m))"
proof -
  let ?m = "fst (Create code host mode m)" and ?n = "next_session m"
  have h: "hosts ?m i \<longleftrightarrow> i = ?n \<or> hosts m i" for i
    using registry_okD(1) [OF ok] free(2) by (auto simp: hosts_def Create_def Let_def newSession_def less_Suc_eq)
  have heap: "session_heap ?m i = (if i = ?n then newSession code host mode else session_heap m i)" for i
    by (simp add: Create_def Let_def)
  have "session_ok ?m i" if "i < Suc ?n" for i
  proof (cases "i = ?n")
    case False
    then have "session_ok m i" "i < ?n" using registry_okD(3) [OF ok] that by simp_all
    moreover from this have "\<not> s_done (session_heap m i) \<longrightarrow> host \<notin> set (GuestGuildIDs (session_heap m i))"
      using free(3) by (auto simp: detached_def)
    ultimately show ?thesis using False by (auto simp: session_ok_def h heap) (auto simp: Create_def Let_def)
  qed (simp add: session_ok_def heap newSession_def GuestGuildIDs_def)
  moreover have "sessions ?m c = Some i \<longleftrightarrow> hosts ?m i \<and> s_Code (session_heap ?m i) = c" for c i
  proof -
    have sess: "sessions ?m c = (if c = code then Some ?n else sessions m c)" by (simp add: Create_def Let_def)
    have "sessions m c \<noteq> Some ?n" using registry_okD(2) [OF ok] by (auto simp: hosts_def)
    then show ?thesis
      using registry_okD(2) [OF ok, of c i] registry_okD(2) [OF ok, of code i] free(1)
      by (auto simp: h heap sess newSession_def)
  qed
  moreover have "byGuild ?m g = Some i \<Longrightarrow> i < Suc ?n" for g i
    using registry_okD(1) [OF ok, of g i] by (auto simp: Create_def Let_def split: if_splits)
  ultimately show ?thesis by (simp add: registry_ok_def) (simp add: Create_def Let_def)
qed

text \<open>Changes of \<^verbatim>\<open>byGuild\<close> at guilds that host nothing, that is guests.\<close>

lemma registry_ok_guest_entry:
  assumes ok: "registry_ok m" and "\<And>i. byGuild m g = Some i \<Longrightarrow> HostGuildID (session_heap m i) \<noteq> g"
    and v: "v = None \<or> (\<exists>i < next_session m. v = Some i \<and> HostGuildID (session_heap m i) \<noteq> g \<and> detached g m)"
  shows "registry_ok (m\<lparr>byGuild := (byGuild m)(g := v)\<rparr>)"
proof -
  let ?m = "m\<lparr>byGuild := (byGuild m)(g := v)\<rparr>"
  have h: "hosts ?m i = hosts m i" for i
    using assms(2) v by (auto simp: hosts_def)
  have "session_ok ?m i" if "i < next_session m" for i
    using registry_okD(3) [OF ok that] v that by (auto simp: session_ok_def h detached_def)
  then show ?thesis using ok v by (auto simp: registry_ok_def h)
qed

lemma registry_ok_Join:
  assumes ok: "registry_ok m" and "byGuild m g = None \<longrightarrow> detached g m"
  shows "registry_ok (fst (Join code g m))"
proof -
  have "registry_ok (m\<lparr>byGuild := (byGuild m)(g \<mapsto> i)\<rparr>)"
    if i: "sessions m code = Some i" "HostGuildID (session_heap m i) \<noteq> g" "byGuild m g = None" for i
    using registry_okD(2) [OF ok, of code i] i assms
    by (intro registry_ok_guest_entry [OF ok]) (auto simp: hosts_def)
  with ok show ?thesis by (auto simp: Join_def split: option.split)
qed

lemma registry_ok_RemoveGuest:
  assumes "registry_ok m" "\<forall>i. byGuild m g = Some i \<longrightarrow> HostGuildID (session_heap m i) \<noteq> g"
  shows "registry_ok (RemoveGuest g m)"
  unfolding RemoveGuest_def using assms by (intro registry_ok_guest_entry) auto

lemma registry_ok_on_session:
  assumes ok: "registry_ok m" and s: "s = session_heap m i"
    and f: "s_Code (f s) = s_Code s" "HostGuildID (f s) = HostGuildID s" "s_done (f s) = s_done s"
    and g: "\<And>g. g \<in> set (GuestGuildIDs (f s)) \<Longrightarrow> g \<in> set (GuestGuildIDs s) \<or> (g \<noteq> HostGuildID s \<and> byGuild m g = Some i)"
  shows "registry_ok (on_session i f m)"
proof -
  let ?m = "on_session i f m"
  have heap: "session_heap ?m j = (if j = i then f s else session_heap m j)" for j
    by (simp add: on_session_def s)
  have h: "hosts ?m j = hosts m j" for j
    using f(2) by (simp add: hosts_def heap s) (simp add: on_session_def)
  have frm: "byGuild ?m = byGuild m" "sessions ?m = sessions m" "next_session ?m = next_session m"
    by (simp_all add: on_session_def)
  have "session_ok ?m j" if "j < next_session m" for j
    using registry_okD(3) [OF ok that] f g by (auto simp: session_ok_def h heap frm s)
  then show ?thesis using ok f(1) by (auto simp: registry_ok_def h heap frm s)
qed

lemma RemoveHost_alt:
  assumes "byGuild m host = Some i"
  shows "RemoveHost host m =
    m\<lparr>session_heap := (session_heap m)(i := close_session (session_heap m i)),
      sessions := (sessions m)(s_Code (session_heap m i) := None),
      byGuild := (\<lambda>g. if g = host \<or> g \<in> set (GuestGuildIDs (session_heap m i)) then None else byGuild m g)\<rparr>"
proof -
  have "fold (\<lambda>g m. m\<lparr>byGuild := (byGuild m)(g := None)\<rparr>) gs m0 =
    m0\<lparr>byGuild := (\<lambda>g. if g \<in> set gs then None else byGuild m0 g)\<rparr>" for gs and m0 :: Manager
    by (induction gs arbitrary: m0) (auto simp: fun_eq_iff)
  then show ?thesis
    using assms by (auto simp: RemoveHost_def Let_def close_session_def GuestGuildIDs_def fun_eq_iff)
qed


lemma registry_ok_RemoveHost:
  assumes ok: "registry_ok m" and own: "\<forall>i. byGuild m host = Some i \<longrightarrow> HostGuildID (session_heap m i) = host"
  shows "registry_ok (RemoveHost host m)"
proof (cases "byGuild m host")
  case (Some i)
  let ?m = "RemoveHost host m" and ?gs = "set (GuestGuildIDs (session_heap m i))"
  note a = RemoveHost_alt [OF Some]
  have i: "hosts m i" "HostGuildID (session_heap m i) = host" "i < next_session m"
    using registry_okD(1) [OF ok Some] own Some by (auto simp: hosts_def)
  have gs: "g \<in> ?gs \<Longrightarrow> byGuild m g = None \<or> byGuild m g = Some i" for g
    using registry_okD(3) [OF ok i(3)] i(1) by (auto simp: session_ok_def)
  have heap: "session_heap ?m j = (if j = i then close_session (session_heap m i) else session_heap m j)" for j
    by (simp add: a)
  have host_id: "HostGuildID (session_heap ?m j) = HostGuildID (session_heap m j)"
    "s_Code (session_heap ?m j) = s_Code (session_heap m j)" "GuestGuildIDs (session_heap ?m j) = GuestGuildIDs (session_heap m j)" for j
    by (simp_all add: heap close_session_def GuestGuildIDs_def)
  have bg: "byGuild ?m g = (if g = host \<or> g \<in> ?gs then None else byGuild m g)" for g by (simp add: a)
  have h: "hosts ?m j \<longleftrightarrow> hosts m j \<and> j \<noteq> i" for j
    using gs [of "HostGuildID (session_heap m j)"] i(2) Some
    unfolding hosts_def host_id bg by (auto simp: a)
  have "session_ok ?m j" if "j < next_session m" for j
    using registry_okD(3) [OF ok that] by (auto simp: session_ok_def h host_id bg heap close_session_def)
  moreover have "sessions ?m c = Some j \<longleftrightarrow> hosts ?m j \<and> s_Code (session_heap ?m j) = c" for c j
    using registry_okD(2) [OF ok, of c j] registry_okD(2) [OF ok, of c i] i(1) by (auto simp: h host_id) (auto simp: a)
  moreover have "byGuild ?m g = Some j \<Longrightarrow> j < next_session m" for g j
    using registry_okD(1) [OF ok] by (auto simp: bg split: if_splits)
  ultimately show ?thesis by (simp add: registry_ok_def) (simp add: a)
qed (simp add: RemoveHost_def ok)

text \<open>
  C31. The registry stays consistent: as long as its callers keep to their side, every operation
  preserves that codes name exactly the sessions some guild hosts, one each, that those are not
  done, and that every guild on a live session's guest list is registered with it or with none.
\<close>

theorem registry_stays_consistent:
  assumes "registry_ok m" and "reg_guard op m"
  shows "registry_ok (reg_apply op m)"
proof (cases op)
  case (DoAttach g chs)
  then show ?thesis using assms(1)
    by (auto simp: GetByGuild_def AddGuild_def Let_def GuestGuildIDs_def dom_update update_keys
        intro!: registry_ok_on_session split: option.split if_splits)
next
  case (DoDetach g i)
  then show ?thesis using assms(1)
    by (auto simp: RemoveGuild_def Let_def GuestGuildIDs_def delete_keys intro!: registry_ok_on_session)
qed (use assms in \<open>auto intro: registry_ok_Create registry_ok_Join registry_ok_RemoveGuest registry_ok_RemoveHost\<close>)

lemma registry_stays_consistent_witness:
  "registry_ok (reg_apply (DoCreate ''ABCD2345'' 10 RaidModeOneCaller) (NewManager (\<lambda>_. newSession '''' 0 RaidModeOneCaller)))"
  by (rule registry_stays_consistent [OF registry_ok_new])
    (simp add: NewManager_def detached_def)

text \<open>
  Ending a session frees everything at once: the host's session is marked done, its code no
  longer joins, the host and every guest may host or join again, and every other guild and code is untouched.
\<close>

theorem RemoveHost_ends_session:
  assumes "byGuild m host = Some i"
  shows "let m' = RemoveHost host m; s = session_heap m i in
     Done (session_heap m' i) \<and> snd (Join (s_Code s) g m') = Inl (SessionNotFound (s_Code s)) \<and>
     GetByGuild g m' = (if g = host \<or> g \<in> set (GuestGuildIDs s) then None else GetByGuild g m) \<and>
     (c \<noteq> s_Code s \<longrightarrow> sessions m' c = sessions m c) \<and> (j \<noteq> i \<longrightarrow> session_heap m' j = session_heap m j)"
  by (simp add: RemoveHost_alt [OF assms] Done_def close_session_def Join_def GetByGuild_def Let_def)

definition hosted :: Manager where
  "hosted = fst (Create ''ABCD2345'' 10 RaidModeOneCaller (NewManager (\<lambda>_. newSession '''' 0 RaidModeOneCaller)))"

lemma RemoveHost_ends_session_witness:
  "snd (Join ''ABCD2345'' 20 (RemoveHost 10 hosted)) = Inl (SessionNotFound ''ABCD2345'')"
  using RemoveHost_ends_session [of hosted 10 0 20 "''X''" 1]
  by (simp add: hosted_def Create_def NewManager_def newSession_def Let_def)

text \<open>
  A guest's late \<^verbatim>\<open>RemoveGuest\<close> can orphan a session: if guild 20 leaves a relay and hosts its own raid
  before the old guest goroutine reaches \<^verbatim>\<open>RemoveGuest\<close>, that call deletes the entry of the new
  session; ending the new raid then does nothing, and its code stays joinable.
\<close>

theorem late_RemoveGuest_orphans_host:
  "let m0 = fst (Join ''ABCD2345'' 20 hosted);
       m1 = RemoveHost 10 (reg_apply (DoAttach 20 [1]) m0);
       m2 = fst (Create ''WXYZ6723'' 20 RaidModeOneCaller m1);
       m3 = RemoveGuest 20 m2
   in GetByGuild 20 m2 = Some 1 \<and> GetByGuild 20 m3 = None \<and> RemoveHost 20 m3 = m3 \<and>
      \<not> Done (session_heap m3 1) \<and> snd (Join ''WXYZ6723'' 30 (RemoveHost 20 m3)) = Inr 1"
  by (simp add: hosted_def Create_def NewManager_def newSession_def Join_def RemoveHost_def RemoveGuest_def
      GetByGuild_def on_session_def AddGuild_def GuestGuildIDs_def close_session_def Done_def Let_def)

text \<open>\<open>captures\<close>: who has announced and not been removed since, the latest event first.\<close>

datatype session_op = OpAdd snowflake "nat list" | OpCapture snowflake | OpObserve snowflake | OpRemove snowflake

fun session_apply :: "session_op \<Rightarrow> Session \<Rightarrow> Session" where
  "session_apply (OpAdd g chs) s = fst (AddGuild g chs s)"
| "session_apply (OpCapture g) s = fst (SetCapturing g s)"
| "session_apply (OpObserve g) s = SetRouteObserver g s"
| "session_apply (OpRemove g) s = fst (RemoveGuild g s)"

fun captures :: "session_op list \<Rightarrow> snowflake set" where
  "captures [] = {}"
| "captures (OpCapture g # ops) = insert g (captures ops)"
| "captures (OpRemove g # ops) = captures ops - {g}"
| "captures (_ # ops) = captures ops"


lemma keys_update: "set (map fst (AList.update k v al)) = insert k (set (map fst al))"
  by (induction al) auto

lemma keys_delete: "set (map fst (AList.delete k al)) = set (map fst al) - {k}"
  by (induction al) (auto simp: AList.delete_eq)

lemma capturing_step:
  "set (map fst (capturing (session_apply op s))) =
     (case op of OpCapture g \<Rightarrow> insert g (set (map fst (capturing s)))
      | OpRemove g \<Rightarrow> set (map fst (capturing s)) - {g} | _ \<Rightarrow> set (map fst (capturing s)))"
  by (cases op) (simp_all add: AddGuild_def SetCapturing_def SetRouteObserver_def RemoveGuild_def Let_def
      keys_update keys_delete del: set_map)

lemma capturing_fold:
  "set (map fst (capturing s)) = {} \<Longrightarrow> set (map fst (capturing (fold session_apply ops s))) = captures (rev ops)"
proof (induction ops rule: rev_induct)
  case (snoc op ops)
  then show ?case using capturing_step [of op "fold session_apply ops s"]
    by (cases op) (simp_all del: set_map)
qed simp

text \<open>
  The relay feed is exact: a guild's relay carries audio if and only if some other guild has
  announced that it captures and has not been removed since, whatever else happened on the session.
\<close>

theorem relay_feed_exact:
  "HasCapturingPeers g (fold session_apply ops (newSession code host mode)) \<longleftrightarrow> captures (rev ops) - {g} \<noteq> {}"
proof -
  have "HasCapturingPeers g s \<longleftrightarrow> set (map fst (capturing s)) - {g} \<noteq> {}" for s
    by (force simp: HasCapturingPeers_def list_ex_iff)
  then show ?thesis
    using capturing_fold [of "newSession code host mode" ops] by (simp add: newSession_def del: set_map)
qed

end
