(* ===== verification/Service.thy ===== *)
theory Service
  imports YamlStore Ally
begin

text \<open>
  What the manager keeps per guild and the commands that change it:
  \<^verbatim>\<open>internal/manager/service_commands.go\<close>, \<^verbatim>\<open>channel_bindings.go\<close>, the state and the status part of
  \<^verbatim>\<open>service.go\<close>, and the records of \<^verbatim>\<open>internal/guild\<close>.

  The store is whatever implements the store interface, so every definition takes the operations
  \<open>S\<close>.  Discord's caches, the REST API and the pool's clients are a parameter (\<open>discord\<close>).  Go
  maps that are ranged over are association lists.
\<close>

section \<open>Errors\<close>

text \<open>
  The sentinel errors of \<^verbatim>\<open>errors.go\<close> are their messages; the dash of one is U+2014, the arrow of two
  is U+2192, three bytes of UTF-8 each.
\<close>

definition em_dash :: string where "em_dash = map char_of [226 :: nat, 128, 148]"
definition right_arrow :: string where "right_arrow = map char_of [226 :: nat, 134, 146]"

definition ErrNoActiveSession :: string where "ErrNoActiveSession = ''no active voice raid in this server''"

definition ErrSessionExists :: string where
  "ErrSessionExists = ''a voice raid is already active in this server''"

definition ErrNoGuildStatus :: string where
  "ErrNoGuildStatus = ''no guild status found '' @ em_dash @ '' seed the guild first''"

definition ErrNoSpeakers :: string where
  "ErrNoSpeakers = ''no speakers joined: verify speaker channels are bound and bots are online in this guild''"

definition ErrNoBoundSpeakers :: string where
  "ErrNoBoundSpeakers = ''no speaker bots are configured in this server: run /setup '' @ right_arrow @
     '' Bind Speakers to enable a speaker and pick its voice channel''"

definition ErrNoOwnerChannel :: string where
  "ErrNoOwnerChannel = ''the owner bot has no voice channel: run /setup and pick one''"

definition ErrNoCallerRole :: string where
  "ErrNoCallerRole = ''no caller role is set: run /setup '' @ right_arrow @
     '' Bind Roles and pick the role whose members are relayed''"

definition ErrNoDeafenPermission :: string where
  "ErrNoDeafenPermission = ''the owner bot lacks the Deafen Members permission in this server''"

lemma sentinels_differ [simp]:
  "ErrSessionExists \<noteq> ErrNoGuildStatus" "ErrNoGuildStatus \<noteq> ErrSessionExists"
  by (simp_all add: ErrSessionExists_def ErrNoGuildStatus_def)

section \<open>Guild state\<close>

record Speaker =
  spk_ID :: snowflake
  Username :: string
  Enabled :: bool

text \<open>
  A session; \<open>gs_token\<close> identifies the start that made it (and its cancel function),
  \<open>gs_AutoRouter\<close> its router, if it has one.  Of what its cleanup closure captured, \<open>gs_ally\<close> is
  the relay session and \<open>gs_detach\<close> says whether it has relay inputs to detach.
\<close>

record guild_session =
  gs_token :: nat
  gs_Speakers :: "Speaker list"
  gs_AllyCode :: Code
  gs_IsGuest :: bool
  gs_AutoRouter :: "nat option"
  gs_ally :: nat
  gs_detach :: bool

record Status =
  st_GuildID :: snowflake
  st_GuildName :: string
  OwnerUserID :: snowflake
  Speakers :: "(snowflake \<times> Speaker) list"
  BoundChannels :: "(snowflake \<times> snowflake) list"
  CallerRoleID :: "snowflake option"
  ManagerRoleID :: "snowflake option"
  st_AllyCode :: string
  st_Session :: "guild_session option"
  HostGuildName :: string
  GuestGuildNames :: "string list"

definition NewStatus :: "snowflake \<Rightarrow> snowflake \<Rightarrow> Status" where
  "NewStatus g owner =
     \<lparr>st_GuildID = g, st_GuildName = [], OwnerUserID = owner, Speakers = [], BoundChannels = [],
      CallerRoleID = None, ManagerRoleID = None, st_AllyCode = [], st_Session = None,
      HostGuildName = [], GuestGuildNames = []\<rparr>"

definition status_active :: "Status \<Rightarrow> bool" where
  "status_active st \<longleftrightarrow> st_Session st \<noteq> None"

text \<open>
  \<open>starting\<close> is the start guard, \<open>appliers\<close> the reconnect registry, \<open>cancelled\<close> the tokens
  whose context is cancelled, \<open>cleaned\<close> those whose speaker cleanup, which works once, has run,
  \<open>in_voice\<close> the bots Discord has in a voice channel of a guild.
\<close>

record 's Service =
  statuses :: "snowflake \<rightharpoonup> Status"
  activeRouters :: "snowflake \<rightharpoonup> nat"
  sv_store :: 's
  sv_sessions :: Manager
  starting :: "snowflake \<rightharpoonup> nat"
  appliers :: "(snowflake \<times> snowflake) set"
  cancelled :: "nat set"
  cleaned :: "nat set"
  in_voice :: "(snowflake \<times> snowflake) set"

text \<open>
  The rest of the world: the owner bot, the pool's bots in order, the client of a bot (if its
  gateway is connected) with its own user (if cached), and what the caches hold.
\<close>

record discord =
  ownerBotID :: snowflake
  GetIDs :: "snowflake list"
  SelfUser :: "snowflake \<Rightarrow> (snowflake \<times> string) option option"
  isGuildMember :: "snowflake \<Rightarrow> snowflake \<Rightarrow> bool"
  channelExists :: "snowflake \<Rightarrow> bool"
  guildName :: "snowflake \<Rightarrow> string option"
  showID :: "snowflake \<Rightarrow> string"

definition all_bots :: "discord \<Rightarrow> snowflake list" where
  "all_bots dc = ownerBotID dc # GetIDs dc"

definition HasActiveSession :: "snowflake \<Rightarrow> 's Service \<Rightarrow> bool" where
  "HasActiveSession g m \<longleftrightarrow> (case statuses m g of None \<Rightarrow> False | Some st \<Rightarrow> status_active st)"

definition upd_status :: "snowflake \<Rightarrow> (Status \<Rightarrow> Status) \<Rightarrow> 's Service \<Rightarrow> 's Service" where
  "upd_status g f m = (case statuses m g of None \<Rightarrow> m | Some st \<Rightarrow> m\<lparr>statuses := (statuses m)(g \<mapsto> f st)\<rparr>)"

section \<open>Routers of the active sessions\<close>

definition setActiveRouter :: "snowflake \<Rightarrow> nat option \<Rightarrow> 's Service \<Rightarrow> 's Service" where
  "setActiveRouter g r m = m\<lparr>activeRouters := (activeRouters m)(g := r)\<rparr>"

definition clearActiveRouter :: "snowflake \<Rightarrow> 's Service \<Rightarrow> 's Service" where
  "clearActiveRouter g m = m\<lparr>activeRouters := (activeRouters m)(g := None)\<rparr>"

text \<open>\<^verbatim>\<open>AutoRoute\<close>: the router whose debounce is triggered, if any.\<close>

definition AutoRoute :: "snowflake \<Rightarrow> 's Service \<Rightarrow> nat option" where
  "AutoRoute g m = activeRouters m g"

section \<open>Speakers\<close>

definition newSpeaker :: "'s Store \<Rightarrow> discord \<Rightarrow> snowflake \<Rightarrow> snowflake \<Rightarrow> 's \<Rightarrow> string + Speaker" where
  "newSpeaker S dc g b s =
     (case SelfUser dc b of
        None \<Rightarrow> Inl ''new speaker: no client''
      | Some None \<Rightarrow> Inl ''new speaker: no self user''
      | Some (Some (i, name)) \<Rightarrow> Inr \<lparr>spk_ID = i, Username = name, Enabled = s_IsSpeakerEnabled S g i s\<rparr>)"

definition add_seeded :: "string + Speaker \<Rightarrow> Status \<Rightarrow> Status" where
  "add_seeded init st =
     (case init of
        Inl err \<Rightarrow> st
      | Inr sp \<Rightarrow> if map_of (Speakers st) (spk_ID sp) \<noteq> None then st
                  else st\<lparr>Speakers := AList.update (spk_ID sp) sp (Speakers st)\<rparr>)"

definition seedGuildSpeakers :: "'s Store \<Rightarrow> discord \<Rightarrow> snowflake \<Rightarrow> 's Service \<Rightarrow> 's Service" where
  "seedGuildSpeakers S dc g m =
     (let inits = map (\<lambda>b. newSpeaker S dc g b (sv_store m)) (filter (isGuildMember dc g) (GetIDs dc));
          st = (case statuses m g of None \<Rightarrow> NewStatus g (ownerBotID dc) | Some st \<Rightarrow> st)
      in m\<lparr>statuses := (statuses m)(g \<mapsto> fold add_seeded inits st)\<rparr>)"

definition NextSpeakerID :: "discord \<Rightarrow> snowflake \<Rightarrow> 's Service \<Rightarrow> snowflake option" where
  "NextSpeakerID dc g m =
     (let registered = (case statuses m g of None \<Rightarrow> {} | Some st \<Rightarrow> fst ` set (Speakers st))
      in find (\<lambda>b. b \<notin> registered \<and> \<not> isGuildMember dc g b) (GetIDs dc))"

definition HasAvailableToken :: "discord \<Rightarrow> snowflake \<Rightarrow> 's Service \<Rightarrow> bool" where
  "HasAvailableToken dc g m \<longleftrightarrow> NextSpeakerID dc g m \<noteq> None"

definition ToggleSpeaker :: "'s Store \<Rightarrow> snowflake \<Rightarrow> snowflake \<Rightarrow> bool \<Rightarrow> 's Service \<Rightarrow> string option \<times> 's Service" where
  "ToggleSpeaker S g b enabled m =
     (case statuses m g of
        None \<Rightarrow> (Some ''toggle speaker: guild not registered'', m)
      | Some st \<Rightarrow>
          (case map_of (Speakers st) b of
             None \<Rightarrow> (Some ''toggle speaker: speaker not registered in guild'', m)
           | Some sp \<Rightarrow>
               (None, m\<lparr>statuses := (statuses m)(g \<mapsto> st\<lparr>Speakers := AList.update b (sp\<lparr>Enabled := enabled\<rparr>) (Speakers st)\<rparr>),
                        sv_store := s_SetSpeakerEnabled S g b enabled (sv_store m)\<rparr>)))"

definition RemoveSpeaker :: "snowflake \<Rightarrow> snowflake \<Rightarrow> 's Service \<Rightarrow> 's Service" where
  "RemoveSpeaker g b m = upd_status g (\<lambda>st. st\<lparr>Speakers := AList.delete b (Speakers st)\<rparr>) m"

definition TrySeedMember :: "'s Store \<Rightarrow> discord \<Rightarrow> snowflake \<Rightarrow> snowflake \<Rightarrow> 's Service \<Rightarrow> 's Service" where
  "TrySeedMember S dc g b m =
     (case newSpeaker S dc g b (sv_store m) of
        Inl err \<Rightarrow> m
      | Inr sp \<Rightarrow>
          upd_status g (\<lambda>st. case map_of (Speakers st) b of
              None \<Rightarrow> st\<lparr>Speakers := AList.update b sp (Speakers st)\<rparr>
            | Some old \<Rightarrow> st\<lparr>Speakers := AList.update b (old\<lparr>Username := Username sp\<rparr>) (Speakers st)\<rparr>) m)"

section \<open>Channel bindings\<close>

definition liveBoundChannel :: "'s Store \<Rightarrow> discord \<Rightarrow> snowflake \<Rightarrow> snowflake \<Rightarrow> 's \<Rightarrow> snowflake option" where
  "liveBoundChannel S dc g b s =
     (case s_GetBoundChannel S g b s of None \<Rightarrow> None | Some c \<Rightarrow> if channelExists dc c then Some c else None)"

text \<open>\<open>Inl b\<close>: the channel is taken by bot \<open>b\<close> (\<^verbatim>\<open>ChannelTakenError\<close>).\<close>

definition M_BindChannel :: "'s Store \<Rightarrow> discord \<Rightarrow> snowflake \<Rightarrow> snowflake \<Rightarrow> snowflake \<Rightarrow> 's \<Rightarrow> snowflake + 's" where
  "M_BindChannel S dc g u c s =
     (case find (\<lambda>b. b \<noteq> u \<and> s_GetBoundChannel S g b s = Some c) (all_bots dc) of
        Some b \<Rightarrow> Inl b
      | None \<Rightarrow> Inr (s_BindChannel S g u c s))"

definition unbindChannels :: "'s Store \<Rightarrow> discord \<Rightarrow> snowflake \<Rightarrow> (snowflake \<Rightarrow> bool) \<Rightarrow> 's \<Rightarrow> 's" where
  "unbindChannels S dc g gone s =
     fold (\<lambda>b s. case s_GetBoundChannel S g b s of
             None \<Rightarrow> s
           | Some c \<Rightarrow> if gone c then s_UnbindChannel S g b s else s) (all_bots dc) s"

definition ChannelDeleted :: "'s Store \<Rightarrow> discord \<Rightarrow> snowflake \<Rightarrow> snowflake \<Rightarrow> 's \<Rightarrow> 's" where
  "ChannelDeleted S dc g c s = unbindChannels S dc g (\<lambda>x. x = c) s"

text \<open>The part of \<^verbatim>\<open>warmGuildCache\<close> that acts on a fetched channel list.\<close>

definition drop_stale_bindings :: "'s Store \<Rightarrow> discord \<Rightarrow> snowflake \<Rightarrow> snowflake list \<Rightarrow> 's \<Rightarrow> 's" where
  "drop_stale_bindings S dc g existing s = unbindChannels S dc g (\<lambda>c. c \<notin> set existing) s"

definition snapshotSpeakers :: "snowflake \<Rightarrow> 's Service \<Rightarrow> string + Speaker list" where
  "snapshotSpeakers g m =
     (case statuses m g of
        None \<Rightarrow> Inl ErrNoGuildStatus
      | Some st \<Rightarrow> if status_active st then Inl ErrSessionExists else Inr (map snd (Speakers st)))"

definition SpeakersWithMissingChannel :: "'s Store \<Rightarrow> discord \<Rightarrow> snowflake \<Rightarrow> 's Service \<Rightarrow> (snowflake \<times> snowflake) list" where
  "SpeakersWithMissingChannel S dc g m =
     (case snapshotSpeakers g m of
        Inl err \<Rightarrow> []
      | Inr sps \<Rightarrow>
          concat (map (\<lambda>sp. if \<not> Enabled sp then [] else
            (case s_GetBoundChannel S g (spk_ID sp) (sv_store m) of
               None \<Rightarrow> []
             | Some c \<Rightarrow> if channelExists dc c then [] else [(spk_ID sp, c)])) sps))"

section \<open>Roles\<close>

definition HasManagerRole :: "'s Store \<Rightarrow> snowflake \<Rightarrow> snowflake list \<Rightarrow> 's \<Rightarrow> bool" where
  "HasManagerRole S g member_roles s \<longleftrightarrow>
     (case s_GetBoundRole S g RoleTypeManager s of None \<Rightarrow> False | Some r \<Rightarrow> r \<in> set member_roles)"

definition HasCallerRole :: "'s Store \<Rightarrow> snowflake \<Rightarrow> snowflake list \<Rightarrow> 's \<Rightarrow> bool" where
  "HasCallerRole S g member_roles s \<longleftrightarrow>
     (case s_GetBoundRole S g RoleTypeCaller s of None \<Rightarrow> False | Some r \<Rightarrow> r \<in> set member_roles)"

definition hasBoundCallerRole :: "'s Store \<Rightarrow> snowflake \<Rightarrow> 's \<Rightarrow> bool" where
  "hasBoundCallerRole S g s \<longleftrightarrow> s_GetBoundRole S g RoleTypeCaller s \<noteq> None"

section \<open>Status snapshots\<close>

definition snapshotLocked :: "discord \<Rightarrow> snowflake \<Rightarrow> 's Service \<Rightarrow> Status" where
  "snapshotLocked dc g m =
     (case statuses m g of
        None \<Rightarrow> NewStatus g (ownerBotID dc)
      | Some st \<Rightarrow> st\<lparr>st_Session := map_option (\<lambda>se. se\<lparr>gs_AutoRouter := None\<rparr>) (st_Session st)\<rparr>)"

definition enrichBindings :: "'s Store \<Rightarrow> discord \<Rightarrow> snowflake \<Rightarrow> 's \<Rightarrow> Status \<Rightarrow> Status" where
  "enrichBindings S dc g s st =
     (let bind = (\<lambda>b bc. case s_GetBoundChannel S g b s of None \<Rightarrow> bc | Some c \<Rightarrow> AList.update b c bc);
          st1 = st\<lparr>BoundChannels := fold bind (map fst (Speakers st)) (BoundChannels st)\<rparr>;
          st2 = (case s_GetBoundRole S g RoleTypeCaller s of None \<Rightarrow> st1 | Some r \<Rightarrow> st1\<lparr>CallerRoleID := Some r\<rparr>);
          st3 = (case s_GetBoundRole S g RoleTypeManager s of None \<Rightarrow> st2 | Some r \<Rightarrow> st2\<lparr>ManagerRoleID := Some r\<rparr>);
          st4 = st3\<lparr>OwnerUserID := ownerBotID dc, BoundChannels := bind (ownerBotID dc) (BoundChannels st3)\<rparr>;
          st5 = (case s_GetAllyCode S g s of None \<Rightarrow> st4 | Some c \<Rightarrow> st4\<lparr>st_AllyCode := c\<rparr>)
      in (case guildName dc g of None \<Rightarrow> st5 | Some n \<Rightarrow> st5\<lparr>st_GuildName := n\<rparr>))"

definition enrichRelayInfo :: "discord \<Rightarrow> snowflake \<Rightarrow> Manager \<Rightarrow> Status \<Rightarrow> Status" where
  "enrichRelayInfo dc g am st =
     (case (st_Session st, GetByGuild g am) of
        (Some se, Some i) \<Rightarrow>
          let rs = session_heap am i in
          if gs_IsGuest se
          then (case guildName dc (HostGuildID rs) of None \<Rightarrow> st | Some n \<Rightarrow> st\<lparr>HostGuildName := n\<rparr>)
          else st\<lparr>GuestGuildNames := GuestGuildNames st @
                 map (\<lambda>h. case guildName dc h of None \<Rightarrow> showID dc h | Some n \<Rightarrow> n) (GuestGuildIDs rs)\<rparr>
      | _ \<Rightarrow> st)"

definition GetStatus :: "'s Store \<Rightarrow> discord \<Rightarrow> snowflake \<Rightarrow> 's Service \<Rightarrow> Status" where
  "GetStatus S dc g m =
     enrichRelayInfo dc g (sv_sessions m) (enrichBindings S dc g (sv_store m) (snapshotLocked dc g m))"

text \<open>The channels the idle watcher looks at.\<close>

definition sessionChannels :: "'s Store \<Rightarrow> discord \<Rightarrow> snowflake \<Rightarrow> guild_session \<Rightarrow> 's \<Rightarrow> snowflake list" where
  "sessionChannels S dc g se s =
     fold (\<lambda>b chs. case s_GetBoundChannel S g b s of
             None \<Rightarrow> chs
           | Some c \<Rightarrow> if c = 0 \<or> c \<in> set chs then chs else chs @ [c])
       (ownerBotID dc # map spk_ID (gs_Speakers se)) []"

section \<open>One bot per channel\<close>

text \<open>The commands and events that change channel bindings; \<open>u\<close> is the owner or a pool bot.\<close>

datatype bind_op =
    BindOp snowflake snowflake snowflake
  | UnbindOp snowflake snowflake
  | DeletedOp snowflake snowflake
  | WarmOp snowflake "snowflake list"

fun do_bind :: "'s Store \<Rightarrow> discord \<Rightarrow> bind_op \<Rightarrow> 's \<Rightarrow> 's" where
  "do_bind S dc (BindOp g u c) s = (case M_BindChannel S dc g u c s of Inl b \<Rightarrow> s | Inr s' \<Rightarrow> s')"
| "do_bind S dc (UnbindOp g u) s = s_UnbindChannel S g u s"
| "do_bind S dc (DeletedOp g c) s = ChannelDeleted S dc g c s"
| "do_bind S dc (WarmOp g existing) s = drop_stale_bindings S dc g existing s"

fun known_bot :: "discord \<Rightarrow> bind_op \<Rightarrow> bool" where
  "known_bot dc (BindOp g u c) \<longleftrightarrow> u \<in> set (all_bots dc)"
| "known_bot dc _ \<longleftrightarrow> True"

definition one_bot_per_channel :: "'s Store \<Rightarrow> discord \<Rightarrow> 's \<Rightarrow> bool" where
  "one_bot_per_channel S dc s \<longleftrightarrow>
     (\<forall>g c b b'. b \<in> set (all_bots dc) \<longrightarrow> b' \<in> set (all_bots dc) \<longrightarrow>
        s_GetBoundChannel S g b s = Some c \<longrightarrow> s_GetBoundChannel S g b' s = Some c \<longrightarrow> b = b')"

context store_laws
begin

lemma get_bind:
  "s_GetBoundChannel S g b (s_BindChannel S g' u c s) = (if b = u \<and> g = g' then Some c else s_GetBoundChannel S g b s)"
  by (auto simp: get_channel bind_channel)

lemma get_unbind:
  "s_GetBoundChannel S g b (s_UnbindChannel S g' u s) = (if b = u \<and> g = g' then None else s_GetBoundChannel S g b s)"
  by (auto simp: get_channel unbind_channel)

lemma unbind_fold:
  "s_GetBoundChannel S g' b (fold (\<lambda>b s. case s_GetBoundChannel S g b s of
             None \<Rightarrow> s
           | Some c \<Rightarrow> if gone c then s_UnbindChannel S g b s else s) bs s) =
     (if g' = g \<and> b \<in> set bs \<and> (\<exists>c. s_GetBoundChannel S g b s = Some c \<and> gone c) then None
      else s_GetBoundChannel S g' b s)"
proof (induction bs arbitrary: s b g')
  case (Cons x bs)
  show ?case
  proof (cases "s_GetBoundChannel S g x s")
    case None
    then show ?thesis by (auto simp: Cons.IH)
  next
    case (Some c)
    show ?thesis
    proof (cases "gone c")
      case False
      then show ?thesis using Some by (auto simp: Cons.IH)
    next
      case True
      show ?thesis
      proof (cases "b = x")
        case True
        then show ?thesis using Some \<open>gone c\<close> by (auto simp: Cons.IH get_unbind)
      next
        case False
        then show ?thesis using Some \<open>gone c\<close> by (auto simp: Cons.IH get_unbind)
      qed
    qed
  qed
qed simp

lemma unbindChannels_get:
  "s_GetBoundChannel S g' b (unbindChannels S dc g gone s) =
     (if g' = g \<and> b \<in> set (all_bots dc) \<and> (\<exists>c. s_GetBoundChannel S g b s = Some c \<and> gone c) then None
      else s_GetBoundChannel S g' b s)"
  unfolding unbindChannels_def by (rule unbind_fold)

lemma fewer_bindings_exclusive:
  "one_bot_per_channel S dc s \<Longrightarrow>
   (\<And>g b c. s_GetBoundChannel S g b s' = Some c \<Longrightarrow> s_GetBoundChannel S g b s = Some c) \<Longrightarrow>
   one_bot_per_channel S dc s'"
  unfolding one_bot_per_channel_def by blast

lemma do_bind_exclusive:
  assumes "one_bot_per_channel S dc s" and "known_bot dc op"
  shows "one_bot_per_channel S dc (do_bind S dc op s)"
proof (cases op)
  case (BindOp g u c)
  show ?thesis
  proof (cases "M_BindChannel S dc g u c s")
    case (Inr s')
    then have s': "s' = s_BindChannel S g u c s"
      and free: "\<And>b. b \<in> set (all_bots dc) \<Longrightarrow> b \<noteq> u \<Longrightarrow> s_GetBoundChannel S g b s \<noteq> Some c"
      by (auto simp: M_BindChannel_def find_None_iff split: option.splits)
    show ?thesis unfolding BindOp do_bind.simps Inr s' one_bot_per_channel_def sum.case
    proof (intro allI impI)
      fix g' c' b b'
      assume b: "b \<in> set (all_bots dc)" "b' \<in> set (all_bots dc)"
        and bound: "s_GetBoundChannel S g' b (s_BindChannel S g u c s) = Some c'"
          "s_GetBoundChannel S g' b' (s_BindChannel S g u c s) = Some c'"
      show "b = b'"
      proof (cases "g' = g \<and> (b = u \<or> b' = u)")
        case True
        then show ?thesis using b bound free by (auto simp: get_bind split: if_splits)
      next
        case False
        then have "s_GetBoundChannel S g' b s = Some c'" "s_GetBoundChannel S g' b' s = Some c'"
          using bound by (auto simp: get_bind split: if_splits)
        then show ?thesis using assms(1) b unfolding one_bot_per_channel_def by blast
      qed
    qed
  next
    case (Inl b)
    then show ?thesis using assms(1) BindOp by simp
  qed
next
  case (UnbindOp g u)
  show ?thesis unfolding UnbindOp do_bind.simps
    by (rule fewer_bindings_exclusive [OF assms(1)]) (simp add: get_unbind split: if_splits)
next
  case (DeletedOp g c)
  show ?thesis unfolding DeletedOp do_bind.simps ChannelDeleted_def
    by (rule fewer_bindings_exclusive [OF assms(1)]) (simp add: unbindChannels_get split: if_splits)
next
  case (WarmOp g existing)
  show ?thesis unfolding WarmOp do_bind.simps drop_stale_bindings_def
    by (rule fewer_bindings_exclusive [OF assms(1)]) (simp add: unbindChannels_get split: if_splits)
qed

lemma do_binds_exclusive:
  "one_bot_per_channel S dc s \<Longrightarrow> list_all (known_bot dc) ops \<Longrightarrow> one_bot_per_channel S dc (fold (do_bind S dc) ops s)"
  by (induction ops arbitrary: s) (auto intro: do_bind_exclusive)

end

text \<open>
  C17. One bot per channel: starting from bindings in which no two bots of a guild share a channel (an
  empty store, say), no sequence of binds, unbinds, deleted channels and cache warm-ups makes the
  owner bot or two pool bots share one; a bind that would is refused.
\<close>

theorem bindings_stay_exclusive:
  assumes "one_bot_per_channel yaml_store dc s" and "list_all (known_bot dc) ops"
  shows "one_bot_per_channel yaml_store dc (fold (do_bind yaml_store dc) ops s)"
  using assms by (rule yaml.do_binds_exclusive)

definition small_world :: discord where
  "small_world = \<lparr>ownerBotID = 30, GetIDs = [31, 32, 33],
     SelfUser = (\<lambda>b. Some (Some (b, ''bot''))), isGuildMember = (\<lambda>g b. b \<noteq> 33), channelExists = (\<lambda>c. c \<noteq> 99),
     guildName = (\<lambda>g. Some ''guild''), showID = (\<lambda>_. ''id'')\<rparr>"

lemma empty_store_exclusive: "one_bot_per_channel yaml_store dc (empty_YAMLStore p)"
  by (simp add: one_bot_per_channel_def yaml.get_channel view_of_def empty_YAMLStore_def)

lemma bindings_stay_exclusive_witness:
  "s_GetBoundChannel yaml_store 9 32
     (fold (do_bind yaml_store small_world) [BindOp 9 30 20, BindOp 9 31 21, BindOp 9 32 21] (empty_YAMLStore [])) \<noteq> Some 21"
proof -
  let ?s = "fold (do_bind yaml_store small_world) [BindOp 9 30 20, BindOp 9 31 21, BindOp 9 32 21] (empty_YAMLStore [])"
  have "one_bot_per_channel yaml_store small_world ?s"
    by (rule bindings_stay_exclusive [OF empty_store_exclusive]) (auto simp: all_bots_def small_world_def)
  moreover have "s_GetBoundChannel yaml_store 9 31 ?s = Some 21"
    by (simp add: M_BindChannel_def all_bots_def small_world_def yaml.get_bind)
      (simp add: yaml.get_channel view_of_def empty_YAMLStore_def)
  moreover have "(31::snowflake) \<in> set (all_bots small_world)" "(32::snowflake) \<in> set (all_bots small_world)"
    by (simp_all add: all_bots_def small_world_def)
  ultimately have "s_GetBoundChannel yaml_store 9 32 ?s = Some 21 \<Longrightarrow> (31::snowflake) = 32"
    unfolding one_bot_per_channel_def by blast
  then show ?thesis by auto
qed

text \<open>
  A deleted channel unbinds exactly the bots bound to it: afterwards no bot of the guild is bound to
  that channel, and every other binding, of this or another guild, is what it was.
\<close>

theorem ChannelDeleted_exact:
  assumes "b \<in> set (all_bots dc)"
  shows "s_GetBoundChannel yaml_store g' b (ChannelDeleted yaml_store dc g c s) =
    (if g' = g \<and> s_GetBoundChannel yaml_store g b s = Some c then None
     else s_GetBoundChannel yaml_store g' b s)"
  using assms by (auto simp: ChannelDeleted_def yaml.unbindChannels_get)

lemma ChannelDeleted_exact_witness:
  "s_GetBoundChannel yaml_store 9 31
     (ChannelDeleted yaml_store small_world 9 21 (s_BindChannel yaml_store 9 31 21 (empty_YAMLStore []))) = None"
  using ChannelDeleted_exact [of 31 small_world 9 9 21] by (simp add: all_bots_def small_world_def yaml.get_bind)

section \<open>The enabled flags are persistent\<close>

datatype speaker_op =
    SeedOp snowflake
  | ToggleOp snowflake snowflake bool
  | RemoveOp snowflake snowflake
  | MemberOp snowflake snowflake

fun do_speaker :: "'s Store \<Rightarrow> discord \<Rightarrow> speaker_op \<Rightarrow> 's Service \<Rightarrow> 's Service" where
  "do_speaker S dc (SeedOp g) m = seedGuildSpeakers S dc g m"
| "do_speaker S dc (ToggleOp g b on) m = snd (ToggleSpeaker S g b on m)"
| "do_speaker S dc (RemoveOp g b) m = RemoveSpeaker g b m"
| "do_speaker S dc (MemberOp g b) m = TrySeedMember S dc g b m"

definition speakers_synced :: "'s Store \<Rightarrow> snowflake \<Rightarrow> 's \<Rightarrow> (snowflake \<times> Speaker) list \<Rightarrow> bool" where
  "speakers_synced S g s sps \<longleftrightarrow>
     (\<forall>b sp. map_of sps b = Some sp \<longrightarrow> spk_ID sp = b \<and> Enabled sp = s_IsSpeakerEnabled S g b s)"

definition service_synced :: "'s Store \<Rightarrow> 's Service \<Rightarrow> bool" where
  "service_synced S m \<longleftrightarrow>
     (\<forall>g st. statuses m g = Some st \<longrightarrow> speakers_synced S g (sv_store m) (Speakers st))"

text \<open>The pool keys its clients by their own user ID.\<close>

definition pool_keyed :: "discord \<Rightarrow> bool" where
  "pool_keyed dc \<longleftrightarrow> (\<forall>b i name. SelfUser dc b = Some (Some (i, name)) \<longrightarrow> i = b)"

lemma newSpeaker_synced:
  "pool_keyed dc \<Longrightarrow> newSpeaker S dc g b s = Inr sp \<Longrightarrow> spk_ID sp = b \<and> Enabled sp = s_IsSpeakerEnabled S g b s"
proof -
  assume k: "pool_keyed dc" and n: "newSpeaker S dc g b s = Inr sp"
  from n obtain i name where u: "SelfUser dc b = Some (Some (i, name))"
    and sp: "sp = \<lparr>spk_ID = i, Username = name, Enabled = s_IsSpeakerEnabled S g i s\<rparr>"
    by (auto simp: newSpeaker_def split: option.splits)
  from k u have "i = b" unfolding pool_keyed_def by blast
  with sp show ?thesis by simp
qed

lemma add_seeded_synced:
  "speakers_synced S g s (Speakers st) \<Longrightarrow>
   (\<And>sp. init = Inr sp \<Longrightarrow> Enabled sp = s_IsSpeakerEnabled S g (spk_ID sp) s) \<Longrightarrow>
   speakers_synced S g s (Speakers (add_seeded init st))"
  by (auto simp: add_seeded_def speakers_synced_def update_conv' split: sum.splits)

lemma add_seeds_synced:
  "speakers_synced S g s (Speakers st) \<Longrightarrow>
   (\<And>sp. Inr sp \<in> set inits \<Longrightarrow> Enabled sp = s_IsSpeakerEnabled S g (spk_ID sp) s) \<Longrightarrow>
   speakers_synced S g s (Speakers (fold add_seeded inits st))"
proof (induction inits arbitrary: st)
  case (Cons init inits)
  have "speakers_synced S g s (Speakers (add_seeded init st))"
    using Cons.prems by (intro add_seeded_synced) auto
  with Cons show ?case by simp
qed simp

context store_laws
begin

lemma enabled_set:
  "s_IsSpeakerEnabled S g b (s_SetSpeakerEnabled S g' u on s) =
     (if b = u \<and> g = g' then on else s_IsSpeakerEnabled S g b s)"
  by (auto simp: speaker_enabled set_enabled)

lemma do_speaker_synced:
  assumes "pool_keyed dc" and "service_synced S m"
  shows "service_synced S (do_speaker S dc op m)"
proof (cases op)
  case (SeedOp g)
  let ?st = "case statuses m g of None \<Rightarrow> NewStatus g (ownerBotID dc) | Some st \<Rightarrow> st"
  have "speakers_synced S g (sv_store m) (Speakers ?st)"
    using assms(2) by (auto simp: service_synced_def speakers_synced_def NewStatus_def split: option.split)
  moreover have "Enabled sp = s_IsSpeakerEnabled S g (spk_ID sp) (sv_store m)"
    if sp: "Inr sp \<in> set (map (\<lambda>b. newSpeaker S dc g b (sv_store m)) (filter (isGuildMember dc g) (GetIDs dc)))" for sp
  proof -
    obtain b where "Inr sp = newSpeaker S dc g b (sv_store m)"
      using sp by auto
    from newSpeaker_synced [OF assms(1) this [symmetric]] show ?thesis by simp
  qed
  ultimately have "speakers_synced S g (sv_store m) (Speakers (fold add_seeded
      (map (\<lambda>b. newSpeaker S dc g b (sv_store m)) (filter (isGuildMember dc g) (GetIDs dc))) ?st))"
    by (rule add_seeds_synced)
  with assms(2) show ?thesis by (simp add: SeedOp seedGuildSpeakers_def Let_def service_synced_def)
next
  case (ToggleOp g b on)
  show ?thesis
  proof (cases "\<exists>st sp. statuses m g = Some st \<and> map_of (Speakers st) b = Some sp")
    case False
    then have "snd (ToggleSpeaker S g b on m) = m" by (auto simp: ToggleSpeaker_def split: option.split)
    then show ?thesis using assms(2) ToggleOp by simp
  next
    case True
    then obtain st sp where st: "statuses m g = Some st" "map_of (Speakers st) b = Some sp" by blast
    have m': "snd (ToggleSpeaker S g b on m) = m\<lparr>statuses := (statuses m)(g \<mapsto>
        st\<lparr>Speakers := AList.update b (sp\<lparr>Enabled := on\<rparr>) (Speakers st)\<rparr>),
        sv_store := s_SetSpeakerEnabled S g b on (sv_store m)\<rparr>"
      using st by (simp add: ToggleSpeaker_def)
    have other: "speakers_synced S g' (s_SetSpeakerEnabled S g b on (sv_store m)) sps"
      if "speakers_synced S g' (sv_store m) sps" "g' \<noteq> g" for g' sps
      using that by (simp add: speakers_synced_def enabled_set)
    have own: "speakers_synced S g (s_SetSpeakerEnabled S g b on (sv_store m))
        (AList.update b (sp\<lparr>Enabled := on\<rparr>) (Speakers st))"
    proof -
      have "speakers_synced S g (sv_store m) (Speakers st)"
        using assms(2) st by (simp add: service_synced_def)
      then show ?thesis using st by (simp add: speakers_synced_def enabled_set update_conv')
    qed
    show ?thesis unfolding ToggleOp do_speaker.simps m'
      using assms(2) other own by (simp add: service_synced_def)
  qed
next
  case (RemoveOp g b)
  show ?thesis
  proof (cases "statuses m g")
    case None
    then show ?thesis using assms(2) RemoveOp by (simp add: RemoveSpeaker_def upd_status_def)
  next
    case (Some st)
    then have "speakers_synced S g (sv_store m) (Speakers st)"
      using assms(2) by (simp add: service_synced_def)
    then have "speakers_synced S g (sv_store m) (AList.delete b (Speakers st))"
      by (simp add: speakers_synced_def delete_conv')
    then show ?thesis using assms(2) Some RemoveOp
      by (simp add: RemoveSpeaker_def upd_status_def service_synced_def)
  qed
next
  case (MemberOp g b)
  show ?thesis
  proof (cases "newSpeaker S dc g b (sv_store m)")
    case (Inl err)
    then show ?thesis using assms(2) MemberOp by (simp add: TrySeedMember_def)
  next
    case (Inr sp)
    note sp = newSpeaker_synced [OF assms(1) Inr]
    show ?thesis
    proof (cases "statuses m g")
      case None
      then show ?thesis using assms(2) MemberOp Inr by (simp add: TrySeedMember_def upd_status_def)
    next
      case (Some st)
      then have "speakers_synced S g (sv_store m) (Speakers st)"
        using assms(2) by (simp add: service_synced_def)
      then have "speakers_synced S g (sv_store m) (AList.update b sp (Speakers st))"
        "\<And>old. map_of (Speakers st) b = Some old \<Longrightarrow>
           speakers_synced S g (sv_store m) (AList.update b (old\<lparr>Username := Username sp\<rparr>) (Speakers st))"
        using sp by (simp_all add: speakers_synced_def update_conv')
      then show ?thesis using assms(2) Some MemberOp Inr
        by (simp add: TrySeedMember_def upd_status_def service_synced_def split: option.split)
    qed
  qed
qed

end

text \<open>
  The enabled flag of a speaker never drifts from the store: after any sequence of seedings,
  toggles, removals and member joins, every registered speaker is filed under its own ID and enabled exactly if the store says
  so, so a toggle survives a restart and a bot that leaves and rejoins.
\<close>

theorem toggles_persist:
  assumes "pool_keyed dc" and "service_synced yaml_store m"
  shows "service_synced yaml_store (fold (do_speaker yaml_store dc) ops m)"
  using assms(2)
proof (induction ops arbitrary: m)
  case (Cons op ops)
  with yaml.do_speaker_synced [OF assms(1) Cons.prems, of op] show ?case by simp
qed simp

definition new_service :: "'s \<Rightarrow> (nat \<Rightarrow> Session) \<Rightarrow> 's Service" where
  "new_service s h = \<lparr>statuses = Map.empty, activeRouters = Map.empty, sv_store = s,
     sv_sessions = NewManager h, starting = Map.empty, appliers = {}, cancelled = {}, cleaned = {}, in_voice = {}\<rparr>"

abbreviation small_service :: "YAMLStore Service" where
  "small_service \<equiv> new_service (empty_YAMLStore []) (\<lambda>_. newSession [] 0 [])"

lemma toggles_persist_witness:
  "service_synced yaml_store
     (fold (do_speaker yaml_store small_world) [SeedOp 9, ToggleOp 9 31 False, RemoveOp 9 31, MemberOp 9 31] small_service)"
  by (rule toggles_persist) (auto simp: pool_keyed_def small_world_def service_synced_def new_service_def)

text \<open>
  Seeding a guild does not give it a relay code: \<^verbatim>\<open>seedGuildSpeakers\<close> leaves the store as it is.
\<close>

theorem seeding_creates_no_code:
  "sv_store (seedGuildSpeakers S dc g m) = sv_store m \<and>
   (s_GetAllyCode S g (sv_store m) = None \<longleftrightarrow> s_GetAllyCode S g (sv_store (seedGuildSpeakers S dc g m)) = None)"
  by (simp add: seedGuildSpeakers_def Let_def)

section \<open>The next bot to invite\<close>

text \<open>
  \<^verbatim>\<open>NextSpeakerID\<close> offers the first bot of the pool that is neither registered in the guild nor a
  member of it, and offers none only if there is none.
\<close>

theorem NextSpeakerID_first_free:
  "(case NextSpeakerID dc g m of
      Some b \<Rightarrow> b \<in> set (GetIDs dc) \<and> \<not> isGuildMember dc g b \<and>
        (case statuses m g of None \<Rightarrow> True | Some st \<Rightarrow> b \<notin> fst ` set (Speakers st)) \<and>
        HasAvailableToken dc g m
    | None \<Rightarrow> \<not> HasAvailableToken dc g m \<and>
        list_all (\<lambda>b. isGuildMember dc g b \<or>
          (case statuses m g of None \<Rightarrow> False | Some st \<Rightarrow> b \<in> fst ` set (Speakers st))) (GetIDs dc))"
proof (cases "NextSpeakerID dc g m")
  case None
  then have "\<forall>b \<in> set (GetIDs dc). b \<in> (case statuses m g of None \<Rightarrow> {} | Some st \<Rightarrow> fst ` set (Speakers st)) \<or>
      isGuildMember dc g b"
    by (auto simp: NextSpeakerID_def Let_def find_None_iff)
  then show ?thesis using None by (auto simp: HasAvailableToken_def list_all_iff split: option.splits)
next
  case (Some b)
  then have "b \<in> set (GetIDs dc) \<and> b \<notin> (case statuses m g of None \<Rightarrow> {} | Some st \<Rightarrow> fst ` set (Speakers st)) \<and>
      \<not> isGuildMember dc g b"
    by (auto simp: NextSpeakerID_def Let_def find_Some_iff)
  then show ?thesis using Some by (auto simp: HasAvailableToken_def split: option.splits)
qed

end
