(* ===== verification/Routes.thy ===== *)
theory Routes
  imports Prelude
begin

text \<open>
  The cascade rule of the auto-router: \<^verbatim>\<open>computeRoutes\<close> of
  \<^verbatim>\<open>internal/manager/router/router.go\<close>.  From the number of callers in every captured
  channel it derives a mode per source and, per destination, whether its mixer must run.

  The rule iterates a promotion to a fixpoint.  The theory proves that the loop ends, states the
  rule once more as a least fixpoint (\<open>forced\<close>), proves that the loop computes it, and draws the
  consequences the audio path relies on.
\<close>

section \<open>The code\<close>

datatype RouteMode = RouteOff | RouteCopy | RouteMix

definition RouteMode_String :: "RouteMode \<Rightarrow> string" where
  "RouteMode_String m = (case m of RouteOff \<Rightarrow> ''off'' | RouteCopy \<Rightarrow> ''copy'' | RouteMix \<Rightarrow> ''mix'')"

record routeSource =
  rs_id :: snowflake
  rs_channelID :: snowflake

record routeDest =
  rd_channelID :: snowflake
  rd_sourceIDs :: "snowflake list"

type_synonym modes = "snowflake \<rightharpoonup> RouteMode"
type_synonym flags = "snowflake \<rightharpoonup> bool"

abbreviation mode_of :: "modes \<Rightarrow> snowflake \<Rightarrow> RouteMode" where
  "mode_of \<equiv> map_get RouteOff"

abbreviation flag_of :: "flags \<Rightarrow> snowflake \<Rightarrow> bool" where
  "flag_of \<equiv> map_get False"

definition baseline :: "int \<Rightarrow> RouteMode" where
  "baseline c = (if c \<le> 0 then RouteOff else if c = 1 then RouteCopy else RouteMix)"

definition initial_modes :: "routeSource list \<Rightarrow> (snowflake \<rightharpoonup> int) \<Rightarrow> modes" where
  "initial_modes sources callerCounts =
     fold (\<lambda>s m. m(rs_id s \<mapsto> baseline (map_get 0 callerCounts (rs_channelID s)))) sources Map.empty"

definition live_count :: "modes \<Rightarrow> snowflake list \<Rightarrow> nat" where
  "live_count m ids = length (filter (\<lambda>i. mode_of m i \<noteq> RouteOff) ids)"

definition mix_count :: "modes \<Rightarrow> snowflake list \<Rightarrow> nat" where
  "mix_count m ids = length (filter (\<lambda>i. mode_of m i = RouteMix) ids)"

definition needs_mix :: "flags \<Rightarrow> modes \<Rightarrow> routeDest \<Rightarrow> bool" where
  "needs_mix relayFed m d \<longleftrightarrow>
     mix_count m (rd_sourceIDs d) > 0 \<or> live_count m (rd_sourceIDs d) \<ge> 2 \<or>
     flag_of relayFed (rd_channelID d)"

text \<open>The inner loop over \<^verbatim>\<open>d.sourceIDs\<close>; the boolean is \<^verbatim>\<open>changed\<close>.\<close>

fun promote :: "snowflake list \<Rightarrow> modes \<times> bool \<Rightarrow> modes \<times> bool" where
  "promote [] (m, changed) = (m, changed)"
| "promote (i # ids) (m, changed) =
     (if mode_of m i = RouteCopy then promote ids (m(i \<mapsto> RouteMix), True)
      else promote ids (m, changed))"

fun visit_dest :: "flags \<Rightarrow> routeDest \<Rightarrow> (modes \<times> flags) \<times> bool \<Rightarrow> (modes \<times> flags) \<times> bool" where
  "visit_dest relayFed d ((m, dm), changed) =
     (if \<not> needs_mix relayFed m d then ((m, dm), changed)
      else
        let (dm', changed1) =
              (if \<not> flag_of dm (rd_channelID d) then (dm(rd_channelID d \<mapsto> True), True)
               else (dm, changed));
            (m', changed2) = promote (rd_sourceIDs d) (m, changed1)
        in ((m', dm'), changed2))"

definition cascade_pass :: "flags \<Rightarrow> routeDest list \<Rightarrow> modes \<times> flags \<Rightarrow> (modes \<times> flags) \<times> bool" where
  "cascade_pass relayFed dests st = fold (visit_dest relayFed) dests (st, False)"

text \<open>
  The loop ends: a pass that reports a change has either put a destination into
  \<^verbatim>\<open>destMix\<close> or taken a source out of copy mode, and both are finitely many.
\<close>

definition pending :: "routeDest list \<Rightarrow> modes \<times> flags \<Rightarrow> nat" where
  "pending dests st =
     card {c \<in> rd_channelID ` set dests. \<not> flag_of (snd st) c}
   + card {i \<in> (\<Union>d \<in> set dests. set (rd_sourceIDs d)). mode_of (fst st) i = RouteCopy}"

lemma promote_modes:
  "mode_of (fst (promote ids (m, ch))) i =
     (if i \<in> set ids \<and> mode_of m i = RouteCopy then RouteMix else mode_of m i)"
  by (induction ids arbitrary: m ch) auto

lemma promote_changed:
  "snd (promote ids (m, ch)) \<longleftrightarrow> ch \<or> (\<exists>i \<in> set ids. mode_of m i = RouteCopy)"
  by (induction ids arbitrary: m ch) (auto split: if_splits)

lemma promote_unchanged:
  "\<forall>i \<in> set ids. mode_of m i \<noteq> RouteCopy \<Longrightarrow> promote ids (m, ch) = (m, ch)"
  by (induction ids) auto

lemma visit_dest_modes:
  "mode_of (fst (fst (visit_dest rf d ((m, dm), ch)))) i =
     (if needs_mix rf m d \<and> i \<in> set (rd_sourceIDs d) \<and> mode_of m i = RouteCopy
      then RouteMix else mode_of m i)"
  by (simp add: Let_def split_def promote_modes)

lemma visit_dest_flags:
  "flag_of (snd (fst (visit_dest rf d ((m, dm), ch)))) c \<longleftrightarrow>
     flag_of dm c \<or> (needs_mix rf m d \<and> c = rd_channelID d)"
  by (auto simp: Let_def split_def)

lemma visit_dest_changed:
  "snd (visit_dest rf d ((m, dm), ch)) \<longleftrightarrow>
     ch \<or> (needs_mix rf m d \<and>
       (\<not> flag_of dm (rd_channelID d) \<or> (\<exists>i \<in> set (rd_sourceIDs d). mode_of m i = RouteCopy)))"
  by (auto simp: Let_def split_def promote_changed)

lemma visit_dest_quiet:
  assumes "\<not> snd (visit_dest rf d ((m, dm), ch))"
  shows "visit_dest rf d ((m, dm), ch) = ((m, dm), ch)"
proof (cases "needs_mix rf m d")
  case True
  with assms have "flag_of dm (rd_channelID d)" "\<forall>i \<in> set (rd_sourceIDs d). mode_of m i \<noteq> RouteCopy"
    by (auto simp: visit_dest_changed simp del: visit_dest.simps)
  then show ?thesis by (simp add: promote_unchanged)
qed simp

declare visit_dest.simps [simp del]

lemma visit_dest_pending_le:
  "pending dests (fst (visit_dest rf d (st, ch))) \<le> pending dests st"
proof -
  obtain m dm where st: "st = (m, dm)" by fastforce
  show ?thesis
    unfolding pending_def st
    by (rule add_mono; rule card_mono) (auto simp: visit_dest_modes visit_dest_flags split: if_splits)
qed

lemma visit_dest_pending_less:
  assumes d: "d \<in> set dests" and "snd (visit_dest rf d (st, False))"
  shows "pending dests (fst (visit_dest rf d (st, False))) < pending dests st"
proof -
  obtain m dm where st: "st = (m, dm)" by fastforce
  let ?st' = "fst (visit_dest rf d (st, False))"
  let ?F = "\<lambda>st. {c \<in> rd_channelID ` set dests. \<not> flag_of (snd st) c}"
  let ?C = "\<lambda>st. {i \<in> (\<Union>d \<in> set dests. set (rd_sourceIDs d)). mode_of (fst st) i = RouteCopy}"
  have le: "card (?F ?st') \<le> card (?F st)" "card (?C ?st') \<le> card (?C st)"
    by (rule card_mono; auto simp: st visit_dest_modes visit_dest_flags split: if_splits)+
  from assms(2) consider
      (flag) "needs_mix rf m d" "\<not> flag_of dm (rd_channelID d)"
    | (copy) i where "needs_mix rf m d" "i \<in> set (rd_sourceIDs d)" "mode_of m i = RouteCopy"
    by (auto simp: st visit_dest_changed)
  then show ?thesis
  proof cases
    case flag
    then have "?F ?st' \<subset> ?F st"
      using d by (auto simp: st visit_dest_flags)
    then have "card (?F ?st') < card (?F st)" by (intro psubset_card_mono) auto
    with le show ?thesis by (simp add: pending_def)
  next
    case copy
    have "?C ?st' \<subset> ?C st"
    proof
      show "?C ?st' \<subseteq> ?C st" by (auto simp: st visit_dest_modes split: if_splits)
      have "i \<in> ?C st" "i \<notin> ?C ?st'" using d copy by (auto simp: st visit_dest_modes)
      then show "?C ?st' \<noteq> ?C st" by blast
    qed
    then have "card (?C ?st') < card (?C st)" by (intro psubset_card_mono) auto
    with le show ?thesis by (simp add: pending_def)
  qed
qed

text \<open>One pass: it changes nothing, or it makes \<open>pending\<close> smaller.\<close>

lemma fold_visit_pending:
  assumes "set ds \<subseteq> set dests"
  shows "pending dests (fst (fold (visit_dest rf) ds (st, ch))) \<le> pending dests st"
    and "\<not> ch \<Longrightarrow> snd (fold (visit_dest rf) ds (st, ch)) \<Longrightarrow>
           pending dests (fst (fold (visit_dest rf) ds (st, ch))) < pending dests st"
proof -
  have "pending dests (fst (fold (visit_dest rf) ds (st, ch))) \<le> pending dests st
      \<and> (\<not> ch \<longrightarrow> snd (fold (visit_dest rf) ds (st, ch)) \<longrightarrow>
           pending dests (fst (fold (visit_dest rf) ds (st, ch))) < pending dests st)"
    using assms
  proof (induction ds arbitrary: st ch)
    case (Cons d ds)
    obtain st1 ch1 where v: "visit_dest rf d (st, ch) = (st1, ch1)" by fastforce
    have le: "pending dests st1 \<le> pending dests st"
      using visit_dest_pending_le [of dests rf d st ch] by (simp add: v)
    have less: "\<not> ch \<Longrightarrow> ch1 \<Longrightarrow> pending dests st1 < pending dests st"
      using visit_dest_pending_less [of d dests rf st] Cons.prems v by auto
    from Cons.IH [of st1 ch1] Cons.prems have
      IH: "pending dests (fst (fold (visit_dest rf) ds (st1, ch1))) \<le> pending dests st1"
          "\<not> ch1 \<Longrightarrow> snd (fold (visit_dest rf) ds (st1, ch1)) \<Longrightarrow>
             pending dests (fst (fold (visit_dest rf) ds (st1, ch1))) < pending dests st1"
      by auto
    show ?case
    proof (cases ch)
      case True
      then show ?thesis using le IH(1) v by simp
    next
      case False
      then have "visit_dest rf d (st, False) = (st1, ch1)" using v by simp
      then show ?thesis using le less IH False by (cases ch1) auto
    qed
  qed simp
  then show "pending dests (fst (fold (visit_dest rf) ds (st, ch))) \<le> pending dests st"
    and "\<not> ch \<Longrightarrow> snd (fold (visit_dest rf) ds (st, ch)) \<Longrightarrow>
           pending dests (fst (fold (visit_dest rf) ds (st, ch))) < pending dests st"
    by blast+
qed

function cascade_loop :: "flags \<Rightarrow> routeDest list \<Rightarrow> modes \<times> flags \<Rightarrow> modes \<times> flags" where
  "cascade_loop relayFed dests st =
     (let (st', changed) = cascade_pass relayFed dests st
      in if changed then cascade_loop relayFed dests st' else st')"
  by pat_completeness auto
termination
proof (relation "measure (\<lambda>(rf, dests, st). pending dests st)", goal_cases)
  case (2 rf dests st p st' changed)
  from 2(1)[folded 2(2)] 2(3) have "fold (visit_dest rf) dests (st, False) = (st', True)"
    by (simp add: cascade_pass_def)
  then have "fst (fold (visit_dest rf) dests (st, False)) = st'"
    "snd (fold (visit_dest rf) dests (st, False))"
    by simp_all
  then show ?case using fold_visit_pending(2) [of dests dests False rf st] by simp
qed simp

declare cascade_loop.simps [simp del]

definition computeRoutes ::
  "routeSource list \<Rightarrow> routeDest list \<Rightarrow> (snowflake \<rightharpoonup> int) \<Rightarrow> flags \<Rightarrow> modes \<times> flags" where
  "computeRoutes sources destinations callerCounts relayFed =
     cascade_loop relayFed destinations (initial_modes sources callerCounts, Map.empty)"

section \<open>The rule as a least fixpoint\<close>

text \<open>
  \<open>forced\<close> is the promotion rule on its own: a source with several callers is mixed, and
  a live source is mixed if it feeds a destination that is relay fed, has two live
  feeders, or has a mixed feeder.
\<close>

definition hot :: "flags \<Rightarrow> modes \<Rightarrow> (snowflake \<Rightarrow> bool) \<Rightarrow> routeDest \<Rightarrow> bool" where
  "hot rf base mixed d \<longleftrightarrow>
     flag_of rf (rd_channelID d) \<or> live_count base (rd_sourceIDs d) \<ge> 2 \<or>
     (\<exists>j \<in> set (rd_sourceIDs d). mixed j)"

lemma hot_mono [mono]: "P \<le> Q \<Longrightarrow> hot rf base P d \<longrightarrow> hot rf base Q d"
  by (auto simp: hot_def)

inductive forced :: "flags \<Rightarrow> routeDest list \<Rightarrow> modes \<Rightarrow> snowflake \<Rightarrow> bool"
  for rf :: flags and dests :: "routeDest list" and base :: modes where
  callers: "mode_of base i = RouteMix \<Longrightarrow> forced rf dests base i"
| cascade: "d \<in> set dests \<Longrightarrow> i \<in> set (rd_sourceIDs d) \<Longrightarrow> mode_of base i \<noteq> RouteOff \<Longrightarrow>
    hot rf base (forced rf dests base) d \<Longrightarrow> forced rf dests base i"

lemma forced_live: "forced rf dests base i \<Longrightarrow> mode_of base i \<noteq> RouteOff"
  by (induction rule: forced.induct) auto

text \<open>What every state of the loop satisfies.\<close>

definition sound :: "flags \<Rightarrow> routeDest list \<Rightarrow> modes \<Rightarrow> modes \<times> flags \<Rightarrow> bool" where
  "sound rf dests base st \<longleftrightarrow>
     (\<forall>i. mode_of (fst st) i = RouteOff \<longleftrightarrow> mode_of base i = RouteOff) \<and>
     (\<forall>i. mode_of base i = RouteMix \<longrightarrow> mode_of (fst st) i = RouteMix) \<and>
     (\<forall>i. mode_of (fst st) i = RouteMix \<longrightarrow> forced rf dests base i) \<and>
     (\<forall>c. flag_of (snd st) c \<longrightarrow>
        (\<exists>d \<in> set dests. rd_channelID d = c \<and> hot rf base (forced rf dests base) d))"

lemma live_count_cong:
  "(\<And>i. mode_of m i = RouteOff \<longleftrightarrow> mode_of m' i = RouteOff) \<Longrightarrow> live_count m ids = live_count m' ids"
  by (simp add: live_count_def)

lemma sound_live_count: "sound rf dests base (m, dm) \<Longrightarrow> live_count m ids = live_count base ids"
  by (rule live_count_cong) (simp add: sound_def)

lemma mix_count_pos: "mix_count m ids > 0 \<longleftrightarrow> (\<exists>i \<in> set ids. mode_of m i = RouteMix)"
  by (auto simp: mix_count_def filter_empty_conv)

lemma sound_needs_mix:
  "sound rf dests base (m, dm) \<Longrightarrow> needs_mix rf m d \<Longrightarrow> hot rf base (forced rf dests base) d"
  unfolding needs_mix_def mix_count_pos hot_def
  by (auto simp: sound_live_count) (auto simp: sound_def)

lemma sound_visit:
  assumes st: "sound rf dests base st" and d: "d \<in> set dests"
  shows "sound rf dests base (fst (visit_dest rf d (st, ch)))"
proof -
  obtain m dm where [simp]: "st = (m, dm)" by fastforce
  have hot: "needs_mix rf m d \<Longrightarrow> hot rf base (forced rf dests base) d"
    using st by (simp add: sound_needs_mix)
  then have promo: "forced rf dests base i"
    if "needs_mix rf m d" "i \<in> set (rd_sourceIDs d)" "mode_of m i = RouteCopy" for i
    using st d that by (intro cascade) (auto simp: sound_def dest: spec [of _ i])
  show ?thesis
    using st d hot promo unfolding sound_def
    by (auto simp: visit_dest_modes visit_dest_flags) (metis RouteMode.distinct(1))+
qed

lemma sound_pass:
  assumes "sound rf dests base st"
  shows "sound rf dests base (fst (cascade_pass rf dests st))"
  unfolding cascade_pass_def
  by (rule fold_invariant) (use assms in \<open>auto intro: sound_visit\<close>)

lemma quiet_fold:
  assumes "\<not> snd (fold (visit_dest rf) ds (st, ch))"
  shows "\<not> ch \<and> fst (fold (visit_dest rf) ds (st, ch)) = st
    \<and> (\<forall>d \<in> set ds. \<not> snd (visit_dest rf d (st, ch)))"
  using assms
proof (induction ds arbitrary: st ch)
  case (Cons d ds)
  obtain m dm where [simp]: "st = (m, dm)" by fastforce
  obtain st1 ch1 where v: "visit_dest rf d (st, ch) = (st1, ch1)" by fastforce
  then have q: "\<not> snd (fold (visit_dest rf) ds (st1, ch1))"
    using Cons.prems by simp
  have IH: "\<not> ch1 \<and> fst (fold (visit_dest rf) ds (st1, ch1)) = st1
    \<and> (\<forall>d \<in> set ds. \<not> snd (visit_dest rf d (st1, ch1)))"
    by (rule Cons.IH [OF q])
  then have "visit_dest rf d (st, ch) = (st, ch)"
    using visit_dest_quiet [of rf d m dm ch] v by (metis \<open>st = (m, dm)\<close> snd_conv)
  with v IH show ?case by auto
qed simp

lemma cascade_loop_result:
  assumes "sound rf dests base st"
  shows "sound rf dests base (cascade_loop rf dests st)
    \<and> (\<forall>d \<in> set dests. \<not> snd (visit_dest rf d (cascade_loop rf dests st, False)))"
  using assms
proof (induction rf dests st rule: cascade_loop.induct)
  case (1 rf dests st)
  obtain st' changed where p: "cascade_pass rf dests st = (st', changed)" by fastforce
  have st': "sound rf dests base st'"
    using sound_pass [OF 1(2)] p by simp
  show ?case
  proof (cases changed)
    case True
    with 1(1) [OF p [symmetric] refl] st' p show ?thesis
      by (subst (1 2) cascade_loop.simps) simp
  next
    case False
    with p quiet_fold [of rf dests st False] st' show ?thesis
      by (subst (1 2) cascade_loop.simps) (auto simp: cascade_pass_def)
  qed
qed

section \<open>What the rule computes\<close>

lemma sound_initial: "sound rf dests base (base, Map.empty)"
  by (simp add: sound_def forced.callers)

lemma computeRoutes_result:
  fixes sources counts
  defines "base \<equiv> initial_modes sources counts"
  assumes r: "computeRoutes sources dests counts rf = (m, dm)"
  shows "sound rf dests base (m, dm)"
    and "d \<in> set dests \<Longrightarrow> needs_mix rf m d \<Longrightarrow>
           flag_of dm (rd_channelID d) \<and> (\<forall>i \<in> set (rd_sourceIDs d). mode_of m i \<noteq> RouteCopy)"
  using cascade_loop_result [OF sound_initial [of rf dests base]] r
  unfolding computeRoutes_def base_def [symmetric] by (auto simp: visit_dest_changed)

lemma forced_iff_mix:
  fixes sources counts
  defines "base \<equiv> initial_modes sources counts"
  assumes r: "computeRoutes sources dests counts rf = (m, dm)"
  shows "mode_of m i = RouteMix \<longleftrightarrow> forced rf dests base i"
proof
  note res = computeRoutes_result [OF r, folded base_def]
  show "mode_of m i = RouteMix \<Longrightarrow> forced rf dests base i"
    using res(1) by (simp add: sound_def)
  show "forced rf dests base i \<Longrightarrow> mode_of m i = RouteMix"
  proof (induction rule: forced.induct)
    case (callers i)
    then show ?case using res(1) by (simp add: sound_def)
  next
    case (cascade d i)
    then have "needs_mix rf m d"
      using sound_live_count [OF res(1)] by (auto simp: hot_def needs_mix_def mix_count_pos)
    with res(2) cascade have "mode_of m i \<noteq> RouteCopy" by blast
    moreover have "mode_of m i \<noteq> RouteOff"
      using res(1) cascade by (simp add: sound_def)
    ultimately show ?case by (cases "mode_of m i") auto
  qed
qed

lemma flag_iff_hot:
  fixes sources counts
  defines "base \<equiv> initial_modes sources counts"
  assumes r: "computeRoutes sources dests counts rf = (m, dm)"
  shows "flag_of dm c \<longleftrightarrow>
    (\<exists>d \<in> set dests. rd_channelID d = c \<and> hot rf base (forced rf dests base) d)"
proof
  note res = computeRoutes_result [OF r, folded base_def]
  show "flag_of dm c \<Longrightarrow>
    \<exists>d \<in> set dests. rd_channelID d = c \<and> hot rf base (forced rf dests base) d"
    using res(1) by (simp add: sound_def)
  assume "\<exists>d \<in> set dests. rd_channelID d = c \<and> hot rf base (forced rf dests base) d"
  then obtain d where d: "d \<in> set dests" "rd_channelID d = c"
      "hot rf base (forced rf dests base) d" by blast
  then have "needs_mix rf m d"
    using sound_live_count [OF res(1)] forced_iff_mix [OF r, folded base_def]
    by (auto simp: hot_def needs_mix_def mix_count_pos)
  with res(2) d show "flag_of dm c" by blast
qed

text \<open>
  C30. The fixpoint loop of \<^verbatim>\<open>computeRoutes\<close> computes exactly the cascade rule: a source
  nobody calls through is off, a live source is in mix mode if and only if the rule forces it,
  otherwise it is in copy mode, and a destination's mixer runs if and only if one of its
  feeders must be mixed, two feeders are live, or the destination is relay fed.
\<close>

theorem computeRoutes_least_fixpoint:
  "let base = initial_modes sources counts; (m, dm) = computeRoutes sources dests counts rf
   in mode_of m i = (if mode_of base i = RouteOff then RouteOff
                     else if forced rf dests base i then RouteMix else RouteCopy)
    \<and> (flag_of dm c = (\<exists>d \<in> set dests. rd_channelID d = c \<and> hot rf base (forced rf dests base) d))"
proof -
  obtain m dm where r: "computeRoutes sources dests counts rf = (m, dm)" by fastforce
  let ?base = "initial_modes sources counts"
  have off: "mode_of m i = RouteOff \<longleftrightarrow> mode_of ?base i = RouteOff"
    using computeRoutes_result(1) [OF r] by (simp add: sound_def)
  have "mode_of m i = (if mode_of ?base i = RouteOff then RouteOff
                       else if forced rf dests ?base i then RouteMix else RouteCopy)"
    using off forced_iff_mix [OF r, of i] by (cases "mode_of m i") auto
  with flag_iff_hot [OF r] show ?thesis by (simp add: r)
qed

lemma flag_needs_mix:
  assumes "distinct (map rd_channelID dests)" and "d \<in> set dests"
    and "computeRoutes sources dests counts rf = (m, dm)" and "flag_of dm (rd_channelID d)"
  shows "needs_mix rf m d"
proof -
  obtain d' where "d' \<in> set dests" "rd_channelID d' = rd_channelID d"
      "hot rf (initial_modes sources counts) (forced rf dests (initial_modes sources counts)) d'"
    using flag_iff_hot [OF assms(3)] assms(4) by blast
  moreover from this have "d' = d" using assms(1,2) by (auto simp: distinct_map inj_on_def)
  ultimately show ?thesis
    using sound_live_count [OF computeRoutes_result(1) [OF assms(3)]] forced_iff_mix [OF assms(3)]
    by (auto simp: hot_def needs_mix_def mix_count_pos)
qed

lemma copy_source_dest_off:
  assumes "distinct (map rd_channelID dests)" and "d \<in> set dests" and "i \<in> set (rd_sourceIDs d)"
    and "computeRoutes sources dests counts rf = (m, dm)" and "mode_of m i = RouteCopy"
  shows "\<not> flag_of dm (rd_channelID d)"
  using flag_needs_mix [OF assms(1,2,4)] computeRoutes_result(2) [OF assms(4,2)] assms(3,5) by auto

text \<open>
  C9. No two writers on one destination: when every destination has its own channel and lists
  a source once, a destination whose mixer runs has no source in copy mode, and one whose
  mixer is off has at most one live source, none in mix mode, and no relay input.
\<close>

theorem computeRoutes_single_writer:
  assumes "distinct (map rd_channelID dests)" and "d \<in> set dests"
    and "computeRoutes sources dests counts rf = (m, dm)"
  shows "if flag_of dm (rd_channelID d) then \<forall>i \<in> set (rd_sourceIDs d). mode_of m i \<noteq> RouteCopy
         else live_count m (rd_sourceIDs d) \<le> 1 \<and> mix_count m (rd_sourceIDs d) = 0
           \<and> \<not> flag_of rf (rd_channelID d)"
proof (cases "flag_of dm (rd_channelID d)")
  case True
  then have "needs_mix rf m d" by (rule flag_needs_mix [OF assms])
  with computeRoutes_result(2) [OF assms(3,2)] True show ?thesis by simp
next
  case False
  with computeRoutes_result(2) [OF assms(3,2)] have "\<not> needs_mix rf m d" by blast
  with False show ?thesis by (simp add: needs_mix_def)
qed

text \<open>Two captured channels, one caller each, both heard in channel 30.\<close>

definition two_channels :: "routeSource list" where
  "two_channels = [\<lparr>rs_id = 1, rs_channelID = 10\<rparr>, \<lparr>rs_id = 2, rs_channelID = 20\<rparr>]"

definition two_dests :: "routeDest list" where
  "two_dests = [\<lparr>rd_channelID = 30, rd_sourceIDs = [1, 2]\<rparr>, \<lparr>rd_channelID = 20, rd_sourceIDs = [1]\<rparr>]"

lemma single_writer_witness:
  "let (m, dm) = computeRoutes two_channels two_dests [10 \<mapsto> 1, 20 \<mapsto> 1] Map.empty
   in if flag_of dm 30 then \<forall>i \<in> set [1, 2]. mode_of m i \<noteq> RouteCopy
         else live_count m [1, 2] \<le> 1 \<and> mix_count m [1, 2] = 0 \<and> \<not> flag_of Map.empty 30"
proof -
  obtain m dm where r:
    "computeRoutes two_channels two_dests [10 \<mapsto> 1, 20 \<mapsto> 1] Map.empty = (m, dm)" by fastforce
  have "distinct (map rd_channelID two_dests)"
    "\<lparr>rd_channelID = 30, rd_sourceIDs = [1, 2]\<rparr> \<in> set two_dests"
    by (simp_all add: two_dests_def)
  from computeRoutes_single_writer [OF this r] show ?thesis by (simp add: r split: if_splits)
qed

section \<open>Order and monotonicity\<close>

text \<open>Modes are ordered by how much work they cost: off, copy, mix.\<close>

primrec cost :: "RouteMode \<Rightarrow> nat" where
  "cost RouteOff = 0"
| "cost RouteCopy = 1"
| "cost RouteMix = 2"

lemma cost_inject: "cost a = cost b \<longleftrightarrow> a = b"
  by (cases a; cases b) auto

instantiation RouteMode :: linorder
begin

definition less_eq_RouteMode :: "RouteMode \<Rightarrow> RouteMode \<Rightarrow> bool" where
  "a \<le> b \<longleftrightarrow> cost a \<le> cost b"

definition less_RouteMode :: "RouteMode \<Rightarrow> RouteMode \<Rightarrow> bool" where
  "a < b \<longleftrightarrow> cost a < cost b"

instance
  by standard (auto simp: less_eq_RouteMode_def less_RouteMode_def cost_inject)

end

lemma RouteMode_le [simp]:
  "RouteOff \<le> a" "a \<le> RouteMix" "a \<le> RouteOff \<longleftrightarrow> a = RouteOff" "RouteMix \<le> a \<longleftrightarrow> a = RouteMix"
  by (cases a; simp add: less_eq_RouteMode_def)+

lemma RouteCopy_le: "RouteCopy \<le> a \<longleftrightarrow> a \<noteq> RouteOff"
  by (cases a) (auto simp: less_eq_RouteMode_def)

lemma baseline_mono: "a \<le> b \<Longrightarrow> baseline a \<le> baseline b"
  by (auto simp: baseline_def RouteCopy_le)

lemma initial_modes_other:
  "i \<notin> rs_id ` set sources \<Longrightarrow> map_get z (fold (\<lambda>s m. m(rs_id s \<mapsto> f s)) sources m0) i = map_get z m0 i"
  by (induction sources arbitrary: m0) auto

lemma initial_modes_fold:
  "distinct (map rs_id sources) \<Longrightarrow> s \<in> set sources \<Longrightarrow>
     map_get z (fold (\<lambda>s m. m(rs_id s \<mapsto> f s)) sources m0) (rs_id s) = f s"
proof (induction sources arbitrary: m0)
  case (Cons s' sources)
  then show ?case
    by (cases "s = s'") (auto simp: initial_modes_other simp del: fun_upd_apply)
qed simp

lemma initial_modes_in:
  "distinct (map rs_id sources) \<Longrightarrow> s \<in> set sources \<Longrightarrow>
     mode_of (initial_modes sources counts) (rs_id s) = baseline (map_get 0 counts (rs_channelID s))"
  by (simp add: initial_modes_def initial_modes_fold)

lemma initial_modes_out:
  "i \<notin> rs_id ` set sources \<Longrightarrow> mode_of (initial_modes sources counts) i = RouteOff"
  by (simp add: initial_modes_def initial_modes_other)

text \<open>The baseline depends on the set of sources only.\<close>

lemma initial_modes_cong:
  assumes "distinct (map rs_id sources)" "distinct (map rs_id sources')" "set sources = set sources'"
  shows "mode_of (initial_modes sources counts) i = mode_of (initial_modes sources' counts) i"
proof (cases "i \<in> rs_id ` set sources")
  case True
  then show ?thesis using assms by (auto simp: initial_modes_in)
next
  case False
  then show ?thesis using assms(3) by (simp add: initial_modes_out)
qed

lemma length_filter_le: "(\<And>x. P x \<Longrightarrow> Q x) \<Longrightarrow> length (filter P xs) \<le> length (filter Q xs)"
  by (induction xs) auto

text \<open>The rule is monotone in the baseline and in the relay-fed set.\<close>

lemma forced_mono:
  assumes base: "\<And>i. mode_of base i \<le> mode_of base' i"
    and rf: "\<And>c. flag_of rf c \<Longrightarrow> flag_of rf' c" and sub: "set dests \<subseteq> set dests'"
  shows "forced rf dests base i \<Longrightarrow> forced rf' dests' base' i"
proof (induction rule: forced.induct)
  case (callers i)
  then show ?case using base [of i] by (simp add: forced.callers)
next
  case (cascade d i)
  have live: "mode_of base j \<noteq> RouteOff \<Longrightarrow> mode_of base' j \<noteq> RouteOff" for j
    using base [of j] by auto
  then have "live_count base ids \<le> live_count base' ids" for ids
    unfolding live_count_def by (intro length_filter_le)
  with cascade(4) have "hot rf' base' (forced rf' dests' base') d"
    unfolding hot_def using rf by (meson order_trans)
  with cascade live sub show ?case by (blast intro: forced.cascade)
qed

lemma hot_iff:
  "hot rf base P d \<longleftrightarrow> hot rf base' P d" if "\<And>i. mode_of base i = mode_of base' i"
  using that by (simp add: hot_def live_count_def)

text \<open>
  The result does not depend on the order in which the pipeline listed its sources and
  destinations: two listings of the same sources and destinations give every source the same
  mode and every channel the same mixer flag.
\<close>

theorem computeRoutes_order_independent:
  assumes "distinct (map rs_id sources)" and "distinct (map rs_id sources')"
    and "set sources = set sources'" and "set dests = set dests'"
    and "computeRoutes sources dests counts rf = (m, dm)"
    and "computeRoutes sources' dests' counts rf = (m', dm')"
  shows "mode_of m i = mode_of m' i \<and> flag_of dm c = flag_of dm' c"
proof -
  let ?b = "initial_modes sources counts" and ?b' = "initial_modes sources' counts"
  have b: "mode_of ?b j = mode_of ?b' j" for j by (rule initial_modes_cong [OF assms(1-3)])
  have f: "forced rf dests ?b j = forced rf dests' ?b' j" for j
    using forced_mono [of ?b ?b' rf rf dests dests' j] forced_mono [of ?b' ?b rf rf dests' dests j]
      b assms(4) by auto
  have off: "mode_of m i = RouteOff \<longleftrightarrow> mode_of m' i = RouteOff"
    using computeRoutes_result(1) [OF assms(5)] computeRoutes_result(1) [OF assms(6)] b
    by (simp add: sound_def)
  have mix: "mode_of m i = RouteMix \<longleftrightarrow> mode_of m' i = RouteMix"
    using forced_iff_mix [OF assms(5)] forced_iff_mix [OF assms(6)] f by simp
  have "mode_of m i = mode_of m' i"
    using off mix by (cases "mode_of m i"; cases "mode_of m' i") auto
  moreover have "flag_of dm c = flag_of dm' c"
    using flag_iff_hot [OF assms(5)] flag_iff_hot [OF assms(6)] f hot_iff [of ?b ?b'] b assms(4)
    by (simp add: hot_def)
  ultimately show ?thesis by simp
qed

lemma order_independent_witness:
  "let (m, dm) = computeRoutes two_channels two_dests [10 \<mapsto> 1, 20 \<mapsto> 1] Map.empty;
       (m', dm') = computeRoutes (rev two_channels) (rev two_dests) [10 \<mapsto> 1, 20 \<mapsto> 1] Map.empty
   in mode_of m 1 = mode_of m' 1 \<and> flag_of dm 20 = flag_of dm' 20"
proof -
  obtain m dm m' dm' where
    "computeRoutes two_channels two_dests [10 \<mapsto> 1, 20 \<mapsto> 1] Map.empty = (m, dm)"
    "computeRoutes (rev two_channels) (rev two_dests) [10 \<mapsto> 1, 20 \<mapsto> 1] Map.empty = (m', dm')"
    by fastforce
  moreover from this have "mode_of m 1 = mode_of m' 1 \<and> flag_of dm 20 = flag_of dm' 20"
    by (intro computeRoutes_order_independent [of two_channels "rev two_channels" two_dests "rev two_dests"])
      (simp_all add: two_channels_def insert_commute)
  ultimately show ?thesis by simp
qed

text \<open>
  More audio never means less routing: if no channel loses callers and no relay feed
  disappears, no source drops to a cheaper mode and no running mixer stops.
\<close>

theorem computeRoutes_monotone:
  assumes "distinct (map rs_id sources)"
    and "\<And>ch. map_get 0 counts ch \<le> map_get 0 counts' ch"
    and "\<And>ch. flag_of rf ch \<Longrightarrow> flag_of rf' ch"
    and "computeRoutes sources dests counts rf = (m, dm)"
    and "computeRoutes sources dests counts' rf' = (m', dm')"
  shows "mode_of m i \<le> mode_of m' i \<and> (flag_of dm c \<longrightarrow> flag_of dm' c)"
proof -
  let ?b = "initial_modes sources counts" and ?b' = "initial_modes sources counts'"
  have b: "mode_of ?b j \<le> mode_of ?b' j" for j
  proof (cases "j \<in> rs_id ` set sources")
    case True
    then show ?thesis using assms(1,2) by (auto simp: initial_modes_in baseline_mono)
  qed (simp add: initial_modes_out)
  have f: "forced rf dests ?b j \<Longrightarrow> forced rf' dests ?b' j" for j
    by (rule forced_mono [OF b assms(3) subset_refl])
  have off: "mode_of m' i = RouteOff \<Longrightarrow> mode_of m i = RouteOff"
    using computeRoutes_result(1) [OF assms(4)] computeRoutes_result(1) [OF assms(5)] b [of i]
    by (auto simp: sound_def)
  have mix: "mode_of m i = RouteMix \<Longrightarrow> mode_of m' i = RouteMix"
    using forced_iff_mix [OF assms(4)] forced_iff_mix [OF assms(5)] f by simp
  have le: "mode_of m i \<le> mode_of m' i"
    using off mix by (cases "mode_of m i"; cases "mode_of m' i") (auto simp: RouteCopy_le)
  have live: "mode_of ?b j \<noteq> RouteOff \<Longrightarrow> mode_of ?b' j \<noteq> RouteOff" for j
    using b [of j] by auto
  have "live_count ?b ids \<le> live_count ?b' ids" for ids
    unfolding live_count_def using live by (intro length_filter_le)
  then have "hot rf ?b (forced rf dests ?b) d \<Longrightarrow> hot rf' ?b' (forced rf' dests ?b') d" for d
    unfolding hot_def using f assms(3) by (meson order_trans)
  with le flag_iff_hot [OF assms(4), of c] flag_iff_hot [OF assms(5), of c] show ?thesis by blast
qed

lemma monotone_witness:
  "let (m, dm) = computeRoutes two_channels two_dests [10 \<mapsto> 1] Map.empty;
       (m', dm') = computeRoutes two_channels two_dests [10 \<mapsto> 1, 20 \<mapsto> 1] [20 \<mapsto> True]
   in mode_of m 1 \<le> mode_of m' 1 \<and> (flag_of dm 20 \<longrightarrow> flag_of dm' 20)"
proof -
  obtain m dm m' dm' where
    "computeRoutes two_channels two_dests [10 \<mapsto> 1] Map.empty = (m, dm)"
    "computeRoutes two_channels two_dests [10 \<mapsto> 1, 20 \<mapsto> 1] [20 \<mapsto> True] = (m', dm')"
    by fastforce
  moreover from this have "mode_of m 1 \<le> mode_of m' 1 \<and> (flag_of dm 20 \<longrightarrow> flag_of dm' 20)"
    by (intro computeRoutes_monotone [of two_channels "[10 \<mapsto> 1]" "[10 \<mapsto> 1, 20 \<mapsto> 1]" Map.empty
        "[20 \<mapsto> True]" two_dests]) (simp_all add: two_channels_def map_get_def)
  ultimately show ?thesis by simp
qed

section \<open>Every source gets a mode\<close>

lemma promote_dom: "I \<subseteq> dom m \<Longrightarrow> I \<subseteq> dom (fst (promote ids (m, ch)))"
proof (induction ids arbitrary: m ch)
  case (Cons i ids)
  have "I \<subseteq> dom (m(i \<mapsto> RouteMix))" using Cons.prems by auto
  from Cons.IH [OF this] Cons.IH [OF Cons.prems] show ?case by (simp del: fun_upd_apply)
qed simp

lemma cascade_pass_dom:
  assumes "I \<subseteq> dom (fst st)"
  shows "I \<subseteq> dom (fst (fst (cascade_pass rf dests st)))"
proof -
  have "I \<subseteq> dom (fst (fst (fold (visit_dest rf) dests (st, False))))"
  proof (rule fold_invariant [where P = "\<lambda>s. I \<subseteq> dom (fst (fst s))"])
    fix d and s :: "(modes \<times> flags) \<times> bool"
    assume "I \<subseteq> dom (fst (fst s))"
    then show "I \<subseteq> dom (fst (fst (visit_dest rf d s)))"
      by (cases s rule: prod.exhaust [case_names p]; cases "fst s") (simp add: visit_dest.simps Let_def split_def promote_dom)
  qed (use assms in simp)
  then show ?thesis by (simp add: cascade_pass_def)
qed

lemma cascade_loop_dom: "I \<subseteq> dom (fst st) \<Longrightarrow> I \<subseteq> dom (fst (cascade_loop rf dests st))"
proof (induction rf dests st rule: cascade_loop.induct)
  case (1 rf dests st)
  obtain st' ch where p: "cascade_pass rf dests st = (st', ch)" by fastforce
  then have "I \<subseteq> dom (fst st')" using cascade_pass_dom [OF 1(2), of rf dests] by simp
  with 1(1) [OF p [symmetric] refl] p show ?case by (subst cascade_loop.simps) simp
qed

lemma initial_modes_dom: "rs_id ` set sources \<subseteq> dom (initial_modes sources counts)"
proof -
  have "rs_id ` set sources \<union> dom m \<subseteq> dom (fold (\<lambda>s m. m(rs_id s \<mapsto> f s)) sources m)"
    for m and f :: "routeSource \<Rightarrow> RouteMode"
  proof (induction sources arbitrary: m)
    case (Cons s sources)
    have "dom (m(rs_id s \<mapsto> f s)) = insert (rs_id s) (dom m)" by auto
    then show ?case using Cons [of "m(rs_id s \<mapsto> f s)"] by (simp del: fun_upd_apply)
  qed simp
  from this [of Map.empty "\<lambda>s. baseline (map_get 0 counts (rs_channelID s))"] show ?thesis
    by (simp add: initial_modes_def)
qed

lemma computeRoutes_dom:
  "computeRoutes sources dests counts rf = (m, dm) \<Longrightarrow> rs_id ` set sources \<subseteq> dom m"
  using cascade_loop_dom [of "rs_id ` set sources" "(initial_modes sources counts, Map.empty)" rf dests] initial_modes_dom [of sources counts]
  by (simp add: computeRoutes_def)

end
