(* ===== verification/Install.thy ===== *)
theory Install
  imports Mixer VoiceIO Routes
begin

text \<open>
  What a route mode installs on a source: \<^verbatim>\<open>internal/manager/pipeline/install.go\<close>, with the
  destination slots of \<^verbatim>\<open>internal/manager/router/router.go\<close>.

  Mixers, rings and fanout handles are shared objects; \<open>audio\<close> is the heap that holds them.  A
  Go closure is the data it captured: the teardown of an install is the list of mixer inputs to
  remove and of rings to drain.
\<close>

section \<open>The heap\<close>

record 'e audio =
  mixers :: "nat \<Rightarrow> 'e Mixer"
  au_rings :: "nat \<Rightarrow> SourceBuffer"
  next_ring :: nat
  au_pools :: pools
  handles :: "nat \<Rightarrow> FanoutHandle"

definition upd_mixer :: "nat \<Rightarrow> ('e Mixer \<Rightarrow> 'e Mixer) \<Rightarrow> 'e audio \<Rightarrow> 'e audio" where
  "upd_mixer x f a = a\<lparr>mixers := (mixers a)(x := f (mixers a x))\<rparr>"

definition upd_handle :: "nat \<Rightarrow> (FanoutHandle \<Rightarrow> FanoutHandle) \<Rightarrow> 'e audio \<Rightarrow> 'e audio" where
  "upd_handle x f a = a\<lparr>handles := (handles a)(x := f (handles a x))\<rparr>"

definition new_ring :: "'e audio \<Rightarrow> nat \<times> 'e audio" where
  "new_ring a = (next_ring a,
     a\<lparr>au_rings := (au_rings a)(next_ring a := NewSourceBuffer True), next_ring := Suc (next_ring a)\<rparr>)"

definition drain_ring :: "nat \<Rightarrow> 'e audio \<Rightarrow> 'e audio" where
  "drain_ring r a =
     (let (s, p) = Drain (au_rings a r) (au_pools a)
      in a\<lparr>au_rings := (au_rings a)(r := s), au_pools := p\<rparr>)"

section \<open>Slots\<close>

text \<open>\<open>ds_RelayFeed\<close> is whether the callback is set; its answer is part of the probe.\<close>

record DestSlot =
  ds_ChannelID :: snowflake
  ds_Mixer :: "nat option"
  ds_Sources :: "snowflake list"
  ds_ChOuts :: "nat list"
  ds_RelayFeed :: bool

record UserBinding =
  ub_UserID :: snowflake
  ub_SynthID :: snowflake

record installBuildOpts =
  ib_Feeds :: "DestSlot list"
  allyBroadcast :: bool
  rawTargets :: "nat list option"

record Teardown =
  td_removals :: "(nat \<times> snowflake) list"
  td_sbs :: "nat list"

definition no_teardown :: Teardown where
  "no_teardown = \<lparr>td_removals = [], td_sbs = []\<rparr>"

definition empty_install :: fanoutDispatch where
  "empty_install = \<lparr>opusTargets = [], sourceTargets = None, opusCallback = False, onClose = False,
     dropOpus = False\<rparr>"

section \<open>Building an install\<close>

text \<open>
  One destination of one user; the accumulator holds the user's rings, the teardown and the
  heap.  \<^verbatim>\<open>AddInput\<close> never fails in this code base.
\<close>

definition add_user_input ::
  "snowflake \<Rightarrow> DestSlot \<Rightarrow> nat list \<times> Teardown \<times> 'e audio \<Rightarrow> nat list \<times> Teardown \<times> 'e audio" where
  "add_user_input synth d = (\<lambda>(userSBs, td, a).
     case ds_Mixer d of
       None \<Rightarrow> (userSBs, td, a)
     | Some mx \<Rightarrow>
         let (sb, a1) = new_ring a;
             a2 = upd_mixer mx (AddInput synth sb) a1
         in (userSBs @ [sb],
             td\<lparr>td_removals := td_removals td @ [(mx, synth)], td_sbs := td_sbs td @ [sb]\<rparr>, a2))"

definition add_user ::
  "DestSlot list \<Rightarrow> UserBinding \<Rightarrow> (snowflake \<rightharpoonup> nat list) \<times> Teardown \<times> 'e audio \<Rightarrow>
   (snowflake \<rightharpoonup> nat list) \<times> Teardown \<times> 'e audio" where
  "add_user feeds u = (\<lambda>(targets, td, a).
     let (userSBs, td', a') = fold (add_user_input (ub_SynthID u)) feeds ([], td, a)
     in (if userSBs = [] then targets else targets(ub_UserID u \<mapsto> userSBs), td', a'))"

definition buildPerUserMixSpec ::
  "DestSlot list \<Rightarrow> UserBinding list \<Rightarrow> 'e audio \<Rightarrow> fanoutDispatch \<times> Teardown \<times> 'e audio" where
  "buildPerUserMixSpec feeds users a =
     (let (targets, td, a') = fold (add_user feeds) users (Map.empty, no_teardown, a)
      in (empty_install\<lparr>sourceTargets := Some targets\<rparr>, td, a'))"

definition routerInstallBuilder ::
  "installBuildOpts \<Rightarrow> RouteMode \<Rightarrow> UserBinding list \<Rightarrow> 'e audio \<Rightarrow> fanoutDispatch \<times> Teardown \<times> 'e audio" where
  "routerInstallBuilder opts mode users a =
     (case mode of
        RouteOff \<Rightarrow> (empty_install, no_teardown, a)
      | RouteCopy \<Rightarrow>
          let outs = (case rawTargets opts of
                        None \<Rightarrow> concat (map ds_ChOuts (ib_Feeds opts))
                      | Some ts \<Rightarrow> ts);
              spec = empty_install\<lparr>opusTargets := outs\<rparr>
          in (if allyBroadcast opts then spec\<lparr>opusCallback := True, dropOpus := True\<rparr> else spec,
              no_teardown, a)
      | RouteMix \<Rightarrow>
          let (spec, td, a') = buildPerUserMixSpec (ib_Feeds opts) users a
          in (case rawTargets opts of
                None \<Rightarrow> spec
              | Some ts \<Rightarrow> spec\<lparr>opusTargets := ts, dropOpus := True\<rparr>,
              td, a'))"

definition run_teardown :: "Teardown \<Rightarrow> 'e audio \<Rightarrow> 'e audio" where
  "run_teardown td a =
     fold drain_ring (td_sbs td)
       (fold (\<lambda>(mx, i). upd_mixer mx (RemoveInput i)) (td_removals td) a)"

section \<open>Installs and teardowns cancel\<close>

text \<open>The inputs of a mixer as a map.\<close>

definition inputs_of :: "'e audio \<Rightarrow> nat \<Rightarrow> snowflake \<rightharpoonup> nat" where
  "inputs_of a x = map_of (inputs (mixers a x))"

lemma inputs_upd_mixer:
  "inputs_of (upd_mixer x (AddInput i r) a) y =
     (if y = x then (inputs_of a x)(i \<mapsto> r) else inputs_of a y)"
  "inputs_of (upd_mixer x (RemoveInput i) a) y =
     (if y = x then (inputs_of a x)(i := None) else inputs_of a y)"
  by (auto simp: inputs_of_def upd_mixer_def AddInput_def RemoveInput_def rebuildSnapLocked_def
      update_conv' delete_conv')

lemma inputs_of_drain [simp]: "inputs_of (drain_ring r a) = inputs_of a"
  by (simp add: inputs_of_def [abs_def] drain_ring_def split_def Let_def)

lemma inputs_of_drains [simp]: "inputs_of (fold drain_ring rs a) = inputs_of a"
  by (induction rs arbitrary: a) auto

lemma inputs_of_new_ring [simp]: "inputs_of (snd (new_ring a)) = inputs_of a"
  by (simp add: inputs_of_def [abs_def] new_ring_def)

lemma inputs_of_removals:
  "inputs_of (fold (\<lambda>(mx, i). upd_mixer mx (RemoveInput i)) ps a) x =
     (\<lambda>i. if (x, i) \<in> set ps then None else inputs_of a x i)"
  by (induction ps arbitrary: a) (auto simp: inputs_upd_mixer fun_eq_iff split: if_splits)

lemma run_teardown_inputs:
  "inputs_of (run_teardown td a) x = (\<lambda>i. if (x, i) \<in> set (td_removals td) then None else inputs_of a x i)"
  by (simp add: run_teardown_def inputs_of_removals)

text \<open>Only inputs listed in the teardown differ from those before.\<close>

definition tracks :: "'e audio \<Rightarrow> Teardown \<Rightarrow> 'e audio \<Rightarrow> bool" where
  "tracks a0 td a \<longleftrightarrow> (\<forall>x i. (x, i) \<notin> set (td_removals td) \<longrightarrow> inputs_of a x i = inputs_of a0 x i)"

lemma tracks_add_input:
  "tracks a0 td a \<Longrightarrow> add_user_input synth d (sbs, td, a) = (sbs', td', a') \<Longrightarrow>
     tracks a0 td' a' \<and> set (td_removals td') \<subseteq> set (td_removals td) \<union> {(x, synth) | x. True}"
  by (auto simp: add_user_input_def tracks_def Let_def split_def inputs_upd_mixer split: option.splits if_splits)

lemma tracks_add_inputs:
  "tracks a0 td a \<Longrightarrow> fold (add_user_input synth) ds (sbs, td, a) = (sbs', td', a') \<Longrightarrow>
     tracks a0 td' a' \<and> set (td_removals td') \<subseteq> set (td_removals td) \<union> {(x, synth) | x. True}"
proof (induction ds arbitrary: sbs td a)
  case (Cons d ds)
  obtain s1 t1 a1 where 1: "add_user_input synth d (sbs, td, a) = (s1, t1, a1)" by (metis prod_cases3)
  note t1 = tracks_add_input [OF Cons.prems(1) 1]
  from Cons.IH [OF conjunct1 [OF t1]] Cons.prems(2) 1 t1 show ?case by fastforce
qed auto

lemma tracks_add_users:
  "tracks a0 td a \<Longrightarrow> fold (add_user feeds) us (tg, td, a) = (tg', td', a') \<Longrightarrow>
     tracks a0 td' a' \<and> set (td_removals td') \<subseteq> set (td_removals td) \<union> {(x, i) | x i. i \<in> ub_SynthID ` set us}"
proof (induction us arbitrary: tg td a)
  case (Cons u us)
  obtain s1 t1 a1 where 1: "fold (add_user_input (ub_SynthID u)) feeds ([], td, a) = (s1, t1, a1)"
    by (metis prod_cases3)
  note t1 = tracks_add_inputs [OF Cons.prems(1) 1]
  have "add_user feeds u (tg, td, a) = (if s1 = [] then tg else tg(ub_UserID u \<mapsto> s1), t1, a1)"
    by (simp add: add_user_def 1)
  with Cons.prems(2) have
    "fold (add_user feeds) us (if s1 = [] then tg else tg(ub_UserID u \<mapsto> s1), t1, a1) = (tg', td', a')"
    by simp
  from Cons.IH [OF conjunct1 [OF t1] this] t1 show ?case by fastforce
qed auto

lemma build_tracks:
  assumes "routerInstallBuilder opts mode users a = (spec, td, a')"
  shows "tracks a td a' \<and> set (td_removals td) \<subseteq> {(x, i) | x i. i \<in> ub_SynthID ` set users}"
proof (cases mode)
  case RouteMix
  obtain tg t1 a1 where 1: "fold (add_user (ib_Feeds opts)) users (Map.empty, no_teardown, a) = (tg, t1, a1)"
    by (metis prod_cases3)
  have "tracks a no_teardown a" by (simp add: tracks_def)
  from tracks_add_users [OF this 1] RouteMix assms 1 show ?thesis
    by (auto simp: routerInstallBuilder_def buildPerUserMixSpec_def no_teardown_def split: option.splits)
qed (use assms in \<open>auto simp: routerInstallBuilder_def tracks_def no_teardown_def Let_def\<close>)

text \<open>
  Leaving a mode undoes what entering it did: if the synthetic IDs of the users are not in
  use, running the teardown of an install right after it gives every mixer back exactly the
  inputs it had.
\<close>

theorem teardown_undoes_install:
  assumes "routerInstallBuilder opts mode users a = (spec, td, a')"
    and "\<And>x u. u \<in> set users \<Longrightarrow> inputs_of a x (ub_SynthID u) = None"
  shows "inputs_of (run_teardown td a') x = inputs_of a x"
proof
  fix i
  have t: "tracks a td a'" "set (td_removals td) \<subseteq> {(x, i) | x i. i \<in> ub_SynthID ` set users}"
    using build_tracks [OF assms(1)] by auto
  then show "inputs_of (run_teardown td a') x i = inputs_of a x i"
    using assms(2) by (auto simp: run_teardown_inputs tracks_def)
qed

definition blank_audio :: "unit audio" where
  "blank_audio = \<lparr>mixers = (\<lambda>_. mixer_of False []), au_rings = (\<lambda>_. NewSourceBuffer True), next_ring = 0,
     au_pools = empty_pools, handles = (\<lambda>_. NewFanoutHandle)\<rparr>"

definition one_feed :: installBuildOpts where
  "one_feed = \<lparr>ib_Feeds = [\<lparr>ds_ChannelID = 30, ds_Mixer = Some 0, ds_Sources = [1], ds_ChOuts = [7],
     ds_RelayFeed = False\<rparr>], allyBroadcast = True, rawTargets = None\<rparr>"

lemma teardown_undoes_install_witness:
  "case routerInstallBuilder one_feed RouteMix [\<lparr>ub_UserID = 5, ub_SynthID = 99\<rparr>] blank_audio of
     (spec, td, a') \<Rightarrow> inputs_of a' 0 99 = Some 0 \<and>
       inputs_of (run_teardown td a') 0 = inputs_of blank_audio 0"
proof -
  let ?us = "[\<lparr>ub_UserID = 5, ub_SynthID = 99\<rparr>]"
  obtain spec td a' where b: "routerInstallBuilder one_feed RouteMix ?us blank_audio = (spec, td, a')"
    by (metis prod_cases3)
  have "inputs_of (run_teardown td a') 0 = inputs_of blank_audio 0"
    by (rule teardown_undoes_install [OF b]) (simp add: inputs_of_def blank_audio_def mixer_of_def)
  moreover have "inputs_of a' 0 99 = Some 0"
    using b by (auto simp: routerInstallBuilder_def buildPerUserMixSpec_def add_user_def add_user_input_def
        one_feed_def inputs_upd_mixer new_ring_def blank_audio_def Let_def)
  ultimately show ?thesis unfolding b by simp
qed

end
