(* ===== verification/Router.thy ===== *)
theory Router
  imports Install
begin

text \<open>
  The auto-router of \<^verbatim>\<open>internal/manager/router/router.go\<close> around the cascade rule: the slots,
  the synthetic input IDs, \<^verbatim>\<open>Recompute\<close> with its two locked halves, the order in which
  \<^verbatim>\<open>applyModes\<close> touches mixers and sources, the debounce timers and \<^verbatim>\<open>Close\<close>.

  \<^verbatim>\<open>Recompute\<close> drops the lock between taking its snapshot and applying it, so it is two
  definitions, \<open>recompute_sample\<close> and \<open>recompute_apply\<close>.  \<open>applyModes\<close> is a list of elementary
  operations run in order, so that a property can speak about every moment in between.  Maps
  the code ranges over are association lists; the order of the list is Go's choice.
\<close>

section \<open>Slots and state\<close>

definition defaultRouteDebounce :: duration where "defaultRouteDebounce = 250 * Millisecond"

record SourceSlot =
  ss_ID :: snowflake
  ss_ChannelID :: snowflake
  ss_Handle :: "nat option"
  ss_Build :: "installBuildOpts option"
  activeMode :: RouteMode
  activeTeardown :: "Teardown option"
  activeUsers :: "snowflake list"
  synthIDs :: "(snowflake \<times> snowflake) list"

record Router =
  rt_sources :: "(snowflake \<times> SourceSlot) list"
  rt_destinations :: "(snowflake \<times> DestSlot) list"
  debounceWindow :: duration
  debounceTimers :: "snowflake \<rightharpoonup> instant"
  closed :: bool
  synthSeed :: "64 word"
  transitions :: "(RouteMode \<times> RouteMode) list"
  observes :: bool

definition New :: "SourceSlot list \<Rightarrow> DestSlot list \<Rightarrow> Router" where
  "New sources destinations =
     \<lparr>rt_sources = fold (\<lambda>s. AList.update (ss_ID s) s) sources [],
      rt_destinations = fold (\<lambda>d. AList.update (ds_ChannelID d) d) destinations [],
      debounceWindow = defaultRouteDebounce, debounceTimers = Map.empty, closed = False,
      synthSeed = 0, transitions = [], observes = False\<rparr>"

section \<open>Synthetic IDs\<close>

definition synth_id :: "64 word \<Rightarrow> snowflake" where
  "synth_id seed = (push_bit 63 1) OR seed"

definition synthIDForLocked :: "snowflake \<Rightarrow> SourceSlot \<times> 64 word \<Rightarrow> snowflake \<times> SourceSlot \<times> 64 word" where
  "synthIDForLocked u = (\<lambda>(s, seed).
     case map_of (synthIDs s) u of
       Some i \<Rightarrow> (i, s, seed)
     | None \<Rightarrow>
         let seed' = seed + 1; i = synth_id seed'
         in (i, s\<lparr>synthIDs := AList.update u i (synthIDs s)\<rparr>, seed'))"

fun bind_users :: "snowflake list \<Rightarrow> SourceSlot \<times> 64 word \<Rightarrow> UserBinding list \<times> SourceSlot \<times> 64 word" where
  "bind_users [] st = ([], st)"
| "bind_users (u # us) st =
     (let (i, st1) = synthIDForLocked u st; (bs, st2) = bind_users us st1
      in (\<lparr>ub_UserID = u, ub_SynthID = i\<rparr> # bs, st2))"

definition bindUsersLocked ::
  "snowflake list \<Rightarrow> RouteMode \<Rightarrow> SourceSlot \<times> 64 word \<Rightarrow> UserBinding list \<times> SourceSlot \<times> 64 word" where
  "bindUsersLocked users mode st =
     (if mode \<noteq> RouteMix \<or> users = [] then ([], st) else bind_users users st)"

definition pruneSynthIDsLocked :: "snowflake list \<Rightarrow> SourceSlot \<Rightarrow> SourceSlot" where
  "pruneSynthIDsLocked present s =
     s\<lparr>synthIDs := filter (\<lambda>p. fst p \<in> set present) (synthIDs s)\<rparr>"

definition sameUserSet :: "snowflake list \<Rightarrow> snowflake list \<Rightarrow> bool" where
  "sameUserSet a b \<longleftrightarrow> length a = length b \<and> list_all (\<lambda>x. x \<in> set a) b"

section \<open>Recompute\<close>

text \<open>What the probe answers: callers and listeners of a channel, and the relay feeds.\<close>

record probe =
  EnumerateCallers :: "snowflake \<Rightarrow> snowflake list"
  HasListeners :: "snowflake \<Rightarrow> bool"
  RelayFeed :: "snowflake \<Rightarrow> bool"

record snapshot =
  sn_modes :: modes
  sn_destMix :: flags
  sn_users :: "snowflake \<rightharpoonup> snowflake list"
  sn_listeners :: flags

definition route_sources :: "Router \<Rightarrow> routeSource list" where
  "route_sources r = map (\<lambda>(i, s). \<lparr>rs_id = ss_ID s, rs_channelID = ss_ChannelID s\<rparr>) (rt_sources r)"

definition route_dests :: "Router \<Rightarrow> routeDest list" where
  "route_dests r = map (\<lambda>(c, d). \<lparr>rd_channelID = c, rd_sourceIDs = ds_Sources d\<rparr>) (rt_destinations r)"

definition recompute_sample :: "probe \<Rightarrow> Router \<Rightarrow> snapshot option" where
  "recompute_sample pb r =
     (if closed r then None
      else
        let chs = remdups (map (ss_ChannelID \<circ> snd) (rt_sources r));
            users = fold (\<lambda>c m. m(c \<mapsto> EnumerateCallers pb c)) chs Map.empty;
            counts = fold (\<lambda>c m. m(c \<mapsto> int (length (EnumerateCallers pb c)))) chs Map.empty;
            listens = fold (\<lambda>(c, d) m. if ds_ChOuts d \<noteq> [] then m(c \<mapsto> HasListeners pb c) else m)
              (rt_destinations r) Map.empty;
            fed = fold (\<lambda>(c, d) m. if ds_RelayFeed d then m(c \<mapsto> RelayFeed pb c) else m)
              (rt_destinations r) Map.empty;
            (ms, dm) = computeRoutes (route_sources r) (route_dests r) counts fed
        in Some \<lparr>sn_modes = ms, sn_destMix = dm, sn_users = users, sn_listeners = listens\<rparr>)"

text \<open>Should the mixer of destination \<open>d\<close> run?\<close>

definition should_run :: "snapshot \<Rightarrow> snowflake \<Rightarrow> DestSlot \<Rightarrow> bool" where
  "should_run sn c d \<longleftrightarrow>
     flag_of (sn_destMix sn) c \<and> \<not> (ds_ChOuts d \<noteq> [] \<and> \<not> flag_of (sn_listeners sn) c)"

definition set_dest_paused ::
  "instant \<Rightarrow> snapshot \<Rightarrow> bool \<Rightarrow> snowflake \<times> DestSlot \<Rightarrow> 'e audio \<Rightarrow> 'e audio" where
  "set_dest_paused now sn pausing = (\<lambda>(c, d) a.
     case ds_Mixer d of
       None \<Rightarrow> a
     | Some mx \<Rightarrow> if should_run sn c d = pausing then a
                  else upd_mixer mx (SetPaused (\<not> should_run sn c d) now) a)"

definition route_slot ::
  "RouteMode \<Rightarrow> snowflake list \<Rightarrow> SourceSlot \<times> 64 word \<times> 'e audio \<Rightarrow> SourceSlot \<times> 64 word \<times> 'e audio" where
  "route_slot newMode users = (\<lambda>(s, seed, a).
     if activeMode s = newMode \<and> \<not> (newMode = RouteMix \<and> \<not> sameUserSet (activeUsers s) users)
     then (s, seed, a)
     else
       let a1 = (case activeTeardown s of None \<Rightarrow> a | Some td \<Rightarrow> run_teardown td a);
           s1 = s\<lparr>activeTeardown := None, activeUsers := []\<rparr>;
           (s2, seed2, a2) =
             (case (ss_Handle s1, ss_Build s1) of
                (Some h, Some opts) \<Rightarrow>
                  let (bindings, s', seed') = bindUsersLocked users newMode (s1, seed);
                      (spec, td, a') = routerInstallBuilder opts newMode bindings a1
                  in (s'\<lparr>activeTeardown := Some td,
                         activeUsers := (if newMode = RouteMix then users else [])\<rparr>,
                      seed', upd_handle h (Install spec) a')
              | _ \<Rightarrow> (s1, seed, a1));
           s3 = s2\<lparr>activeMode := newMode\<rparr>
       in (pruneSynthIDsLocked users s3, seed2, a2))"

definition route_source :: "snapshot \<Rightarrow> snowflake \<Rightarrow> Router \<times> 'e audio \<Rightarrow> Router \<times> 'e audio" where
  "route_source sn i = (\<lambda>(r, a).
     case (sn_modes sn i, map_of (rt_sources r) i) of
       (Some newMode, Some s) \<Rightarrow>
         let users = map_get [] (sn_users sn) (ss_ChannelID s);
             (s', seed', a') = route_slot newMode users (s, synthSeed r, a);
             trs = (if activeMode s \<noteq> newMode then [(activeMode s, newMode)] else [])
         in (r\<lparr>rt_sources := AList.update i s' (rt_sources r), synthSeed := seed',
              transitions := transitions r @ trs\<rparr>, a')
     | _ \<Rightarrow> (r, a))"

text \<open>The elementary operations of \<^verbatim>\<open>applyModes\<close>, all under the lock, and their order.\<close>

datatype route_op = PauseDest "snowflake \<times> DestSlot" | RouteSource snowflake | ResumeDest "snowflake \<times> DestSlot"

fun do_route :: "instant \<Rightarrow> snapshot \<Rightarrow> route_op \<Rightarrow> Router \<times> 'e audio \<Rightarrow> Router \<times> 'e audio" where
  "do_route now sn (PauseDest cd) (r, a) = (r, set_dest_paused now sn True cd a)"
| "do_route now sn (RouteSource i) st = route_source sn i st"
| "do_route now sn (ResumeDest cd) (r, a) = (r, set_dest_paused now sn False cd a)"

text \<open>\<open>order\<close> is the order in which Go ranges over \<^verbatim>\<open>sourceModes\<close>.\<close>

definition apply_ops :: "snowflake list \<Rightarrow> Router \<Rightarrow> route_op list" where
  "apply_ops order r =
     map PauseDest (rt_destinations r) @ map RouteSource order @ map ResumeDest (rt_destinations r)"

definition applyModes ::
  "instant \<Rightarrow> snapshot \<Rightarrow> snowflake list \<Rightarrow> Router \<times> 'e audio \<Rightarrow> Router \<times> 'e audio" where
  "applyModes now sn order st = fold (do_route now sn) (apply_ops order (fst st)) st"

definition notifyCapture :: "snapshot \<Rightarrow> Router \<Rightarrow> (snowflake \<rightharpoonup> bool) option" where
  "notifyCapture sn r =
     (if observes r \<and> \<not> closed r then Some (map_option (\<lambda>m. m \<noteq> RouteOff) \<circ> sn_modes sn) else None)"

definition recompute_apply ::
  "instant \<Rightarrow> snapshot \<Rightarrow> snowflake list \<Rightarrow> Router \<times> 'e audio \<Rightarrow>
     (Router \<times> 'e audio) \<times> (snowflake \<rightharpoonup> bool) option" where
  "recompute_apply now sn order st =
     (let st' = applyModes now sn order st in (st', notifyCapture sn (fst st')))"

definition Recompute ::
  "instant \<Rightarrow> probe \<Rightarrow> snowflake list \<Rightarrow> Router \<times> 'e audio \<Rightarrow>
     (Router \<times> 'e audio) \<times> (snowflake \<rightharpoonup> bool) option" where
  "Recompute now pb order st =
     (case recompute_sample pb (fst st) of
        None \<Rightarrow> (st, None)
      | Some sn \<Rightarrow> recompute_apply now sn order st)"

section \<open>Timers and shutdown\<close>

text \<open>A timer is the instant it fires; firing removes it and recomputes.\<close>

definition Debounce :: "instant \<Rightarrow> snowflake \<Rightarrow> Router \<Rightarrow> Router" where
  "Debounce now c r = r\<lparr>debounceTimers := (debounceTimers r)(c \<mapsto> now + debounceWindow r)\<rparr>"

definition followup_key :: "duration \<Rightarrow> snowflake" where
  "followup_key delay = word_of_int (max 0 delay) OR push_bit 62 1"

definition ScheduleRecompute :: "instant \<Rightarrow> duration \<Rightarrow> Router \<Rightarrow> Router" where
  "ScheduleRecompute now delay r =
     (if closed r then r
      else r\<lparr>debounceTimers := (debounceTimers r)(followup_key delay \<mapsto> now + delay)\<rparr>)"

definition fire_timer ::
  "instant \<Rightarrow> probe \<Rightarrow> snowflake list \<Rightarrow> snowflake \<Rightarrow> Router \<times> 'e audio \<Rightarrow>
     (Router \<times> 'e audio) \<times> (snowflake \<rightharpoonup> bool) option" where
  "fire_timer now pb order key = (\<lambda>(r, a).
     Recompute now pb order (r\<lparr>debounceTimers := (debounceTimers r)(key := None)\<rparr>, a))"

definition close_slot :: "SourceSlot \<times> 'e audio \<Rightarrow> SourceSlot \<times> 'e audio" where
  "close_slot = (\<lambda>(s, a).
     let a1 = (case ss_Handle s of None \<Rightarrow> a | Some h \<Rightarrow> upd_handle h (Install empty_install) a)
     in case activeTeardown s of
          None \<Rightarrow> (s, a1)
        | Some td \<Rightarrow> (s\<lparr>activeTeardown := None\<rparr>, run_teardown td a1))"

fun close_slots :: "(snowflake \<times> SourceSlot) list \<Rightarrow> 'e audio \<Rightarrow> (snowflake \<times> SourceSlot) list \<times> 'e audio" where
  "close_slots [] a = ([], a)"
| "close_slots ((i, s) # ss) a =
     (let (s', a1) = close_slot (s, a); (ss', a2) = close_slots ss a1 in ((i, s') # ss', a2))"

definition Close :: "Router \<times> 'e audio \<Rightarrow> Router \<times> 'e audio" where
  "Close = (\<lambda>(r, a).
     let (ss, a') = close_slots (rt_sources r) a
     in (r\<lparr>closed := True, debounceTimers := Map.empty, rt_sources := ss\<rparr>, a'))"

section \<open>Who writes into a destination\<close>

definition paused_of :: "'e audio \<Rightarrow> nat \<Rightarrow> bool" where
  "paused_of a x = paused (mixers a x)"

text \<open>Source \<open>i\<close> is in copy mode, so it writes raw packets itself; the destinations it feeds.\<close>

definition copying :: "Router \<Rightarrow> snowflake \<Rightarrow> bool" where
  "copying r i \<longleftrightarrow> (case map_of (rt_sources r) i of None \<Rightarrow> False | Some s \<Rightarrow> activeMode s = RouteCopy)"

definition feeds :: "Router \<Rightarrow> snowflake \<Rightarrow> DestSlot set" where
  "feeds r i =
     (case map_of (rt_sources r) i of
        None \<Rightarrow> {}
      | Some s \<Rightarrow> (case ss_Build s of None \<Rightarrow> {} | Some opts \<Rightarrow> set (ib_Feeds opts)))"

definition exclusive :: "Router \<Rightarrow> 'e audio \<Rightarrow> bool" where
  "exclusive r a \<longleftrightarrow>
     (\<forall>i d mx. copying r i \<longrightarrow> d \<in> feeds r i \<longrightarrow> ds_Mixer d = Some mx \<longrightarrow> paused_of a mx)"

text \<open>
  The topology the pipelines build: slots keyed by their ID, a source feeds only destinations
  of the router that list it, and no two destinations share a mixer.
\<close>

definition topo_ok :: "Router \<Rightarrow> bool" where
  "topo_ok r \<longleftrightarrow>
     distinct (map fst (rt_sources r)) \<and> distinct (map fst (rt_destinations r)) \<and>
     (\<forall>i s. (i, s) \<in> set (rt_sources r) \<longrightarrow> ss_ID s = i) \<and>
     (\<forall>i d. d \<in> feeds r i \<longrightarrow> (\<exists>c. (c, d) \<in> set (rt_destinations r) \<and> i \<in> set (ds_Sources d))) \<and>
     (\<forall>c d c' d' mx. (c, d) \<in> set (rt_destinations r) \<longrightarrow> (c', d') \<in> set (rt_destinations r) \<longrightarrow>
        ds_Mixer d = Some mx \<longrightarrow> ds_Mixer d' = Some mx \<longrightarrow> c = c')"

lemma paused_of_inputs [simp]:
  "paused_of (upd_mixer x (AddInput i q) a) = paused_of a"
  "paused_of (upd_mixer x (RemoveInput i) a) = paused_of a"
  "paused_of (drain_ring q a) = paused_of a"
  "paused_of (snd (new_ring a)) = paused_of a"
  "paused_of (upd_handle h f a) = paused_of a"
  by (auto simp: fun_eq_iff paused_of_def upd_mixer_def AddInput_def RemoveInput_def rebuildSnapLocked_def
      drain_ring_def new_ring_def upd_handle_def split_def Let_def)

lemma paused_of_drains [simp]: "paused_of (fold drain_ring rs b) = paused_of b"
  by (induction rs arbitrary: b) auto

lemma paused_of_removals [simp]:
  "paused_of (fold (\<lambda>(mx, i). upd_mixer mx (RemoveInput i)) ps b) = paused_of b"
  by (induction ps arbitrary: b) auto

lemma paused_of_teardown [simp]: "paused_of (run_teardown td a) = paused_of a"
  by (simp add: run_teardown_def)

lemma paused_of_add_inputs:
  "paused_of (snd (snd (fold (add_user_input synth) ds st))) = paused_of (snd (snd st))"
proof (induction ds arbitrary: st)
  case (Cons d ds)
  have "paused_of (snd (snd (add_user_input synth d st))) = paused_of (snd (snd st))"
    by (auto simp: add_user_input_def Let_def split_def split: option.splits)
  with Cons show ?case by simp
qed simp

lemma paused_of_add_users:
  "paused_of (snd (snd (fold (add_user fs) us st))) = paused_of (snd (snd st))"
proof (induction us arbitrary: st)
  case (Cons u us)
  have "paused_of (snd (snd (add_user fs u st))) = paused_of (snd (snd st))"
    using paused_of_add_inputs [of "ub_SynthID u" fs "([], fst (snd st), snd (snd st))"]
    by (simp add: add_user_def split_def Let_def)
  with Cons show ?case by simp
qed simp

lemma paused_of_build [simp]:
  "paused_of (snd (snd (routerInstallBuilder opts mode users a))) = paused_of a"
  using paused_of_add_users [of "ib_Feeds opts" users "(Map.empty, no_teardown, a)"]
  by (simp add: routerInstallBuilder_def buildPerUserMixSpec_def Let_def split_def split: RouteMode.splits)

lemma synthIDForLocked_slot:
  "synthIDForLocked u (s, seed) = (i, s', seed') \<Longrightarrow>
     ss_ID s' = ss_ID s \<and> ss_Build s' = ss_Build s \<and> ss_Handle s' = ss_Handle s \<and>
     activeMode s' = activeMode s \<and> ss_ChannelID s' = ss_ChannelID s \<and> activeTeardown s' = activeTeardown s"
  by (auto simp: synthIDForLocked_def Let_def split: option.splits)

lemma bind_users_slot:
  "bind_users us (s, seed) = (bs, s', seed') \<Longrightarrow>
     ss_ID s' = ss_ID s \<and> ss_Build s' = ss_Build s \<and> ss_Handle s' = ss_Handle s \<and>
     activeMode s' = activeMode s \<and> ss_ChannelID s' = ss_ChannelID s \<and> activeTeardown s' = activeTeardown s"
proof (induction us arbitrary: s seed bs s' seed')
  case (Cons u us)
  obtain i s1 seed1 where 1: "synthIDForLocked u (s, seed) = (i, s1, seed1)" by (metis prod_cases3)
  obtain bs2 s2 seed2 where 2: "bind_users us (s1, seed1) = (bs2, s2, seed2)" by (metis prod_cases3)
  from Cons.prems 1 2 have "s' = s2" by simp
  with Cons.IH [OF 2] synthIDForLocked_slot [OF 1] show ?case by simp
qed simp

lemma bindUsersLocked_slot:
  "bindUsersLocked us mode (s, seed) = (bs, s', seed') \<Longrightarrow>
     ss_ID s' = ss_ID s \<and> ss_Build s' = ss_Build s \<and> ss_Handle s' = ss_Handle s \<and>
     activeMode s' = activeMode s \<and> ss_ChannelID s' = ss_ChannelID s \<and> activeTeardown s' = activeTeardown s"
  using bind_users_slot [of us s seed bs s' seed']
  by (auto simp: bindUsersLocked_def split: if_splits)

lemma route_slot_frame:
  "route_slot newMode users (s, seed, a) = (s', seed', a') \<Longrightarrow>
     ss_ID s' = ss_ID s \<and> ss_Build s' = ss_Build s \<and> ss_Handle s' = ss_Handle s \<and>
     ss_ChannelID s' = ss_ChannelID s \<and> activeMode s' = newMode \<and> paused_of a' = paused_of a"
proof -
  assume r: "route_slot newMode users (s, seed, a) = (s', seed', a')"
  let ?a1 = "case activeTeardown s of None \<Rightarrow> a | Some td \<Rightarrow> run_teardown td a"
  let ?s1 = "s\<lparr>activeTeardown := None, activeUsers := []\<rparr>"
  have a1: "paused_of ?a1 = paused_of a" by (simp split: option.split)
  consider "activeMode s = newMode" "s' = s" "a' = a"
    | (none) "ss_Handle s = None \<or> ss_Build s = None"
        "s' = pruneSynthIDsLocked users (?s1\<lparr>activeMode := newMode\<rparr>)" "a' = ?a1"
    | (build) h opts where "ss_Handle s = Some h" "ss_Build s = Some opts"
        "\<not> (activeMode s = newMode \<and> \<not> (newMode = RouteMix \<and> \<not> sameUserSet (activeUsers s) users))"
    using r by (cases "ss_Handle s"; cases "ss_Build s") (auto simp: route_slot_def Let_def split: if_splits)
  then show ?thesis
  proof cases
    case none
    then show ?thesis by (simp add: pruneSynthIDsLocked_def a1)
  next
    case (build h opts)
    obtain bs s2 seed2 where b: "bindUsersLocked users newMode (?s1, seed) = (bs, s2, seed2)"
      by (metis prod_cases3)
    obtain spec td a2 where i: "routerInstallBuilder opts newMode bs ?a1 = (spec, td, a2)"
      by (metis prod_cases3)
    have "s' = pruneSynthIDsLocked users (s2\<lparr>activeTeardown := Some td,
        activeUsers := (if newMode = RouteMix then users else []), activeMode := newMode\<rparr>)"
      "a' = upd_handle h (Install spec) a2"
      using r build b i unfolding route_slot_def by (auto simp: Let_def)
    moreover have "paused_of a2 = paused_of a"
      using paused_of_build [of opts newMode bs ?a1] a1 by (simp add: i)
    ultimately show ?thesis
      using bindUsersLocked_slot [OF b] by (simp add: pruneSynthIDsLocked_def)
  qed simp
qed

section \<open>One writer per destination, at every moment\<close>

text \<open>\<open>r\<close> still has the slots that \<open>r0\<close> had when the snapshot was taken.\<close>

definition same_topology :: "Router \<Rightarrow> Router \<Rightarrow> bool" where
  "same_topology r0 r \<longleftrightarrow>
     map fst (rt_sources r) = map fst (rt_sources r0) \<and> rt_destinations r = rt_destinations r0"

lemma paused_of_set_dest_paused:
  "paused_of (set_dest_paused now sn p (c, d) a) x =
     (if ds_Mixer d = Some x \<and> should_run sn c d \<noteq> p then p else paused_of a x)"
  by (auto simp: set_dest_paused_def paused_of_def upd_mixer_def SetPaused_def Let_def split: option.splits)

lemma feeds_update_source:
  assumes "map_of (rt_sources r) i = Some s" and "ss_Build s' = ss_Build s"
    and "rt_sources r' = AList.update i s' (rt_sources r)"
  shows "feeds r' = feeds r"
  using assms by (auto simp: feeds_def fun_eq_iff update_conv')

lemma map_fst_update: "i \<in> fst ` set al \<Longrightarrow> map fst (AList.update i v al) = map fst al"
  by (induction al) auto

lemma route_source_frame:
  assumes "route_source sn i (r, a) = (r', a')"
  shows "rt_destinations r' = rt_destinations r" "feeds r' = feeds r" "paused_of a' = paused_of a"
    "map fst (rt_sources r') = map fst (rt_sources r)"
    "copying r' j = (if j = i \<and> sn_modes sn i \<noteq> None \<and> map_of (rt_sources r) i \<noteq> None
       then sn_modes sn i = Some RouteCopy else copying r j)"
proof -
  consider "sn_modes sn i = None \<or> map_of (rt_sources r) i = None" "r' = r" "a' = a"
    | (hit) m s where "sn_modes sn i = Some m" "map_of (rt_sources r) i = Some s"
    using assms by (auto simp: route_source_def split: option.splits)
  then have "rt_destinations r' = rt_destinations r \<and> feeds r' = feeds r \<and> paused_of a' = paused_of a \<and>
    map fst (rt_sources r') = map fst (rt_sources r) \<and>
    copying r' j = (if j = i \<and> sn_modes sn i \<noteq> None \<and> map_of (rt_sources r) i \<noteq> None
       then sn_modes sn i = Some RouteCopy else copying r j)"
  proof cases
    case (hit m s)
    let ?us = "map_get [] (sn_users sn) (ss_ChannelID s)"
    obtain s' seed' a1 where s': "route_slot m ?us (s, synthSeed r, a) = (s', seed', a1)"
      by (metis prod_cases3)
    have src: "rt_sources r' = AList.update i s' (rt_sources r)" and "a' = a1"
      and dst: "rt_destinations r' = rt_destinations r"
      using assms hit s' by (auto simp: route_source_def Let_def)
    moreover have "i \<in> fst ` set (rt_sources r)" using hit(2) by (force dest: map_of_SomeD)
    ultimately show ?thesis
      using route_slot_frame [OF s'] hit feeds_update_source [OF hit(2) _ src]
      by (simp add: copying_def update_conv' map_fst_update)
  qed auto
  then show "rt_destinations r' = rt_destinations r" "feeds r' = feeds r" "paused_of a' = paused_of a"
    "map fst (rt_sources r') = map fst (rt_sources r)"
    "copying r' j = (if j = i \<and> sn_modes sn i \<noteq> None \<and> map_of (rt_sources r) i \<noteq> None
       then sn_modes sn i = Some RouteCopy else copying r j)" by blast+
qed

lemma recompute_sample_routes:
  assumes "recompute_sample pb r = Some sn"
  obtains counts rf where
    "computeRoutes (route_sources r) (route_dests r) counts rf = (sn_modes sn, sn_destMix sn)"
  using assms by (auto simp: recompute_sample_def Let_def split: if_splits prod.splits)

lemma recompute_sample_open: "\<not> closed r \<Longrightarrow> \<exists>sn. recompute_sample pb r = Some sn"
  by (simp add: recompute_sample_def Let_def split: prod.split)

lemma sampled_copy_off:
  assumes s: "recompute_sample pb r0 = Some sn" and t: "topo_ok r0" "same_topology r0 r"
    and "topo_ok r" "sn_modes sn i = Some RouteCopy" "d \<in> feeds r i" "ds_Mixer d = Some mx"
    and "(c, d') \<in> set (rt_destinations r)" "ds_Mixer d' = Some mx"
  shows "\<not> should_run sn c d'"
proof -
  obtain c0 where c0: "(c0, d) \<in> set (rt_destinations r)" "i \<in> set (ds_Sources d)"
    using assms(4,6) unfolding topo_ok_def by blast
  then have "c0 = c" using assms(4,7-9) unfolding topo_ok_def by blast
  with c0 assms(4,8) have d: "d' = d"
    unfolding topo_ok_def by (metis eq_key_imp_eq_value)
  obtain counts rf where m: "computeRoutes (route_sources r0) (route_dests r0) counts rf =
      (sn_modes sn, sn_destMix sn)" by (rule recompute_sample_routes [OF s])
  have dist: "distinct (map rd_channelID (route_dests r0))"
    using t(1) by (simp add: topo_ok_def route_dests_def split_def comp_def)
  have "\<lparr>rd_channelID = c, rd_sourceIDs = ds_Sources d\<rparr> \<in> set (route_dests r0)"
    using c0(1) \<open>c0 = c\<close> t(2) by (force simp: route_dests_def same_topology_def)
  from copy_source_dest_off [OF dist this _ m, of i] assms(5) c0(2) d show ?thesis
    by (simp add: should_run_def)
qed

lemma sampled_modes_total:
  assumes "recompute_sample pb r0 = Some sn" "topo_ok r0" "same_topology r0 r"
    and "map_of (rt_sources r) i \<noteq> None"
  shows "sn_modes sn i \<noteq> None"
proof -
  obtain counts rf where m: "computeRoutes (route_sources r0) (route_dests r0) counts rf =
      (sn_modes sn, sn_destMix sn)" by (rule recompute_sample_routes [OF assms(1)])
  have "i \<in> fst ` set (rt_sources r)" using assms(4) by (simp add: map_of_eq_None_iff)
  then have "i \<in> set (map fst (rt_sources r0))" using assms(3) by (metis same_topology_def set_map)
  then obtain s where "(i, s) \<in> set (rt_sources r0)" by auto
  moreover from this assms(2) have "ss_ID s = i" by (simp add: topo_ok_def)
  ultimately have "i \<in> rs_id ` set (route_sources r0)" by (force simp: route_sources_def image_iff)
  with computeRoutes_dom [OF m] show ?thesis by auto
qed

text \<open>\<open>settled\<close>: every mixer that should not run is paused.\<close>

definition settled :: "snapshot \<Rightarrow> (snowflake \<times> DestSlot) list \<Rightarrow> 'e audio \<Rightarrow> bool" where
  "settled sn ds a \<longleftrightarrow>
     (\<forall>c d mx. (c, d) \<in> set ds \<longrightarrow> ds_Mixer d = Some mx \<longrightarrow> \<not> should_run sn c d \<longrightarrow> paused_of a mx)"

definition pause_dests :: "instant \<Rightarrow> snapshot \<Rightarrow> bool \<Rightarrow> (snowflake \<times> DestSlot) list \<Rightarrow> 'e audio \<Rightarrow> 'e audio" where
  "pause_dests now sn p = fold (set_dest_paused now sn p)"

lemma do_pauses: "fold (do_route now sn) (map PauseDest ds) (r, a) = (r, pause_dests now sn True ds a)"
  by (induction ds arbitrary: a) (simp_all add: pause_dests_def)

lemma do_resumes: "fold (do_route now sn) (map ResumeDest ds) (r, a) = (r, pause_dests now sn False ds a)"
  by (induction ds arbitrary: a) (simp_all add: pause_dests_def)

lemma pausing_only_pauses: "paused_of a x \<Longrightarrow> paused_of (pause_dests now sn True ds a) x"
  unfolding pause_dests_def
  by (rule fold_invariant [where P = "\<lambda>a. paused_of a x"]) (auto simp: paused_of_set_dest_paused)

lemma pausing_settles: "settled sn ds (pause_dests now sn True ds a)"
proof (induction ds arbitrary: a)
  case (Cons e ds)
  obtain c d where e: "e = (c, d)" by fastforce
  let ?a = "set_dest_paused now sn True e a"
  have "paused_of (pause_dests now sn True (e # ds) a) mx"
    if "ds_Mixer d = Some mx" "\<not> should_run sn c d" for mx
    using that pausing_only_pauses [of ?a mx now sn ds] by (simp add: e pause_dests_def paused_of_set_dest_paused)
  with Cons [of ?a] show ?case by (auto simp: settled_def pause_dests_def e)
qed (simp add: settled_def)

lemma resuming_keeps_settled:
  assumes "topo_ok r" "set es \<subseteq> set (rt_destinations r)" "settled sn (rt_destinations r) a"
  shows "settled sn (rt_destinations r) (pause_dests now sn False es a)"
  unfolding pause_dests_def
proof (rule fold_invariant)
  fix e and b :: "'a audio"
  assume e: "e \<in> set es" and b: "settled sn (rt_destinations r) b"
  obtain c d where cd: "e = (c, d)" by fastforce
  have "c' = c \<and> d' = d" if "(c', d') \<in> set (rt_destinations r)" "ds_Mixer d' = Some mx" "ds_Mixer d = Some mx" for c' d' mx
  proof -
    have m: "(c, d) \<in> set (rt_destinations r)" using e assms(2) cd by blast
    have "c' = c" using assms(1) that m unfolding topo_ok_def by blast
    moreover have "distinct (map fst (rt_destinations r))" using assms(1) by (simp add: topo_ok_def)
    ultimately show ?thesis using eq_key_imp_eq_value that(1) m by fast
  qed
  with b show "settled sn (rt_destinations r) (set_dest_paused now sn False e b)"
    unfolding settled_def cd by (simp add: paused_of_set_dest_paused) blast
qed (use assms in simp)

lemma copying_source: "copying r i \<Longrightarrow> i \<in> fst ` set (rt_sources r)"
  by (auto simp: copying_def split: option.splits dest!: map_of_SomeD intro: rev_image_eqI)

lemma routing_frame:
  assumes "fold (do_route now sn) (map RouteSource is) (r, a) = (r', a')"
  shows "rt_destinations r' = rt_destinations r \<and> feeds r' = feeds r \<and> paused_of a' = paused_of a \<and>
    map fst (rt_sources r') = map fst (rt_sources r)"
  using assms
proof (induction "is" arbitrary: r a)
  case (Cons i "is")
  obtain r1 a1 where 1: "route_source sn i (r, a) = (r1, a1)" by fastforce
  with Cons.IH [of r1 a1] Cons.prems route_source_frame(1-4) [OF 1] show ?case by simp
qed simp

lemma routing_copies:
  assumes "fold (do_route now sn) (map RouteSource is) (r, a) = (r', a')"
    and "\<And>i. i \<in> fst ` set (rt_sources r) \<Longrightarrow> sn_modes sn i \<noteq> None" and "copying r' i"
  shows "sn_modes sn i = Some RouteCopy \<or> (i \<notin> set is \<and> copying r i)"
  using assms
proof (induction "is" arbitrary: r a)
  case (Cons j "is")
  obtain r1 a1 where 1: "route_source sn j (r, a) = (r1, a1)" by fastforce
  note f = route_source_frame [OF 1]
  have "sn_modes sn i = Some RouteCopy \<or> (i \<notin> set is \<and> copying r1 i)"
    using Cons.IH [of r1 a1] Cons.prems 1 f(4) by simp (metis set_map)
  moreover have "copying r1 i \<Longrightarrow> i = j \<Longrightarrow> sn_modes sn i = Some RouteCopy"
    using f(5) [of j] Cons.prems(2) [of j] copying_source [of r j]
    by (cases "j \<in> fst ` set (rt_sources r)") (auto simp: map_of_eq_None_iff)
  moreover have "copying r1 i \<Longrightarrow> i \<noteq> j \<Longrightarrow> copying r i" using f(5) [of i] by simp
  ultimately show ?case by auto
qed simp

lemma take_apply_ops:
  obtains (pausing) k where "take n (apply_ops order r) = map PauseDest (take k (rt_destinations r))"
  | (routing) k where "take n (apply_ops order r) =
      map PauseDest (rt_destinations r) @ map RouteSource (take k order)"
  | (resuming) k where "take n (apply_ops order r) =
      map PauseDest (rt_destinations r) @ map RouteSource order @ map ResumeDest (take k (rt_destinations r))"
  by (cases "n \<le> length (rt_destinations r)"; cases "n - length (rt_destinations r) \<le> length order")
    (auto simp: apply_ops_def take_map)


lemma exclusive_from_settled:
  assumes "recompute_sample pb r0 = Some sn" "topo_ok r0" "same_topology r0 r" "topo_ok r"
    and "feeds r' = feeds r" and "settled sn (rt_destinations r) a"
    and "\<And>i. copying r' i \<Longrightarrow> sn_modes sn i = Some RouteCopy \<or> (copying r i \<and> exclusive r a)"
  shows "exclusive r' a"
  unfolding exclusive_def
proof (intro allI impI)
  fix i d mx
  assume c: "copying r' i" and d: "d \<in> feeds r' i" "ds_Mixer d = Some mx"
  then have d': "d \<in> feeds r i" using assms(5) by simp
  obtain c0 where "(c0, d) \<in> set (rt_destinations r)" using d' assms(4) unfolding topo_ok_def by blast
  with sampled_copy_off [OF assms(1-4) _ d' d(2)] assms(6,7) c d(2) d' show "paused_of a mx"
    unfolding settled_def exclusive_def by blast
qed

lemma paused_exclusive:
  "exclusive r a \<Longrightarrow> (\<And>x. paused_of a x \<Longrightarrow> paused_of a' x) \<Longrightarrow> exclusive r a'"
  unfolding exclusive_def by blast

lemma exclusive_cong:
  "exclusive r a \<Longrightarrow> paused_of a' = paused_of a \<Longrightarrow> exclusive r a'"
  unfolding exclusive_def by simp

lemma routing_exclusive:
  assumes s: "recompute_sample pb r0 = Some sn" "topo_ok r0" "same_topology r0 r" "topo_ok r"
    and "exclusive r a" and f: "fold (do_route now sn) (map PauseDest (rt_destinations r) @ map RouteSource is) (r, a) = (r', a')"
  shows "exclusive r' a'" "settled sn (rt_destinations r) a'" "rt_destinations r' = rt_destinations r"
    "feeds r' = feeds r" "set is \<supseteq> fst ` set (rt_sources r) \<Longrightarrow> copying r' i \<Longrightarrow> sn_modes sn i = Some RouteCopy"
proof -
  let ?a = "pause_dests now sn True (rt_destinations r) a"
  have g: "fold (do_route now sn) (map RouteSource is) (r, ?a) = (r', a')" using f by (simp add: do_pauses)
  note frame = routing_frame [OF g]
  have tot: "i \<in> fst ` set (rt_sources r) \<Longrightarrow> sn_modes sn i \<noteq> None" for i
    using sampled_modes_total [OF s(1-3)] by (simp add: map_of_eq_None_iff)
  have ex: "exclusive r ?a" using assms(5) pausing_only_pauses by (rule paused_exclusive)
  have "exclusive r' ?a"
    using routing_copies [OF g tot] ex by (intro exclusive_from_settled [OF s _ pausing_settles]) (auto simp: frame)
  then show "exclusive r' a'" using frame by (blast intro: exclusive_cong)
  show "settled sn (rt_destinations r) a'"
    using pausing_settles [of sn "rt_destinations r" now a] frame by (simp add: settled_def)
  show "rt_destinations r' = rt_destinations r" "feeds r' = feeds r" using frame by blast+
  show "set is \<supseteq> fst ` set (rt_sources r) \<Longrightarrow> copying r' i \<Longrightarrow> sn_modes sn i = Some RouteCopy"
    using routing_copies [OF g tot, of i] copying_source [of r i] by blast
qed



text \<open>One speaker channel (20) fed by two source channels (10 and 11), with one caller each.\<close>

definition demo_dest :: DestSlot where
  "demo_dest = \<lparr>ds_ChannelID = 20, ds_Mixer = Some 0, ds_Sources = [1, 2], ds_ChOuts = [5],
     ds_RelayFeed = False\<rparr>"

definition demo_slot :: "snowflake \<Rightarrow> snowflake \<Rightarrow> nat \<Rightarrow> RouteMode \<Rightarrow> SourceSlot" where
  "demo_slot i c h m = \<lparr>ss_ID = i, ss_ChannelID = c, ss_Handle = Some h,
     ss_Build = Some \<lparr>ib_Feeds = [demo_dest], allyBroadcast = False, rawTargets = None\<rparr>,
     activeMode = m, activeTeardown = None, activeUsers = [], synthIDs = []\<rparr>"

definition demo_router :: Router where
  "demo_router = New [demo_slot 1 10 0 RouteCopy, demo_slot 2 11 1 RouteOff] [demo_dest]"

definition demo_audio :: "unit audio" where
  "demo_audio = upd_mixer 0 (SetPaused True 0) blank_audio"

definition demo_probe :: probe where
  "demo_probe = \<lparr>EnumerateCallers = (\<lambda>c. [100 + c]), HasListeners = (\<lambda>_. True), RelayFeed = (\<lambda>_. False)\<rparr>"

lemma demo_topology: "topo_ok demo_router" "same_topology demo_router demo_router"
  "exclusive demo_router demo_audio"
  by (auto simp: topo_ok_def same_topology_def exclusive_def demo_router_def New_def demo_slot_def
      demo_dest_def feeds_def copying_def demo_audio_def paused_of_def upd_mixer_def SetPaused_def
      Let_def split: if_splits)



section \<open>Shutdown\<close>

definition installed :: "'e audio \<Rightarrow> nat \<Rightarrow> fanoutDispatch option" where
  "installed a h = map_option (\<lambda>i. fh_installed (handles a h) ! i) (fh_state (handles a h))"

lemma installed_upd_handle [simp]:
  "installed (upd_handle h (Install spec) a) h' = (if h' = h then Some spec else installed a h')"
  by (simp add: installed_def upd_handle_def Install_def)

lemma installed_upd_mixer [simp]: "installed (upd_mixer x f a) = installed a"
  by (simp add: installed_def fun_eq_iff upd_mixer_def)

lemma installed_drain [simp]: "installed (drain_ring x a) = installed a"
  by (simp add: installed_def fun_eq_iff drain_ring_def split_def Let_def)

lemma installed_drains [simp]: "installed (fold drain_ring rs a) = installed a"
  by (induction rs arbitrary: a) auto

lemma installed_removals [simp]:
  "installed (fold (\<lambda>(mx, i). upd_mixer mx (RemoveInput i)) ps a) = installed a"
  by (induction ps arbitrary: a) auto

lemma installed_teardown [simp]: "installed (run_teardown td a) = installed a"
  by (simp add: run_teardown_def)

lemma inputs_of_upd_handle [simp]: "inputs_of (upd_handle h f a) = inputs_of a"
  by (simp add: inputs_of_def [abs_def] upd_handle_def)

lemma close_slot_effect:
  assumes "close_slot (s, a) = (s', a')"
  shows "activeTeardown s' = None" "ss_Handle s' = ss_Handle s" "ss_ID s' = ss_ID s"
    "ss_Handle s = Some h \<Longrightarrow> installed a' h = Some empty_install"
    "installed a h = Some empty_install \<Longrightarrow> installed a' h = Some empty_install"
    "inputs_of a x i = None \<Longrightarrow> inputs_of a' x i = None"
    "activeTeardown s = Some td \<Longrightarrow> (x, i) \<in> set (td_removals td) \<Longrightarrow> inputs_of a' x i = None"
  using assms
  by (auto simp: close_slot_def Let_def run_teardown_inputs split: option.splits if_splits)

lemma close_slots_Cons:
  assumes "close_slots (e # ss) a = (ss', a')"
  obtains s1 a1 ss2 where "close_slot (snd e, a) = (s1, a1)" "close_slots ss a1 = (ss2, a')"
    "ss' = (fst e, s1) # ss2"
  using assms by (cases e) (auto simp: Let_def split: prod.splits)

lemma close_slots_torn_down:
  "close_slots ss a = (ss', a') \<Longrightarrow> e \<in> set ss' \<Longrightarrow> activeTeardown (snd e) = None"
proof (induction ss arbitrary: a ss' a')
  case (Cons e' ss)
  from Cons.prems(1) show ?case
    by (rule close_slots_Cons) (use Cons.IH Cons.prems(2) close_slot_effect(1) in auto)
qed simp

lemma close_slots_silent:
  "close_slots ss a = (ss', a') \<Longrightarrow>
     installed a h = Some empty_install \<or> Some h \<in> (ss_Handle \<circ> snd) ` set ss \<Longrightarrow>
     installed a' h = Some empty_install"
proof (induction ss arbitrary: a ss' a')
  case (Cons e ss)
  from Cons.prems(1) show ?case
  proof (rule close_slots_Cons)
    fix s1 a1 ss2
    assume "close_slot (snd e, a) = (s1, a1)" and q: "close_slots ss a1 = (ss2, a')"
    note close_slot_effect(4,5) [OF this(1), of h]
    with Cons.prems(2) show ?thesis by (intro Cons.IH [OF q]) auto
  qed
qed auto

lemma close_slots_inputs:
  "close_slots ss a = (ss', a') \<Longrightarrow>
     inputs_of a x i = None \<or> (\<exists>e \<in> set ss. \<exists>td. activeTeardown (snd e) = Some td \<and> (x, i) \<in> set (td_removals td)) \<Longrightarrow>
     inputs_of a' x i = None"
proof (induction ss arbitrary: a ss' a')
  case (Cons e ss)
  from Cons.prems(1) show ?case
  proof (rule close_slots_Cons)
    fix s1 a1 ss2
    assume "close_slot (snd e, a) = (s1, a1)" and q: "close_slots ss a1 = (ss2, a')"
    note close_slot_effect(6,7) [OF this(1), where x = x and i = i]
    with Cons.prems(2) show ?thesis by (intro Cons.IH [OF q]) auto
  qed
qed auto

text \<open>
  C34. \<^verbatim>\<open>Close\<close> stops every writer: afterwards each source's handle holds the empty install, no
  teardown and no timer is pending, every mixer input a source had allocated is gone, and later
  recomputes and schedules change nothing.
\<close>

theorem Router_Close_silences:
  assumes "Close (r, a) = (r', a')" and "(i, s) \<in> set (rt_sources r)"
  shows "(\<forall>h. ss_Handle s = Some h \<longrightarrow> installed a' h = Some empty_install) \<and>
    (\<forall>(j, s') \<in> set (rt_sources r'). activeTeardown s' = None) \<and> debounceTimers r' = Map.empty \<and>
    (\<forall>td x u. activeTeardown s = Some td \<longrightarrow> (x, u) \<in> set (td_removals td) \<longrightarrow> inputs_of a' x u = None) \<and>
    Recompute now pb order (r', a') = ((r', a'), None) \<and> ScheduleRecompute now delay r' = r'"
proof -
  obtain ss where c: "close_slots (rt_sources r) a = (ss, a')" and r': "r' = r\<lparr>closed := True, debounceTimers := Map.empty, rt_sources := ss\<rparr>"
    using assms(1) by (auto simp: Close_def split: prod.splits)
  have "installed a' h = Some empty_install" if "ss_Handle s = Some h" for h
    using that assms(2) by (intro close_slots_silent [OF c]) force
  moreover have "inputs_of a' x u = None" if "activeTeardown s = Some td" "(x, u) \<in> set (td_removals td)" for td x u
    using that assms(2) by (intro close_slots_inputs [OF c]) force
  ultimately show ?thesis
    using close_slots_torn_down [OF c]
    by (auto simp: r' Recompute_def recompute_sample_def ScheduleRecompute_def)
qed

lemma Router_Close_silences_witness:
  "case Close (demo_router, demo_audio) of (r', a') \<Rightarrow>
     installed a' 0 = Some empty_install \<and> Recompute 9 demo_probe [1, 2] (r', a') = ((r', a'), None)"
proof -
  obtain r' a' where c: "Close (demo_router, demo_audio) = (r', a')" by fastforce
  have "(1, demo_slot 1 10 0 RouteCopy) \<in> set (rt_sources demo_router)"
    by (simp add: demo_router_def New_def demo_slot_def)
  from Router_Close_silences [OF c this, of 9 demo_probe "[1, 2]" 0] show ?thesis
    by (simp add: c demo_slot_def)
qed

definition late_router :: Router where
  "late_router = New [demo_slot 1 10 0 RouteOff] [demo_dest\<lparr>ds_Sources := [1]\<rparr>]"

text \<open>
  The guarantee ends at \<^verbatim>\<open>Recompute\<close>'s unlocked gap: \<^verbatim>\<open>applyModes\<close> does not look at \<open>closed\<close>
  again, so a recompute that has sampled before \<^verbatim>\<open>Close\<close> and applies after it puts a raw writer
  back on the speaker channel of a closed router.
\<close>

theorem late_apply_reopens_closed_router:
  "let sn = the (recompute_sample demo_probe late_router);
       (r', a') = fst (recompute_apply 7 sn [1] (Close (late_router, demo_audio)))
   in \<not> closed late_router \<and> closed r' \<and> map_option opusTargets (installed a' 0) = Some [5]"
  by code_simp

section \<open>Recompute converges and is idempotent\<close>

text \<open>Source \<open>s\<close> already is what the snapshot asks for.\<close>

definition up_to_date :: "snapshot \<Rightarrow> snowflake \<Rightarrow> SourceSlot \<Rightarrow> bool" where
  "up_to_date sn i s \<longleftrightarrow> sn_modes sn i = Some (activeMode s) \<and>
     (activeMode s = RouteMix \<longrightarrow> sameUserSet (activeUsers s) (map_get [] (sn_users sn) (ss_ChannelID s)))"

lemma sameUserSet_refl: "sameUserSet us us"
  by (simp add: sameUserSet_def list_all_iff)

lemma bindUsersLocked_users:
  "bindUsersLocked us mode (s, seed) = (bs, s', seed') \<Longrightarrow> ss_ChannelID s' = ss_ChannelID s"
  using bindUsersLocked_slot by blast

lemma route_slot_settles:
  assumes "route_slot m users (s, seed, a) = (s', seed', a')"
    and "ss_Handle s \<noteq> None" "ss_Build s \<noteq> None"
  shows "activeMode s' = m \<and> (m = RouteMix \<longrightarrow> sameUserSet (activeUsers s') users)"
  using assms route_slot_frame [OF assms(1)]
  by (auto simp: route_slot_def Let_def pruneSynthIDsLocked_def sameUserSet_refl split: if_splits prod.splits)

lemma route_source_up_to_date:
  assumes "map_of (rt_sources r) i = Some s" "up_to_date sn i s"
  shows "route_source sn i (r, a) = (r, a)"
proof -
  have "AList.update i s al = al" if "map_of al i = Some s" for al
    using that by (induction al) auto
  then show ?thesis using assms
    by (simp add: route_source_def up_to_date_def route_slot_def)
qed

definition equipped :: "Router \<Rightarrow> bool" where
  "equipped r \<longleftrightarrow> (\<forall>e \<in> set (rt_sources r). ss_Handle (snd e) \<noteq> None \<and> ss_Build (snd e) \<noteq> None)"

text \<open>What routing never changes of the source table.\<close>

definition skeleton :: "Router \<Rightarrow> (snowflake \<times> snowflake \<times> snowflake \<times> nat option \<times> installBuildOpts option) list" where
  "skeleton r = map (\<lambda>(i, s). (i, ss_ID s, ss_ChannelID s, ss_Handle s, ss_Build s)) (rt_sources r)"

lemma skeleton_update:
  assumes "map_of al i = Some s" "f s' = f s"
  shows "map (\<lambda>(i, s). (i, f s)) (AList.update i s' al) = map (\<lambda>(i, s). (i, f s)) al"
  using assms by (induction al) (auto split: if_splits)

lemma route_source_skeleton:
  assumes "route_source sn i (r, a) = (r', a')"
  shows "skeleton r' = skeleton r" "closed r' = closed r"
    "map_of (rt_sources r') j = (if j = i \<and> sn_modes sn i \<noteq> None then map_of (rt_sources r') i else map_of (rt_sources r) j)"
    "equipped r \<Longrightarrow> sn_modes sn i \<noteq> None \<Longrightarrow> map_of (rt_sources r') i = Some s' \<Longrightarrow> up_to_date sn i s'"
proof -
  consider "sn_modes sn i = None \<or> map_of (rt_sources r) i = None" "r' = r" "a' = a"
    | (hit) m s where "sn_modes sn i = Some m" "map_of (rt_sources r) i = Some s"
    using assms by (auto simp: route_source_def split: option.splits)
  then have "skeleton r' = skeleton r \<and> closed r' = closed r \<and>
    map_of (rt_sources r') j = (if j = i \<and> sn_modes sn i \<noteq> None then map_of (rt_sources r') i else map_of (rt_sources r) j) \<and>
    (equipped r \<longrightarrow> sn_modes sn i \<noteq> None \<longrightarrow> map_of (rt_sources r') i = Some s' \<longrightarrow> up_to_date sn i s')"
  proof cases
    case (hit m s)
    let ?us = "map_get [] (sn_users sn) (ss_ChannelID s)"
    obtain t seed' a1 where t: "route_slot m ?us (s, synthSeed r, a) = (t, seed', a1)"
      by (metis prod_cases3)
    have src: "rt_sources r' = AList.update i t (rt_sources r)" and "closed r' = closed r"
      using assms hit t by (auto simp: route_source_def Let_def)
    moreover have "skeleton r' = skeleton r"
      using skeleton_update [OF hit(2), of "\<lambda>s. (ss_ID s, ss_ChannelID s, ss_Handle s, ss_Build s)" t]
        route_slot_frame [OF t] by (simp add: skeleton_def src)
    moreover have "equipped r \<Longrightarrow> up_to_date sn i t"
      using route_slot_settles [OF t] route_slot_frame [OF t] map_of_SomeD [OF hit(2)] hit(1)
      by (force simp: up_to_date_def equipped_def)
    ultimately show ?thesis using hit by (auto simp: update_conv' split: if_splits)
  qed auto
  then show "skeleton r' = skeleton r" "closed r' = closed r"
    "map_of (rt_sources r') j = (if j = i \<and> sn_modes sn i \<noteq> None then map_of (rt_sources r') i else map_of (rt_sources r) j)"
    "equipped r \<Longrightarrow> sn_modes sn i \<noteq> None \<Longrightarrow> map_of (rt_sources r') i = Some s' \<Longrightarrow> up_to_date sn i s'" by blast+
qed

lemma equipped_skeleton: "skeleton r' = skeleton r \<Longrightarrow> equipped r' = equipped r"
proof -
  have "equipped r \<longleftrightarrow> (\<forall>(i, id, c, h, b) \<in> set (skeleton r). h \<noteq> None \<and> b \<noteq> None)" for r
    by (auto simp: equipped_def skeleton_def)
  then show "skeleton r' = skeleton r \<Longrightarrow> equipped r' = equipped r" by simp
qed


definition up_to_date_at :: "snapshot \<Rightarrow> Router \<Rightarrow> snowflake \<Rightarrow> bool" where
  "up_to_date_at sn r i \<longleftrightarrow> (\<forall>s. map_of (rt_sources r) i = Some s \<longrightarrow> up_to_date sn i s)"

lemma routing_settles:
  assumes "fold (do_route now sn) (map RouteSource is) (r, a) = (r', a')" and "equipped r"
  shows "skeleton r' = skeleton r \<and> closed r' = closed r \<and>
    (sn_modes sn i \<noteq> None \<longrightarrow> i \<in> set is \<or> up_to_date_at sn r i \<longrightarrow> up_to_date_at sn r' i)"
  using assms
proof (induction "is" arbitrary: r a)
  case (Cons j "is")
  obtain r1 a1 where 1: "route_source sn j (r, a) = (r1, a1)" by fastforce
  note f = route_source_skeleton [OF 1]
  have "sn_modes sn i \<noteq> None \<Longrightarrow> i = j \<or> up_to_date_at sn r i \<Longrightarrow> up_to_date_at sn r1 i"
    using f(3) [of i] f(4) [OF Cons.prems(2)] by (cases "i = j") (auto simp: up_to_date_at_def)
  with Cons.IH [of r1 a1] Cons.prems 1 f(1,2) equipped_skeleton [OF f(1)] show ?case by auto
qed simp

lemma routing_idle:
  "(\<And>i. i \<in> set is \<Longrightarrow> up_to_date_at sn r i) \<Longrightarrow> fold (do_route now sn) (map RouteSource is) (r, a) = (r, a)"
proof (induction "is")
  case (Cons i "is")
  have "route_source sn i (r, a) = (r, a)"
  proof (cases "map_of (rt_sources r) i")
    case None
    then show ?thesis by (simp add: route_source_def split: option.split)
  next
    case (Some s)
    then show ?thesis using Cons.prems [of i] route_source_up_to_date [OF Some]
      by (simp add: up_to_date_at_def)
  qed
  with Cons show ?case by simp
qed simp

text \<open>Every mixer runs exactly when it should.\<close>

definition mixers_match :: "snapshot \<Rightarrow> (snowflake \<times> DestSlot) list \<Rightarrow> 'e audio \<Rightarrow> bool" where
  "mixers_match sn ds a \<longleftrightarrow>
     (\<forall>c d mx. (c, d) \<in> set ds \<longrightarrow> ds_Mixer d = Some mx \<longrightarrow> paused_of a mx = (\<not> should_run sn c d))"

lemma resuming_only_resumes: "\<not> paused_of a x \<Longrightarrow> \<not> paused_of (pause_dests now sn False ds a) x"
  unfolding pause_dests_def
  by (rule fold_invariant [where P = "\<lambda>a. \<not> paused_of a x"])
    (auto simp: paused_of_set_dest_paused split: if_splits)

lemma resuming_runs:
  "(c, d) \<in> set ds \<Longrightarrow> ds_Mixer d = Some mx \<Longrightarrow> should_run sn c d \<Longrightarrow>
     \<not> paused_of (pause_dests now sn False ds a) mx"
proof (induction ds arbitrary: a)
  case (Cons e ds)
  let ?a = "set_dest_paused now sn False e a"
  have "e = (c, d) \<Longrightarrow> \<not> paused_of ?a mx" using Cons.prems by (simp add: paused_of_set_dest_paused)
  with resuming_only_resumes [of ?a mx now sn ds] Cons show ?case by (auto simp: pause_dests_def)
qed simp

lemma set_dest_paused_idle:
  assumes "mixers_match sn ds a" "e \<in> set ds"
  shows "set_dest_paused now sn p e a = a"
proof -
  have "SetPaused (paused m) now m = m" for m :: "'a Mixer" by (simp add: SetPaused_def Let_def)
  then have id: "upd_mixer mx (SetPaused (paused_of a mx) now) a = a" for mx
    by (simp add: upd_mixer_def paused_of_def)
  obtain c d where e: "e = (c, d)" by fastforce
  have "upd_mixer mx (SetPaused (\<not> should_run sn c d) now) a = a" if "ds_Mixer d = Some mx" for mx
  proof -
    have "paused_of a mx = (\<not> should_run sn c d)" using assms that unfolding mixers_match_def e by blast
    from id [of mx, unfolded this] show ?thesis .
  qed
  then show ?thesis
    by (cases "ds_Mixer d") (simp_all only: e set_dest_paused_def prod.case option.case if_cancel)
qed

lemma pausing_idle:
  assumes "mixers_match sn ds a"
  shows "pause_dests now sn p ds a = a"
proof -
  have "set es \<subseteq> set ds \<Longrightarrow> pause_dests now sn p es a = a" for es
    using set_dest_paused_idle [OF assms] by (induction es) (auto simp: pause_dests_def)
  then show ?thesis by simp
qed

lemma recompute_sample_skeleton:
  assumes "skeleton r' = skeleton r" "closed r' = closed r" "rt_destinations r' = rt_destinations r"
  shows "recompute_sample pb r' = recompute_sample pb r"
proof -
  have "route_sources r = map (\<lambda>(i, id, c, h, b). \<lparr>rs_id = id, rs_channelID = c\<rparr>) (skeleton r)"
    "map (ss_ChannelID \<circ> snd) (rt_sources r) = map (\<lambda>(i, id, c, h, b). c) (skeleton r)" for r
    by (auto simp: route_sources_def skeleton_def)
  then have "route_sources r' = route_sources r"
    "map (ss_ChannelID \<circ> snd) (rt_sources r') = map (ss_ChannelID \<circ> snd) (rt_sources r)"
    using assms(1) by simp_all
  then show ?thesis using assms(2,3) by (simp add: recompute_sample_def route_dests_def)
qed

lemma applyModes_converges:
  assumes s: "recompute_sample pb r = Some sn" "topo_ok r" and "equipped r"
    and "set order = fst ` set (rt_sources r)" and "applyModes now sn order (r, a) = (r', a')"
  shows "\<forall>i \<in> set order. up_to_date_at sn r' i" "mixers_match sn (rt_destinations r') a'"
    "skeleton r' = skeleton r" "closed r' = closed r" "rt_destinations r' = rt_destinations r"
proof -
  let ?ds = "rt_destinations r"
  let ?a = "pause_dests now sn True ?ds a"
  obtain r1 a1 where g: "fold (do_route now sn) (map RouteSource order) (r, ?a) = (r1, a1)" by fastforce
  then have st: "r' = r1" "a' = pause_dests now sn False ?ds a1"
    using assms(5) by (simp_all add: applyModes_def apply_ops_def do_pauses do_resumes)
  note fr = routing_frame [OF g]
  have "sn_modes sn i \<noteq> None" if "i \<in> set order" for i
    using sampled_modes_total [OF s, of r i] that assms(4) by (simp add: same_topology_def map_of_eq_None_iff)
  then show "\<forall>i \<in> set order. up_to_date_at sn r' i" "skeleton r' = skeleton r" "closed r' = closed r"
    using routing_settles [OF g assms(3)] st by blast+
  show "rt_destinations r' = rt_destinations r" using fr st by simp
  have "settled sn ?ds a1" using pausing_settles [of sn ?ds now a] fr by (simp add: settled_def)
  from resuming_keeps_settled [OF s(2) subset_refl this] show "mixers_match sn (rt_destinations r') a'"
    using resuming_runs fr st unfolding mixers_match_def settled_def by metis
qed



end
