(* ===== verification/Pipeline.thy ===== *)
theory Pipeline
  imports Router Ally
begin

text \<open>
  The topologies: \<^verbatim>\<open>internal/manager/pipeline\<close>.  A pipeline turns the bots that joined into the
  sources, destinations and mixers of a router, a list of things to start and a list of things
  to tear down.

  Slots are shared by pointer and the lists \<^verbatim>\<open>Feeds\<close> and \<^verbatim>\<open>Sources\<close> are filled while the slots are
  built; here a destination is a value, so the destinations are built with all their sources
  first and the sources then refer to the finished ones.  The \<open>k\<close>-th mixer a build creates has
  the number \<open>k\<close>; \<open>new_mixer k\<close> is the error of that creation, if any.  A map from channels to
  mixers is filled in order, so of two destinations with one channel the later one wins.

  The sinks of the channel mixers and the relay bridge work on the queues and pools of
  \<open>VoiceIO\<close>; registering the relay inputs works on the mixers of \<open>Install\<close>.
\<close>

section \<open>Types\<close>

definition RelayInputID :: snowflake where "RelayInputID = 1"
definition RelayDestID :: snowflake where "RelayDestID = 2"
definition VoiceLeaveTimeout :: duration where "VoiceLeaveTimeout = 5 * Second"

text \<open>A joined speaker; the cleanup and the undeafening are only there or not.\<close>

record SpeakerResult =
  sr_ID :: snowflake
  sr_ChOut :: nat
  sr_Handle :: "nat option"
  sr_ChannelID :: snowflake
  sr_Cleanup :: bool
  sr_Undeafen :: bool

record SourceEntry =
  se_ID :: snowflake
  se_ChannelID :: snowflake
  se_Handle :: "nat option"

record DestChannel =
  dch_ChannelID :: snowflake
  dch_Outs :: "nat list"

record Params =
  pp_GuildID :: snowflake
  pp_OwnerBotID :: snowflake
  pp_OwnerChannelID :: snowflake
  pp_Mode :: RaidMode
  pp_OwnerHandle :: "nat option"
  pp_ChOwnerOut :: "nat option"
  pp_Joined :: "SpeakerResult list"
  pp_Deaf :: bool

record GuestParams =
  gp_GuestGuildID :: snowflake
  gp_OwnerBotID :: snowflake
  gp_OwnerChannelID :: snowflake
  gp_OwnerHandle :: "nat option"
  gp_OwnerChOut :: "nat option"
  gp_Joined :: "SpeakerResult list"
  gp_Outs :: "nat list"
  gp_Deaf :: bool

text \<open>What a start function does, in order, and what a session's cleanup does.\<close>

datatype start_op =
    DoRegisterRelay "DestChannel list" "snowflake \<rightharpoonup> nat"
  | DoWatchMembership bool
  | DoAddGuild "nat list"
  | DoStartMixers "DestChannel list" "snowflake \<rightharpoonup> nat" bool
  | DoStartRelay nat
  | DoRecompute
  | DoFollowup duration

datatype cleanup_op = DoCloseRouter | DoCloseRelayInputs | DoSpeakerCleanup

record built =
  bu_router :: "Router option"
  bu_pausers :: "snowflake \<rightharpoonup> nat"
  bu_IsGuest :: bool
  bu_start :: "start_op list"
  bu_cleanup :: "cleanup_op list"

section \<open>Grouping the bots\<close>

fun dedup_captures :: "snowflake set \<Rightarrow> SpeakerResult list \<Rightarrow> SpeakerResult list" where
  "dedup_captures seen [] = []"
| "dedup_captures seen (r # rs) =
     (if sr_Handle r = None then dedup_captures seen rs
      else if sr_ChannelID r \<in> seen then dedup_captures seen rs
      else r # dedup_captures (insert (sr_ChannelID r) seen) rs)"

definition IterDeduplicatedCaptures :: "SpeakerResult list \<Rightarrow> SpeakerResult list" where
  "IterDeduplicatedCaptures joined = dedup_captures {} joined"

definition BuildGuestSources :: "SpeakerResult list \<Rightarrow> SourceEntry list" where
  "BuildGuestSources joined =
     map (\<lambda>r. \<lparr>se_ID = sr_ID r, se_ChannelID = sr_ChannelID r, se_Handle = sr_Handle r\<rparr>)
       (IterDeduplicatedCaptures joined)"

definition BuildSources :: "snowflake \<Rightarrow> snowflake \<Rightarrow> nat option \<Rightarrow> SpeakerResult list \<Rightarrow> SourceEntry list" where
  "BuildSources owner ch h joined =
     \<lparr>se_ID = owner, se_ChannelID = ch, se_Handle = h\<rparr> # BuildGuestSources joined"

definition SpeakerOutputs :: "SpeakerResult list \<Rightarrow> (nat \<rightharpoonup> snowflake)" where
  "SpeakerOutputs joined = fold (\<lambda>r m. m(sr_ChOut r \<mapsto> sr_ID r)) joined Map.empty"

definition with_owner_out :: "nat option \<Rightarrow> snowflake \<Rightarrow> (nat \<rightharpoonup> snowflake) \<Rightarrow> (nat \<rightharpoonup> snowflake)" where
  "with_owner_out out owner m = (case out of None \<Rightarrow> m | Some c \<Rightarrow> m(c \<mapsto> owner))"

definition outputBots :: "Params \<Rightarrow> (nat \<rightharpoonup> snowflake)" where
  "outputBots p = with_owner_out (pp_ChOwnerOut p) (pp_OwnerBotID p) (SpeakerOutputs (pp_Joined p))"

definition guest_outputBots :: "GuestParams \<Rightarrow> (nat \<rightharpoonup> snowflake)" where
  "guest_outputBots p = with_owner_out (gp_OwnerChOut p) (gp_OwnerBotID p) (SpeakerOutputs (gp_Joined p))"

text \<open>\<^verbatim>\<open>destMap\<close> as an association list; its order stands for the order Go ranges over it.\<close>

definition add_output :: "SpeakerResult \<Rightarrow> (snowflake \<times> nat list) list \<Rightarrow> (snowflake \<times> nat list) list" where
  "add_output r m = AList.update (sr_ChannelID r) (map_get [] (map_of m) (sr_ChannelID r) @ [sr_ChOut r]) m"

definition BuildDestinations :: "SpeakerResult list \<Rightarrow> DestChannel list" where
  "BuildDestinations joined =
     map (\<lambda>(c, qs). \<lparr>dch_ChannelID = c, dch_Outs = qs\<rparr>) (fold add_output joined [])"

definition owner_dest :: "snowflake \<Rightarrow> nat option \<Rightarrow> DestChannel list" where
  "owner_dest c out = (case out of None \<Rightarrow> [] | Some q \<Rightarrow> [\<lparr>dch_ChannelID = c, dch_Outs = [q]\<rparr>])"

section \<open>Slots\<close>

definition source_slot :: "SourceEntry \<Rightarrow> DestSlot list \<Rightarrow> bool \<Rightarrow> nat list option \<Rightarrow> SourceSlot" where
  "source_slot e fds ally raw =
     \<lparr>ss_ID = se_ID e, ss_ChannelID = se_ChannelID e, ss_Handle = se_Handle e,
      ss_Build = Some \<lparr>ib_Feeds = fds, allyBroadcast = ally, rawTargets = raw\<rparr>,
      activeMode = RouteOff, activeTeardown = None, activeUsers = [], synthIDs = []\<rparr>"

definition dest_slot :: "snowflake \<Rightarrow> nat option \<Rightarrow> nat list \<Rightarrow> bool \<Rightarrow> snowflake list \<Rightarrow> DestSlot" where
  "dest_slot c mx qs fed srcs =
     \<lparr>ds_ChannelID = c, ds_Mixer = mx, ds_Sources = srcs, ds_ChOuts = qs, ds_RelayFeed = fed\<rparr>"

definition channel_mixers :: "DestChannel list \<Rightarrow> (snowflake \<rightharpoonup> nat)" where
  "channel_mixers ds = fold (\<lambda>(k, d) m. m(dch_ChannelID d \<mapsto> k)) (enumerate 0 ds) Map.empty"

text \<open>The slots of the channels, then the relay slot; \<open>srcs c\<close> are the sources of channel \<open>c\<close>.\<close>

definition dest_slots :: "DestChannel list \<Rightarrow> bool \<Rightarrow> (snowflake \<Rightarrow> snowflake list) \<Rightarrow> DestSlot list" where
  "dest_slots ds fed srcs =
     map (\<lambda>d. dest_slot (dch_ChannelID d) (channel_mixers ds (dch_ChannelID d)) (dch_Outs d) fed
       (srcs (dch_ChannelID d))) ds @
     [dest_slot RelayDestID (Some (length ds)) [] False (srcs RelayDestID)]"

fun create_mixers :: "(nat \<Rightarrow> string option) \<Rightarrow> (nat \<times> string) list \<Rightarrow> string option" where
  "create_mixers new_mixer [] = None"
| "create_mixers new_mixer ((k, what) # ks) =
     (case new_mixer k of Some e \<Rightarrow> Some (what @ e) | None \<Rightarrow> create_mixers new_mixer ks)"

definition channel_and_relay :: "string \<Rightarrow> nat \<Rightarrow> (nat \<times> string) list" where
  "channel_and_relay prefix n =
     map (\<lambda>k. (k, prefix @ ''create channel mixer: '')) [0..<n] @ [(n, prefix @ ''create relay mixer: '')]"

text \<open>\<^verbatim>\<open>router.New\<close> with the capture observer of the setup, which is nil without a deaf controller.\<close>

definition new_router :: "bool \<Rightarrow> SourceSlot list \<Rightarrow> DestSlot list \<Rightarrow> Router" where
  "new_router deaf ss ds = (New ss ds)\<lparr>observes := deaf\<rparr>"

section \<open>Host pipelines\<close>

definition OneCaller_Build :: "(nat \<Rightarrow> string option) \<Rightarrow> Params \<Rightarrow> string + built" where
  "OneCaller_Build new_mixer p =
     (let destinations = BuildDestinations (pp_Joined p); n = length destinations;
          mixers = channel_mixers destinations in
      case create_mixers new_mixer (channel_and_relay [] n) of
        Some e \<Rightarrow> Inl e
      | None \<Rightarrow>
          let dests = dest_slots destinations False (\<lambda>_. [pp_OwnerBotID p]);
              owner = source_slot \<lparr>se_ID = pp_OwnerBotID p, se_ChannelID = pp_OwnerChannelID p,
                se_Handle = pp_OwnerHandle p\<rparr> dests True None
          in Inr \<lparr>bu_router = Some (new_router (pp_Deaf p) [owner] dests),
               bu_pausers = mixers(RelayDestID \<mapsto> n), bu_IsGuest = False,
               bu_start = [DoWatchMembership True, DoStartMixers destinations mixers False, DoStartRelay n,
                 DoRecompute, DoFollowup (500 * Millisecond)],
               bu_cleanup = [DoCloseRouter, DoSpeakerCleanup]\<rparr>)"

text \<open>Mix-minus: a source feeds every destination but its own channel, the relay included.\<close>

definition mix_minus_dests :: "DestChannel list \<Rightarrow> bool \<Rightarrow> SourceEntry list \<Rightarrow> DestSlot list" where
  "mix_minus_dests destinations fed entries =
     dest_slots destinations fed (\<lambda>c. map se_ID (filter (\<lambda>e. se_ChannelID e \<noteq> c) entries))"

definition mix_minus_sources :: "DestSlot list \<Rightarrow> SourceEntry list \<Rightarrow> SourceSlot list" where
  "mix_minus_sources dests entries =
     map (\<lambda>e. source_slot e (filter (\<lambda>d. ds_ChannelID d \<noteq> se_ChannelID e) dests) True None) entries"

definition GuildCaller_Build :: "(nat \<Rightarrow> string option) \<Rightarrow> Params \<Rightarrow> string + built" where
  "GuildCaller_Build new_mixer p =
     (let destinations = BuildDestinations (pp_Joined p) @ owner_dest (pp_OwnerChannelID p) (pp_ChOwnerOut p);
          n = length destinations; mixers = channel_mixers destinations;
          fed = AllowGuestCapture (pp_Mode p) in
      case create_mixers new_mixer (channel_and_relay [] n) of
        Some e \<Rightarrow> Inl e
      | None \<Rightarrow>
          let entries = BuildSources (pp_OwnerBotID p) (pp_OwnerChannelID p) (pp_OwnerHandle p) (pp_Joined p);
              dests = mix_minus_dests destinations fed entries
          in Inr \<lparr>bu_router = Some (new_router (pp_Deaf p) (mix_minus_sources dests entries) dests),
               bu_pausers = mixers(RelayDestID \<mapsto> n), bu_IsGuest = False,
               bu_start = (if fed then [DoRegisterRelay destinations mixers] else []) @
                 [DoWatchMembership True, DoStartMixers destinations mixers fed, DoStartRelay n,
                  DoRecompute, DoFollowup (500 * Millisecond)],
               bu_cleanup = [DoCloseRouter, DoCloseRelayInputs, DoSpeakerCleanup]\<rparr>)"

text \<open>
  Star: the owner channel is the hub.  Owner-channel sources write raw packets to the speakers
  and feed the relay; the others feed the hub only.
\<close>

definition star_owner_dests :: "Params \<Rightarrow> DestChannel list" where
  "star_owner_dests p =
     filter (\<lambda>d. dch_ChannelID d = pp_OwnerChannelID p) (BuildDestinations (pp_Joined p)) @
     owner_dest (pp_OwnerChannelID p) (pp_ChOwnerOut p)"

definition star_speaker_outs :: "Params \<Rightarrow> nat list" where
  "star_speaker_outs p =
     concat (map dch_Outs (filter (\<lambda>d. dch_ChannelID d \<noteq> pp_OwnerChannelID p) (BuildDestinations (pp_Joined p))))"

definition star_dests :: "Params \<Rightarrow> SourceEntry list \<Rightarrow> DestSlot list" where
  "star_dests p entries =
     [dest_slot (pp_OwnerChannelID p) (Some 0) (concat (map dch_Outs (star_owner_dests p)))
        (AllowGuestCapture (pp_Mode p))
        (map se_ID (filter (\<lambda>e. se_ChannelID e \<noteq> pp_OwnerChannelID p) entries)),
      dest_slot RelayDestID (Some 1) [] False
        (map se_ID (filter (\<lambda>e. se_ChannelID e = pp_OwnerChannelID p) entries))]"

definition star_source :: "Params \<Rightarrow> DestSlot list \<Rightarrow> SourceEntry \<Rightarrow> SourceSlot" where
  "star_source p dests e =
     (if se_ChannelID e = pp_OwnerChannelID p
      then source_slot e [dests ! 1] True (Some (star_speaker_outs p))
      else source_slot e [dests ! 0] False None)"

definition StarCaller_Build :: "(nat \<Rightarrow> string option) \<Rightarrow> Params \<Rightarrow> string + built" where
  "StarCaller_Build new_mixer p =
     (let entries = BuildSources (pp_OwnerBotID p) (pp_OwnerChannelID p) (pp_OwnerHandle p) (pp_Joined p);
          fed = AllowGuestCapture (pp_Mode p);
          hub = [pp_OwnerChannelID p \<mapsto> 0] in
      case create_mixers new_mixer [(0, ''create hub mixer: ''), (1, ''create relay mixer: '')] of
        Some e \<Rightarrow> Inl e
      | None \<Rightarrow>
          let dests = star_dests p entries
          in Inr \<lparr>bu_router = Some (new_router (pp_Deaf p) (map (star_source p dests) entries) dests),
               bu_pausers = [pp_OwnerChannelID p \<mapsto> 0, RelayDestID \<mapsto> 1], bu_IsGuest = False,
               bu_start = (if fed then [DoRegisterRelay (star_owner_dests p) hub] else []) @
                 [DoWatchMembership True, DoStartMixers (star_owner_dests p) hub fed, DoStartRelay 1,
                  DoRecompute, DoFollowup (500 * Millisecond)],
               bu_cleanup = [DoCloseRouter, DoCloseRelayInputs, DoSpeakerCleanup]\<rparr>)"

definition Host_Build :: "HostPipeline \<Rightarrow> (nat \<Rightarrow> string option) \<Rightarrow> Params \<Rightarrow> string + built" where
  "Host_Build h = (case h of OneCallerPipeline \<Rightarrow> OneCaller_Build | GuildCallerPipeline \<Rightarrow> GuildCaller_Build
     | StarCallerPipeline \<Rightarrow> StarCaller_Build)"

section \<open>Guest pipelines\<close>

text \<open>The third component is the list of channels the guest's teardown closes besides the relay inputs.\<close>

definition guest_outs :: "GuestParams \<Rightarrow> nat list" where
  "guest_outs p = gp_Outs p @ (case gp_OwnerChOut p of None \<Rightarrow> [] | Some q \<Rightarrow> [q])"

definition guest_entries :: "GuestParams \<Rightarrow> SourceEntry list" where
  "guest_entries p = BuildGuestSources (gp_Joined p) @
     (if gp_OwnerHandle p = None then []
      else [\<lparr>se_ID = gp_OwnerBotID p, se_ChannelID = gp_OwnerChannelID p, se_Handle = gp_OwnerHandle p\<rparr>])"

definition GuestListener_Build :: "(nat \<Rightarrow> string option) \<Rightarrow> GuestParams \<Rightarrow> string + built \<times> nat list" where
  "GuestListener_Build new_mixer p =
     Inr (\<lparr>bu_router = None, bu_pausers = Map.empty, bu_IsGuest = True,
           bu_start = [DoAddGuild (guest_outs p)], bu_cleanup = [DoSpeakerCleanup]\<rparr>, guest_outs p)"

definition GuestStar_Build :: "(nat \<Rightarrow> string option) \<Rightarrow> GuestParams \<Rightarrow> string + built \<times> nat list" where
  "GuestStar_Build new_mixer p =
     (case create_mixers new_mixer [(0, ''guest star: create relay mixer: '')] of
        Some e \<Rightarrow> Inl e
      | None \<Rightarrow>
          let entries = guest_entries p;
              relay = dest_slot RelayDestID (Some 0) [] False (map se_ID entries)
          in Inr (\<lparr>bu_router = Some (new_router (gp_Deaf p) (map (\<lambda>e. source_slot e [relay] True None) entries) [relay]),
               bu_pausers = [RelayDestID \<mapsto> 0], bu_IsGuest = True,
               bu_start = [DoWatchMembership True, DoAddGuild (guest_outs p), DoStartRelay 0,
                 DoRecompute, DoFollowup (500 * Millisecond)],
               bu_cleanup = [DoCloseRouter, DoSpeakerCleanup]\<rparr>, guest_outs p))"

definition GuestCaller_Build :: "(nat \<Rightarrow> string option) \<Rightarrow> GuestParams \<Rightarrow> string + built \<times> nat list" where
  "GuestCaller_Build new_mixer p =
     (let destinations = BuildDestinations (gp_Joined p) @ owner_dest (gp_OwnerChannelID p) (gp_OwnerChOut p);
          n = length destinations; mixers = channel_mixers destinations in
      case create_mixers new_mixer (channel_and_relay ''guest caller: '' n) of
        Some e \<Rightarrow> Inl e
      | None \<Rightarrow>
          let entries = guest_entries p; dests = mix_minus_dests destinations True entries
          in Inr (\<lparr>bu_router = Some (new_router (gp_Deaf p) (mix_minus_sources dests entries) dests),
               bu_pausers = mixers(RelayDestID \<mapsto> n), bu_IsGuest = True,
               bu_start = [DoWatchMembership True, DoRegisterRelay destinations mixers,
                 DoStartMixers destinations mixers True, DoStartRelay n,
                 DoRecompute, DoFollowup (500 * Millisecond)],
               bu_cleanup = [DoCloseRouter, DoSpeakerCleanup]\<rparr>, []))"

definition Guest_Build :: "GuestPipeline \<Rightarrow> (nat \<Rightarrow> string option) \<Rightarrow> GuestParams \<Rightarrow> string + built \<times> nat list" where
  "Guest_Build g = (case g of GuestListenerPipeline \<Rightarrow> GuestListener_Build | GuestCallerPipeline \<Rightarrow> GuestCaller_Build
     | GuestStarCallerPipeline \<Rightarrow> GuestStar_Build)"

section \<open>The grouping partitions the bots\<close>

lemma add_output_get:
  "map_get [] (map_of (add_output r m)) c =
     map_get [] (map_of m) c @ (if sr_ChannelID r = c then [sr_ChOut r] else [])"
  by (simp add: add_output_def update_conv')

lemma add_outputs_get:
  "map_get [] (map_of (fold add_output joined m)) c =
     map_get [] (map_of m) c @ map sr_ChOut (filter (\<lambda>r. sr_ChannelID r = c) joined)"
  by (induction joined arbitrary: m) (auto simp: add_output_get)

lemma add_outputs_keys:
  "distinct (map fst m) \<Longrightarrow> distinct (map fst (fold add_output joined m))"
  "fst ` set (fold add_output joined m) = fst ` set m \<union> sr_ChannelID ` set joined"
proof (induction joined arbitrary: m)
  case (Cons r joined)
  {
    case 1
    with Cons(1) [of "add_output r m"] show ?case by (simp add: add_output_def distinct_update)
  next
    case 2
    show ?case using Cons(2) [of "add_output r m"] by (auto simp: add_output_def dom_update)
  }
qed simp_all

lemma BuildDestinations_channels:
  "distinct (map dch_ChannelID (BuildDestinations joined))"
  "dch_ChannelID ` set (BuildDestinations joined) = sr_ChannelID ` set joined"
proof -
  have k: "map dch_ChannelID (BuildDestinations joined) = map fst (fold add_output joined [])"
    by (simp add: BuildDestinations_def split_def comp_def)
  show "distinct (map dch_ChannelID (BuildDestinations joined))"
    unfolding k by (rule add_outputs_keys(1)) simp
  show "dch_ChannelID ` set (BuildDestinations joined) = sr_ChannelID ` set joined"
    using add_outputs_keys(2) [of joined "[]"] k by (metis image_empty list.set(1) list.set_map sup_bot_left)
qed

lemma BuildDestinations_outs:
  assumes "d \<in> set (BuildDestinations joined)"
  shows "dch_Outs d = map sr_ChOut (filter (\<lambda>r. sr_ChannelID r = dch_ChannelID d) joined)"
proof -
  obtain c qs where cq: "(c, qs) \<in> set (fold add_output joined [])" "d = \<lparr>dch_ChannelID = c, dch_Outs = qs\<rparr>"
    using assms by (auto simp: BuildDestinations_def)
  have "distinct (map fst (fold add_output joined []))" by (rule add_outputs_keys(1)) simp
  then have "map_of (fold add_output joined []) c = Some qs" using cq(1) by simp
  then show ?thesis using add_outputs_get [of joined "[]" c] cq(2) by simp
qed

text \<open>
  \<^verbatim>\<open>BuildDestinations\<close> groups without losing or repeating an output: there is one destination
  for every channel a speaker joined and no other, no two have the same channel, and the outputs of a destination are
  exactly the queues of the speakers in its channel, in the order they joined, so every queue
  occurs as often as among the joined speakers.
\<close>

theorem BuildDestinations_partitions:
  "distinct (map dch_ChannelID (BuildDestinations joined)) \<and>
   dch_ChannelID ` set (BuildDestinations joined) = sr_ChannelID ` set joined \<and>
   (\<forall>d. d \<in> set (BuildDestinations joined) \<longrightarrow>
      dch_Outs d = map sr_ChOut (filter (\<lambda>r. sr_ChannelID r = dch_ChannelID d) joined))"
  using BuildDestinations_channels BuildDestinations_outs by blast

definition demo_joined :: "SpeakerResult list" where
  "demo_joined =
     [\<lparr>sr_ID = 31, sr_ChOut = 1, sr_Handle = Some 11, sr_ChannelID = 21, sr_Cleanup = True, sr_Undeafen = False\<rparr>,
      \<lparr>sr_ID = 32, sr_ChOut = 2, sr_Handle = Some 12, sr_ChannelID = 22, sr_Cleanup = True, sr_Undeafen = False\<rparr>,
      \<lparr>sr_ID = 33, sr_ChOut = 3, sr_Handle = Some 13, sr_ChannelID = 21, sr_Cleanup = True, sr_Undeafen = True\<rparr>]"

lemma demo_destinations:
  "BuildDestinations demo_joined =
     [\<lparr>dch_ChannelID = 21, dch_Outs = [1, 3]\<rparr>, \<lparr>dch_ChannelID = 22, dch_Outs = [2]\<rparr>]"
  by (simp add: BuildDestinations_def demo_joined_def add_output_def map_get_def)

lemma BuildDestinations_partitions_witness:
  "dch_Outs \<lparr>dch_ChannelID = 21, dch_Outs = [1, 3]\<rparr> =
     map sr_ChOut (filter (\<lambda>r. sr_ChannelID r = 21) demo_joined)"
  using BuildDestinations_partitions [of demo_joined] by (simp add: demo_destinations)

section \<open>One capture per channel\<close>

lemma dedup_subset: "set (dedup_captures seen rs) \<subseteq> set rs"
  by (induction seen rs rule: dedup_captures.induct) auto

lemma dedup_channels:
  "sr_ChannelID ` set (dedup_captures seen rs) = sr_ChannelID ` {r \<in> set rs. sr_Handle r \<noteq> None} - seen"
  by (induction seen rs rule: dedup_captures.induct) auto

lemma dedup_distinct:
  "distinct (map sr_ChannelID (dedup_captures seen rs))"
  by (induction seen rs rule: dedup_captures.induct) (auto simp: dedup_channels)

lemma dedup_ids: "distinct (map sr_ID rs) \<Longrightarrow> distinct (map sr_ID (dedup_captures seen rs))"
proof (induction seen rs rule: dedup_captures.induct)
  case (2 seen r rs)
  have "sr_ID r \<notin> sr_ID ` set (dedup_captures s rs)" for s
    using 2(4) dedup_subset [of s rs] by auto
  with 2 show ?case by auto
qed simp

lemma dedup_handles: "r \<in> set (dedup_captures seen rs) \<Longrightarrow> sr_Handle r \<noteq> None"
  by (induction seen rs rule: dedup_captures.induct) (auto split: if_splits)

lemma dedup_first:
  "r \<in> set (dedup_captures seen rs) \<Longrightarrow>
   find (\<lambda>r'. sr_ChannelID r' = sr_ChannelID r \<and> sr_Handle r' \<noteq> None) rs = Some r"
proof (induction seen rs rule: dedup_captures.induct)
  case (2 seen r' rs)
  have "sr_ChannelID r \<noteq> sr_ChannelID r'" if "r \<in> set (dedup_captures (insert (sr_ChannelID r') seen) rs)"
    using dedup_channels [of "insert (sr_ChannelID r') seen" rs] that by blast
  moreover have "sr_ChannelID r \<notin> seen" if "r \<in> set (dedup_captures seen rs)"
    using dedup_channels [of seen rs] that by blast
  ultimately show ?case using 2 by (auto split: if_splits)
qed simp

text \<open>
  \<^verbatim>\<open>IterDeduplicatedCaptures\<close> visits one capturing speaker per channel: the channels visited are exactly
  those with a capturing speaker, each once, and the one visited is the first capturing speaker
  that joined the channel.
\<close>

theorem IterDeduplicatedCaptures_first_per_channel:
  "distinct (map sr_ChannelID (IterDeduplicatedCaptures joined)) \<and>
   sr_ChannelID ` set (IterDeduplicatedCaptures joined) =
     sr_ChannelID ` {r. r \<in> set joined \<and> sr_Handle r \<noteq> None} \<and>
   (\<forall>r. r \<in> set (IterDeduplicatedCaptures joined) \<longrightarrow>
      find (\<lambda>r'. sr_ChannelID r' = sr_ChannelID r \<and> sr_Handle r' \<noteq> None) joined = Some r)"
  unfolding IterDeduplicatedCaptures_def
  using dedup_distinct [of "{}"] dedup_channels [of "{}" joined] dedup_first [of _ "{}" joined] by auto

lemma IterDeduplicatedCaptures_first_per_channel_witness:
  "find (\<lambda>r'. sr_ChannelID r' = 21 \<and> sr_Handle r' \<noteq> None) demo_joined = Some (demo_joined ! 0)"
proof -
  have "demo_joined ! 0 \<in> set (IterDeduplicatedCaptures demo_joined)"
    by (simp add: IterDeduplicatedCaptures_def demo_joined_def)
  with IterDeduplicatedCaptures_first_per_channel [of demo_joined]
  have "find (\<lambda>r'. sr_ChannelID r' = sr_ChannelID (demo_joined ! 0) \<and> sr_Handle r' \<noteq> None) demo_joined =
    Some (demo_joined ! 0)" by blast
  moreover have "sr_ChannelID (demo_joined ! 0) = 21" by (simp add: demo_joined_def)
  ultimately show ?thesis by simp
qed

section \<open>The routers the pipelines build\<close>

lemma update_fresh: "k \<notin> fst ` set al \<Longrightarrow> AList.update k v al = al @ [(k, v)]"
  by (induction al) auto

lemma fold_update_keys:
  assumes "distinct (map f xs)" and "fst ` set al \<inter> f ` set xs = {}"
  shows "fold (\<lambda>x. AList.update (f x) x) xs al = al @ map (\<lambda>x. (f x, x)) xs"
  using assms
proof (induction xs arbitrary: al)
  case (Cons x xs)
  have "AList.update (f x) x al = al @ [(f x, x)]"
    using Cons.prems(2) by (intro update_fresh) auto
  with Cons show ?case by auto
qed simp

lemma channel_mixers_snoc:
  "channel_mixers (ds @ [d]) = (channel_mixers ds)(dch_ChannelID d \<mapsto> length ds)"
  by (simp add: channel_mixers_def enumerate_append_eq)

lemma channel_mixers_Some:
  "channel_mixers ds c = Some k \<Longrightarrow> k < length ds \<and> dch_ChannelID (ds ! k) = c"
proof (induction ds rule: rev_induct)
  case (snoc d ds)
  then show ?case by (auto simp: channel_mixers_snoc nth_append split: if_splits)
qed (simp add: channel_mixers_def)

text \<open>A source that names the destinations it feeds, all of which list it.\<close>

definition wired :: "DestSlot list \<Rightarrow> SourceSlot \<Rightarrow> bool" where
  "wired ds s \<longleftrightarrow> activeMode s = RouteOff \<and> activeTeardown s = None \<and>
     (\<exists>opts. ss_Build s = Some opts \<and>
       (\<forall>d \<in> set (ib_Feeds opts). d \<in> set ds \<and> ss_ID s \<in> set (ds_Sources d)))"

lemma new_router_slots:
  assumes "distinct (map ss_ID ss)" and "distinct (map ds_ChannelID ds)"
  shows "rt_sources (new_router deaf ss ds) = map (\<lambda>s. (ss_ID s, s)) ss"
    "rt_destinations (new_router deaf ss ds) = map (\<lambda>d. (ds_ChannelID d, d)) ds"
  using assms by (simp_all add: new_router_def New_def fold_update_keys)

lemma new_router_topo_ok:
  assumes ids: "distinct (map ss_ID ss)" and chs: "distinct (map ds_ChannelID ds)"
    and wired: "\<And>s. s \<in> set ss \<Longrightarrow> wired ds s"
    and mx: "\<And>d d' x. d \<in> set ds \<Longrightarrow> d' \<in> set ds \<Longrightarrow> ds_Mixer d = Some x \<Longrightarrow> ds_Mixer d' = Some x \<Longrightarrow>
      ds_ChannelID d = ds_ChannelID d'"
  shows "topo_ok (new_router deaf ss ds)"
proof -
  note sl = new_router_slots [OF ids chs, of deaf]
  have feeds: "d \<in> set ds \<and> i \<in> set (ds_Sources d)" if d: "d \<in> feeds (new_router deaf ss ds) i" for i d
  proof -
    obtain s opts where s: "map_of (map (\<lambda>s. (ss_ID s, s)) ss) i = Some s"
      "ss_Build s = Some opts" "d \<in> set (ib_Feeds opts)"
      using d by (auto simp: feeds_def sl split: option.splits)
    then have "s \<in> set ss" "ss_ID s = i" by (auto dest: map_of_SomeD)
    with wired [of s] s show ?thesis by (auto simp: wired_def)
  qed
  have "\<exists>c. (c, d) \<in> set (rt_destinations (new_router deaf ss ds)) \<and> i \<in> set (ds_Sources d)"
    if "d \<in> feeds (new_router deaf ss ds) i" for i d
    using feeds [OF that] by (auto simp: sl)
  moreover have "c = c'" if "(c, d) \<in> set (rt_destinations (new_router deaf ss ds))"
    "(c', d') \<in> set (rt_destinations (new_router deaf ss ds))" "ds_Mixer d = Some x" "ds_Mixer d' = Some x"
    for c d c' d' x
    using that mx [of d d' x] by (auto simp: sl)
  moreover have "ss_ID s = i" if "(i, s) \<in> set (rt_sources (new_router deaf ss ds))" for i s
    using that by (auto simp: sl)
  moreover have "distinct (map fst (rt_sources (new_router deaf ss ds)))"
    "distinct (map fst (rt_destinations (new_router deaf ss ds)))"
    using ids chs by (simp_all add: sl comp_def)
  ultimately show ?thesis unfolding topo_ok_def by blast
qed

text \<open>A fresh router has no source in copy mode.\<close>

lemma new_router_fresh:
  assumes "distinct (map ss_ID ss)" and "distinct (map ds_ChannelID ds)"
    and "\<And>s. s \<in> set ss \<Longrightarrow> wired ds s"
  shows "exclusive (new_router deaf ss ds) a" "\<not> closed (new_router deaf ss ds)"
proof -
  have "\<not> copying (new_router deaf ss ds) i" for i
  proof -
    have "activeMode s \<noteq> RouteCopy" if "map_of (map (\<lambda>s. (ss_ID s, s)) ss) i = Some s" for s
      using map_of_SomeD [OF that] assms(3) by (auto simp: wired_def)
    then show ?thesis
      unfolding copying_def new_router_slots(1) [OF assms(1,2)] by (auto split: option.split)
  qed
  then show "exclusive (new_router deaf ss ds) a" by (simp add: exclusive_def)
  show "\<not> closed (new_router deaf ss ds)" by (simp add: new_router_def New_def)
qed

text \<open>The destination slots of a pipeline with one mixer per channel.\<close>

lemma dest_slots_channels:
  "map ds_ChannelID (dest_slots ds fed srcs) = map dch_ChannelID ds @ [RelayDestID]"
  by (simp add: dest_slots_def dest_slot_def comp_def)

lemma dest_slots_mixers:
  assumes "d \<in> set (dest_slots ds fed srcs)" "d' \<in> set (dest_slots ds fed srcs)"
    "ds_Mixer d = Some x" "ds_Mixer d' = Some x"
  shows "ds_ChannelID d = ds_ChannelID d'"
proof -
  have own: "(x < length ds \<and> ds_ChannelID d = dch_ChannelID (ds ! x)) \<or>
      (x = length ds \<and> ds_ChannelID d = RelayDestID)"
    if "d \<in> set (dest_slots ds fed srcs)" "ds_Mixer d = Some x" for d
    using that by (auto simp: dest_slots_def dest_slot_def dest!: channel_mixers_Some)
  from own [OF assms(1,3)] own [OF assms(2,4)] show ?thesis by auto
qed

lemma dest_slots_sources: "d \<in> set (dest_slots ds fed srcs) \<Longrightarrow> ds_Sources d = srcs (ds_ChannelID d)"
  by (auto simp: dest_slots_def dest_slot_def)

lemma source_slot_ID [simp]: "ss_ID (source_slot e fds ally raw) = se_ID e"
  and source_slot_Handle [simp]: "ss_Handle (source_slot e fds ally raw) = se_Handle e"
  and source_slot_Build [simp]: "ss_Build (source_slot e fds ally raw) =
    Some \<lparr>ib_Feeds = fds, allyBroadcast = ally, rawTargets = raw\<rparr>"
  and source_slot_fresh [simp]: "activeMode (source_slot e fds ally raw) = RouteOff"
    "activeTeardown (source_slot e fds ally raw) = None"
  and source_slot_Channel [simp]: "ss_ChannelID (source_slot e fds ally raw) = se_ChannelID e"
  by (simp_all add: source_slot_def)

lemma mix_minus_wired:
  assumes "s \<in> set (mix_minus_sources (mix_minus_dests ds fed es) es)"
  shows "wired (mix_minus_dests ds fed es) s"
  using assms
  by (auto simp: mix_minus_sources_def wired_def mix_minus_dests_def dest_slots_sources)

lemma mix_minus_ids: "map ss_ID (mix_minus_sources ds es) = map se_ID es"
  by (simp add: mix_minus_sources_def comp_def)

section \<open>Well-formed input\<close>

text \<open>
  What \<^verbatim>\<open>BindChannel\<close> sees to (one bot per channel, checked for the owner and every pool bot) and
  Discord's snowflakes (no real channel has the number of the relay slot).
\<close>

definition proper_bots :: "snowflake \<Rightarrow> snowflake \<Rightarrow> SpeakerResult list \<Rightarrow> bool" where
  "proper_bots owner ch joined \<longleftrightarrow>
     distinct (owner # map sr_ID joined) \<and> ch \<notin> sr_ChannelID ` set joined \<and>
     RelayDestID \<notin> insert ch (sr_ChannelID ` set joined)"

lemma BuildGuestSources_ids:
  assumes "distinct (map sr_ID joined)"
  shows "distinct (map se_ID (BuildGuestSources joined))"
    "se_ID ` set (BuildGuestSources joined) \<subseteq> sr_ID ` set joined"
    "e \<in> set (BuildGuestSources joined) \<Longrightarrow> se_Handle e \<noteq> None \<and> se_ChannelID e \<in> sr_ChannelID ` set joined"
  using dedup_ids [OF assms] dedup_subset [of "{}" joined] dedup_handles [of _ "{}" joined]
  by (auto simp: BuildGuestSources_def IterDeduplicatedCaptures_def comp_def)

lemma BuildSources_ids:
  assumes "proper_bots owner ch joined"
  shows "distinct (map se_ID (BuildSources owner ch h joined))"
  using assms BuildGuestSources_ids(1,2) [of joined] by (auto simp: proper_bots_def BuildSources_def)

lemma guest_entries_ids:
  assumes "proper_bots (gp_OwnerBotID p) ch (gp_Joined p)"
  shows "distinct (map se_ID (guest_entries p))" "e \<in> set (guest_entries p) \<Longrightarrow> se_Handle e \<noteq> None"
  using assms BuildGuestSources_ids [of "gp_Joined p"]
  by (auto simp: proper_bots_def guest_entries_def split: if_splits)

lemma all_destinations_distinct:
  assumes "proper_bots owner ch joined"
  shows "distinct (map dch_ChannelID (BuildDestinations joined @ owner_dest ch out) @ [RelayDestID])"
  using assms BuildDestinations_channels [of joined]
  by (auto simp: proper_bots_def owner_dest_def split: option.split)

section \<open>Every pipeline builds a router the routing results apply to\<close>

definition ready :: "bool \<Rightarrow> Router \<Rightarrow> 'e audio \<Rightarrow> bool" where
  "ready handled r a \<longleftrightarrow> topo_ok r \<and> \<not> closed r \<and> exclusive r a \<and> (handled \<longrightarrow> equipped r)"

lemma new_router_sound:
  assumes "distinct (map ss_ID ss)" and "distinct (map ds_ChannelID ds)"
    and "\<And>s. s \<in> set ss \<Longrightarrow> wired ds s"
    and "\<And>d d' x. d \<in> set ds \<Longrightarrow> d' \<in> set ds \<Longrightarrow> ds_Mixer d = Some x \<Longrightarrow> ds_Mixer d' = Some x \<Longrightarrow>
      ds_ChannelID d = ds_ChannelID d'"
    and "\<And>s. s \<in> set ss \<Longrightarrow> handled \<Longrightarrow> ss_Handle s \<noteq> None"
  shows "ready handled (new_router deaf ss ds) a"
proof -
  have "ss_Build s \<noteq> None" if "s \<in> set ss" for s using assms(3) [OF that] by (auto simp: wired_def)
  then show ?thesis
    using new_router_topo_ok [OF assms(1-4)] new_router_fresh [OF assms(1-3)] assms(5)
    by (auto simp: ready_def equipped_def new_router_slots [OF assms(1,2)])
qed

lemma mix_minus_sound:
  assumes "distinct (map se_ID es)" and "distinct (map dch_ChannelID ds @ [RelayDestID])"
    and "\<And>e. e \<in> set es \<Longrightarrow> handled \<Longrightarrow> se_Handle e \<noteq> None"
  shows "ready handled (new_router deaf (mix_minus_sources (mix_minus_dests ds fed es) es) (mix_minus_dests ds fed es)) a"
proof (rule new_router_sound)
  show "distinct (map ss_ID (mix_minus_sources (mix_minus_dests ds fed es) es))"
    using assms(1) by (simp add: mix_minus_ids)
  show "distinct (map ds_ChannelID (mix_minus_dests ds fed es))"
    using assms(2) unfolding mix_minus_dests_def dest_slots_channels .
  show "ds_ChannelID d = ds_ChannelID d'" if "d \<in> set (mix_minus_dests ds fed es)"
    "d' \<in> set (mix_minus_dests ds fed es)" "ds_Mixer d = Some x" "ds_Mixer d' = Some x" for d d' x
    using that unfolding mix_minus_dests_def by (rule dest_slots_mixers)
  show "ss_Handle s \<noteq> None" if "s \<in> set (mix_minus_sources (mix_minus_dests ds fed es) es)" "handled" for s
    using that assms(3) by (auto simp: mix_minus_sources_def)
qed (rule mix_minus_wired)

lemma BuildSources_handles:
  assumes "distinct (map sr_ID joined)" "e \<in> set (BuildSources owner ch h joined)" "h \<noteq> None"
  shows "se_Handle e \<noteq> None"
  using assms(2,3) BuildGuestSources_ids(3) [OF assms(1), of e] by (auto simp: BuildSources_def)

lemma OneCaller_sound:
  assumes "OneCaller_Build nm p = Inr b" "proper_bots (pp_OwnerBotID p) (pp_OwnerChannelID p) (pp_Joined p)"
  shows "\<exists>r. bu_router b = Some r \<and> ready (pp_OwnerHandle p \<noteq> None) r a"
proof -
  let ?ds = "dest_slots (BuildDestinations (pp_Joined p)) False (\<lambda>_. [pp_OwnerBotID p])"
  let ?s = "source_slot \<lparr>se_ID = pp_OwnerBotID p, se_ChannelID = pp_OwnerChannelID p,
    se_Handle = pp_OwnerHandle p\<rparr> ?ds True None"
  have r: "bu_router b = Some (new_router (pp_Deaf p) [?s] ?ds)"
    using assms(1) by (auto simp: OneCaller_Build_def Let_def split: option.splits)
  have "distinct (map ds_ChannelID ?ds)"
    using all_destinations_distinct [OF assms(2), of None] by (simp add: dest_slots_channels owner_dest_def)
  then have "ready (pp_OwnerHandle p \<noteq> None) (new_router (pp_Deaf p) [?s] ?ds) a"
    by (rule new_router_sound [rotated]) (auto simp: wired_def dest_slots_sources intro: dest_slots_mixers)
  then show ?thesis unfolding r by blast
qed

lemma GuildCaller_sound:
  assumes "GuildCaller_Build nm p = Inr b" "proper_bots (pp_OwnerBotID p) (pp_OwnerChannelID p) (pp_Joined p)"
  shows "\<exists>r. bu_router b = Some r \<and> ready (pp_OwnerHandle p \<noteq> None) r a"
proof -
  let ?dc = "BuildDestinations (pp_Joined p) @ owner_dest (pp_OwnerChannelID p) (pp_ChOwnerOut p)"
  let ?es = "BuildSources (pp_OwnerBotID p) (pp_OwnerChannelID p) (pp_OwnerHandle p) (pp_Joined p)"
  let ?ds = "mix_minus_dests ?dc (AllowGuestCapture (pp_Mode p)) ?es"
  have r: "bu_router b = Some (new_router (pp_Deaf p) (mix_minus_sources ?ds ?es) ?ds)"
    using assms(1) by (auto simp: GuildCaller_Build_def Let_def split: option.splits)
  have "distinct (map sr_ID (pp_Joined p))" using assms(2) by (simp add: proper_bots_def)
  then have h: "se_Handle e \<noteq> None" if "e \<in> set ?es" "pp_OwnerHandle p \<noteq> None" for e
    using BuildSources_handles that by blast
  have "ready (pp_OwnerHandle p \<noteq> None) (new_router (pp_Deaf p) (mix_minus_sources ?ds ?es) ?ds) a"
    by (rule mix_minus_sound [OF BuildSources_ids [OF assms(2)] all_destinations_distinct [OF assms(2)] h])
  then show ?thesis unfolding r by blast
qed

lemma StarCaller_sound:
  assumes "StarCaller_Build nm p = Inr b" "proper_bots (pp_OwnerBotID p) (pp_OwnerChannelID p) (pp_Joined p)"
  shows "\<exists>r. bu_router b = Some r \<and> ready (pp_OwnerHandle p \<noteq> None) r a"
proof -
  let ?es = "BuildSources (pp_OwnerBotID p) (pp_OwnerChannelID p) (pp_OwnerHandle p) (pp_Joined p)"
  let ?ds = "star_dests p ?es"
  let ?ss = "map (star_source p ?ds) ?es"
  have r: "bu_router b = Some (new_router (pp_Deaf p) ?ss ?ds)"
    using assms(1) by (auto simp: StarCaller_Build_def Let_def split: option.splits)
  have "map ss_ID ?ss = map se_ID ?es" by (simp add: star_source_def comp_def)
  then have ids: "distinct (map ss_ID ?ss)" using BuildSources_ids [OF assms(2)] by metis
  have chs: "distinct (map ds_ChannelID ?ds)"
    using assms(2) by (auto simp: star_dests_def dest_slot_def proper_bots_def)
  have wired: "wired ?ds s" if "s \<in> set ?ss" for s
    using that by (auto simp: wired_def star_source_def star_dests_def dest_slot_def split: if_splits)
  have mx: "ds_ChannelID d = ds_ChannelID d'" if "d \<in> set ?ds" "d' \<in> set ?ds" "ds_Mixer d = Some x"
    "ds_Mixer d' = Some x" for d d' x
    using that by (auto simp: star_dests_def dest_slot_def)
  have "distinct (map sr_ID (pp_Joined p))" using assms(2) by (simp add: proper_bots_def)
  then have h: "ss_Handle s \<noteq> None" if "s \<in> set ?ss" "pp_OwnerHandle p \<noteq> None" for s
    using that BuildSources_handles by (fastforce simp: star_source_def split: if_splits)
  have "ready (pp_OwnerHandle p \<noteq> None) (new_router (pp_Deaf p) ?ss ?ds) a"
    by (rule new_router_sound [OF ids chs wired mx h])
  then show ?thesis unfolding r by blast
qed

text \<open>
  C3. Every host pipeline hands the router a graph its guarantees hold for: when the bots have
  different IDs and channels of their own (which \<^verbatim>\<open>BindChannel\<close> enforces), a successful \<^verbatim>\<open>Build\<close>,
  whatever the mode, yields an open router in which every source feeds only slots that list it
  and no two slots share a mixer, in which no source writes anywhere yet, and in which every source has a handle if the owner
  bot has one, so \<^verbatim>\<open>Recompute\<close> keeps one writer per channel from the first call on.
\<close>

theorem Host_Build_sound:
  assumes "Host_Build h nm p = Inr b" "proper_bots (pp_OwnerBotID p) (pp_OwnerChannelID p) (pp_Joined p)"
  shows "\<exists>r. bu_router b = Some r \<and> ready (pp_OwnerHandle p \<noteq> None) r a"
  using assms OneCaller_sound GuildCaller_sound StarCaller_sound
  by (cases h) (auto simp: Host_Build_def)

definition demo_params :: "RaidMode \<Rightarrow> Params" where
  "demo_params mode = \<lparr>pp_GuildID = 9, pp_OwnerBotID = 30, pp_OwnerChannelID = 20, pp_Mode = mode,
     pp_OwnerHandle = Some 10, pp_ChOwnerOut = (if WithCapture mode then Some 0 else None),
     pp_Joined = demo_joined, pp_Deaf = True\<rparr>"

lemma demo_proper: "proper_bots 30 20 demo_joined"
  by (simp add: proper_bots_def demo_joined_def RelayDestID_def)

lemma Host_Build_sound_witness:
  "case Host_Build (HostFor RaidModeGuildCaller) (\<lambda>_. None) (demo_params RaidModeGuildCaller) of
     Inl e \<Rightarrow> False | Inr b \<Rightarrow> \<exists>r. bu_router b = Some r \<and> ready True r blank_audio"
proof -
  have none: "create_mixers (\<lambda>_. None) ks = None" for ks
    by (induction ks) auto
  obtain b where b: "Host_Build (HostFor RaidModeGuildCaller) (\<lambda>_. None) (demo_params RaidModeGuildCaller) = Inr b"
    by (simp add: Host_Build_def HostFor_def raid_predicate_defs raid_mode_defs GuildCaller_Build_def Let_def none)
  from Host_Build_sound [OF b, of blank_audio] demo_proper show ?thesis
    unfolding b by (simp add: demo_params_def)
qed

text \<open>The guest pipelines with a router.\<close>

lemma GuestStar_sound:
  assumes "GuestStar_Build nm p = Inr (b, chs)" "proper_bots (gp_OwnerBotID p) (gp_OwnerChannelID p) (gp_Joined p)"
  shows "\<exists>r. bu_router b = Some r \<and> ready True r a"
proof -
  let ?es = "guest_entries p"
  let ?d = "dest_slot RelayDestID (Some 0) [] False (map se_ID ?es)"
  let ?ss = "map (\<lambda>e. source_slot e [?d] True None) ?es"
  have r: "bu_router b = Some (new_router (gp_Deaf p) ?ss [?d])"
    using assms(1) by (auto simp: GuestStar_Build_def Let_def split: option.splits)
  have ids: "distinct (map ss_ID ?ss)" using guest_entries_ids(1) [OF assms(2)] by (simp add: comp_def)
  then have "ready True (new_router (gp_Deaf p) ?ss [?d]) a"
    by (rule new_router_sound)
      (use guest_entries_ids(2) [OF assms(2)] in \<open>auto simp: wired_def dest_slot_def\<close>)
  then show ?thesis unfolding r by blast
qed

lemma GuestCaller_sound:
  assumes "GuestCaller_Build nm p = Inr (b, chs)" "proper_bots (gp_OwnerBotID p) (gp_OwnerChannelID p) (gp_Joined p)"
  shows "\<exists>r. bu_router b = Some r \<and> ready True r a"
proof -
  let ?dc = "BuildDestinations (gp_Joined p) @ owner_dest (gp_OwnerChannelID p) (gp_OwnerChOut p)"
  let ?ds = "mix_minus_dests ?dc True (guest_entries p)"
  have r: "bu_router b = Some (new_router (gp_Deaf p) (mix_minus_sources ?ds (guest_entries p)) ?ds)"
    using assms(1) by (auto simp: GuestCaller_Build_def Let_def split: option.splits)
  have "ready True (new_router (gp_Deaf p) (mix_minus_sources ?ds (guest_entries p)) ?ds) a"
    by (rule mix_minus_sound [OF guest_entries_ids(1) [OF assms(2)] all_destinations_distinct [OF assms(2)]
          guest_entries_ids(2) [OF assms(2)]])
  then show ?thesis unfolding r by blast
qed

lemma Guest_Build_sound:
  assumes "Guest_Build g nm p = Inr (b, chs)" "g \<noteq> GuestListenerPipeline"
    and "proper_bots (gp_OwnerBotID p) (gp_OwnerChannelID p) (gp_Joined p)"
  shows "\<exists>r. bu_router b = Some r \<and> ready True r a"
  using assms GuestStar_sound GuestCaller_sound by (cases g) (auto simp: Guest_Build_def)

section \<open>Nobody hears their own channel\<close>

text \<open>The queues a raw packet of source \<open>s\<close> goes to.\<close>

definition raw_queues :: "SourceSlot \<Rightarrow> nat set" where
  "raw_queues s =
     (case ss_Build s of None \<Rightarrow> {}
      | Some opts \<Rightarrow> set (opusTargets (fst (routerInstallBuilder opts RouteCopy [] blank_audio))))"

text \<open>The bots that play in a channel other than \<open>c\<close>: queue and channel of every output.\<close>

definition plays_elsewhere :: "snowflake \<Rightarrow> (nat \<times> snowflake) set \<Rightarrow> nat set" where
  "plays_elsewhere c outputs = fst ` {(q, ch) \<in> outputs. ch \<noteq> c}"

definition outputs_of :: "Params \<Rightarrow> (nat \<times> snowflake) set" where
  "outputs_of p = (\<lambda>r. (sr_ChOut r, sr_ChannelID r)) ` set (pp_Joined p) \<union>
     (case pp_ChOwnerOut p of None \<Rightarrow> {} | Some q \<Rightarrow> {(q, pp_OwnerChannelID p)})"

lemma destination_outputs:
  "(\<Union>d \<in> {d \<in> set (BuildDestinations joined). dch_ChannelID d \<noteq> c}. set (dch_Outs d)) =
     sr_ChOut ` {r \<in> set joined. sr_ChannelID r \<noteq> c}"
proof -
  have "r \<in> set joined \<Longrightarrow> \<exists>d \<in> set (BuildDestinations joined). dch_ChannelID d = sr_ChannelID r" for r
    using BuildDestinations_channels(2) [of joined] by (metis (no_types, lifting) image_iff)
  then show ?thesis by (fastforce simp: BuildDestinations_outs)
qed

lemma dest_slot_simps [simp]:
  "ds_ChannelID (dest_slot c mx qs fed srcs) = c" "ds_ChOuts (dest_slot c mx qs fed srcs) = qs"
  "ds_Mixer (dest_slot c mx qs fed srcs) = mx" "ds_Sources (dest_slot c mx qs fed srcs) = srcs"
  "ds_RelayFeed (dest_slot c mx qs fed srcs) = fed"
  by (simp_all add: dest_slot_def)

lemma raw_queues_source_slot:
  "raw_queues (source_slot e fds ally None) = (\<Union>d \<in> set fds. set (ds_ChOuts d))"
  by (simp add: raw_queues_def routerInstallBuilder_def Let_def empty_install_def)

lemma dest_slots_queues:
  "(\<Union>d \<in> {d \<in> set (dest_slots ds fed srcs). ds_ChannelID d \<noteq> c}. set (ds_ChOuts d)) =
     (\<Union>d \<in> {d \<in> set ds. dch_ChannelID d \<noteq> c}. set (dch_Outs d))"
proof -
  have "{d \<in> set (dest_slots ds fed srcs). ds_ChannelID d \<noteq> c} =
      {d \<in> set (map (\<lambda>d. dest_slot (dch_ChannelID d) (channel_mixers ds (dch_ChannelID d)) (dch_Outs d) fed
         (srcs (dch_ChannelID d))) ds). ds_ChannelID d \<noteq> c} \<union>
      {d \<in> {dest_slot RelayDestID (Some (length ds)) [] False (srcs RelayDestID)}. ds_ChannelID d \<noteq> c}"
    unfolding dest_slots_def by auto
  then show ?thesis by auto
qed

lemma mix_minus_raw_queues:
  assumes "s \<in> set (mix_minus_sources (mix_minus_dests ds fed es) es)"
  shows "raw_queues s = (\<Union>d \<in> {d \<in> set ds. dch_ChannelID d \<noteq> ss_ChannelID s}. set (dch_Outs d))"
proof -
  obtain e where "s = source_slot e (filter (\<lambda>d. ds_ChannelID d \<noteq> se_ChannelID e) (mix_minus_dests ds fed es)) True None"
    using assms by (auto simp: mix_minus_sources_def)
  then show ?thesis
    using dest_slots_queues [of ds fed _ "se_ChannelID e"]
    by (simp add: raw_queues_source_slot mix_minus_dests_def)
qed

text \<open>
  C8. Mix-minus: in a guild-caller raid every capturing bot feeds exactly the slots of the other
  channels and the relay, whichever mode the router picks for it, and the queues its raw packets
  go to are exactly those of the bots that play in another channel, so nobody hears their own
  channel back and every other channel is reached.
\<close>

theorem GuildCaller_mix_minus:
  assumes "GuildCaller_Build nm p = Inr b" "bu_router b = Some r"
    and "proper_bots (pp_OwnerBotID p) (pp_OwnerChannelID p) (pp_Joined p)"
    and "(i, s) \<in> set (rt_sources r)"
  shows "feeds r i = {d \<in> snd ` set (rt_destinations r). ds_ChannelID d \<noteq> ss_ChannelID s} \<and>
    raw_queues s = plays_elsewhere (ss_ChannelID s) (outputs_of p)"
proof -
  let ?dc = "BuildDestinations (pp_Joined p) @ owner_dest (pp_OwnerChannelID p) (pp_ChOwnerOut p)"
  let ?es = "BuildSources (pp_OwnerBotID p) (pp_OwnerChannelID p) (pp_OwnerHandle p) (pp_Joined p)"
  let ?ds = "mix_minus_dests ?dc (AllowGuestCapture (pp_Mode p)) ?es"
  let ?ss = "mix_minus_sources ?ds ?es"
  have r: "r = new_router (pp_Deaf p) ?ss ?ds"
    using assms(1,2) by (auto simp: GuildCaller_Build_def Let_def split: option.splits)
  have ids: "distinct (map ss_ID ?ss)"
    using BuildSources_ids [OF assms(3)] by (simp add: mix_minus_ids)
  have chs: "distinct (map ds_ChannelID ?ds)"
    using all_destinations_distinct [OF assms(3)] unfolding mix_minus_dests_def dest_slots_channels .
  note sl = new_router_slots [OF ids chs, of "pp_Deaf p"]
  have s: "s \<in> set ?ss" "i = ss_ID s" using assms(4) unfolding r sl by auto
  have "map_of (rt_sources r) i = Some s"
    using assms(4) ids unfolding r sl by (intro map_of_is_SomeI) (auto simp: comp_def)
  then have "feeds r i = {d \<in> set ?ds. ds_ChannelID d \<noteq> ss_ChannelID s}"
    using s(1) by (auto simp: feeds_def mix_minus_sources_def)
  moreover have "snd ` set (rt_destinations r) = set ?ds" unfolding r sl by force
  moreover have "raw_queues s = plays_elsewhere (ss_ChannelID s) (outputs_of p)"
  proof -
    let ?x = "ss_ChannelID s"
    have "raw_queues s =
        (\<Union>d \<in> {d \<in> set (BuildDestinations (pp_Joined p)). dch_ChannelID d \<noteq> ?x}. set (dch_Outs d)) \<union>
        (\<Union>d \<in> {d \<in> set (owner_dest (pp_OwnerChannelID p) (pp_ChOwnerOut p)). dch_ChannelID d \<noteq> ?x}. set (dch_Outs d))"
      unfolding mix_minus_raw_queues [OF s(1)] by auto
    also have "\<dots> = sr_ChOut ` {r \<in> set (pp_Joined p). sr_ChannelID r \<noteq> ?x} \<union>
        (case pp_ChOwnerOut p of None \<Rightarrow> {} | Some q \<Rightarrow> if pp_OwnerChannelID p \<noteq> ?x then {q} else {})"
      unfolding destination_outputs by (auto simp: owner_dest_def split: option.splits if_splits)
    also have "\<dots> = plays_elsewhere ?x (outputs_of p)"
      unfolding plays_elsewhere_def outputs_of_def
      by (force simp: image_iff split: option.splits if_splits)
    finally show ?thesis .
  qed
  ultimately show ?thesis by simp
qed

lemma mem_map: "x \<in> set xs \<Longrightarrow> f x \<in> set (map f xs)"
  by simp

lemma no_mixer_errors: "create_mixers (\<lambda>_. None) ks = None"
  by (induction ks) auto

lemma demo_guild_build:
  "\<exists>b r. GuildCaller_Build (\<lambda>_. None) (demo_params RaidModeGuildCaller) = Inr b \<and> bu_router b = Some r \<and>
     (\<exists>s. (30, s) \<in> set (rt_sources r) \<and> ss_ChannelID s = 20)"
proof -
  let ?p = "demo_params RaidModeGuildCaller"
  let ?dc = "BuildDestinations (pp_Joined ?p) @ owner_dest (pp_OwnerChannelID ?p) (pp_ChOwnerOut ?p)"
  let ?es = "BuildSources (pp_OwnerBotID ?p) (pp_OwnerChannelID ?p) (pp_OwnerHandle ?p) (pp_Joined ?p)"
  let ?ds = "mix_minus_dests ?dc (AllowGuestCapture (pp_Mode ?p)) ?es"
  let ?e = "\<lparr>se_ID = 30, se_ChannelID = 20, se_Handle = Some 10\<rparr>"
  have pr: "proper_bots (pp_OwnerBotID ?p) (pp_OwnerChannelID ?p) (pp_Joined ?p)"
    using demo_proper by (simp add: demo_params_def)
  have chs: "distinct (map ds_ChannelID ?ds)"
    using all_destinations_distinct [OF pr] unfolding mix_minus_dests_def dest_slots_channels .
  have "?e \<in> set ?es" by (simp add: BuildSources_def demo_params_def)
  then have "source_slot ?e (filter (\<lambda>d. ds_ChannelID d \<noteq> 20) ?ds) True None \<in> set (mix_minus_sources ?ds ?es)"
    unfolding mix_minus_sources_def by force
  then have "(30, source_slot ?e (filter (\<lambda>d. ds_ChannelID d \<noteq> 20) ?ds) True None) \<in>
      set (rt_sources (new_router True (mix_minus_sources ?ds ?es) ?ds))"
    using BuildSources_ids [OF pr] by (subst new_router_slots(1) [OF _ chs]) (force simp: mix_minus_ids)+
  moreover have "pp_Deaf ?p" by (simp add: demo_params_def)
  ultimately show ?thesis
    by (auto simp: GuildCaller_Build_def Let_def no_mixer_errors)
qed

lemma GuildCaller_mix_minus_witness:
  "\<exists>s. ss_ChannelID s = 20 \<and> raw_queues s = {1, 2, 3}"
proof -
  obtain b r s where b: "GuildCaller_Build (\<lambda>_. None) (demo_params RaidModeGuildCaller) = Inr b"
    "bu_router b = Some r" "(30, s) \<in> set (rt_sources r)" "ss_ChannelID s = 20"
    using demo_guild_build by blast
  have "proper_bots (pp_OwnerBotID (demo_params m)) (pp_OwnerChannelID (demo_params m)) (pp_Joined (demo_params m))" for m
    using demo_proper by (simp add: demo_params_def)
  from GuildCaller_mix_minus [OF b(1,2) this b(3)] b(4)
  have "raw_queues s = plays_elsewhere 20 (outputs_of (demo_params RaidModeGuildCaller))" by simp
  also have "\<dots> = {1, 2, 3}"
    by (auto simp: plays_elsewhere_def outputs_of_def demo_params_def demo_joined_def image_iff
        raid_predicate_defs raid_mode_defs)
  finally show ?thesis using b(4) by blast
qed

text \<open>No speaker plays in the owner's channel, so the star's hub feeds the owner's queue only.\<close>

lemma star_owner_dests_hub:
  assumes "proper_bots (pp_OwnerBotID p) (pp_OwnerChannelID p) (pp_Joined p)"
  shows "set (concat (map dch_Outs (star_owner_dests p))) = set_option (pp_ChOwnerOut p)"
proof -
  have "dch_ChannelID d \<noteq> pp_OwnerChannelID p" if "d \<in> set (BuildDestinations (pp_Joined p))" for d
  proof -
    have "dch_ChannelID d \<in> sr_ChannelID ` set (pp_Joined p)"
      using imageI [OF that, of dch_ChannelID] by (simp add: BuildDestinations_channels(2))
    then show ?thesis using assms unfolding proper_bots_def by metis
  qed
  then have "filter (\<lambda>d. dch_ChannelID d = pp_OwnerChannelID p) (BuildDestinations (pp_Joined p)) = []"
    by (simp add: filter_empty_conv)
  then show ?thesis by (cases "pp_ChOwnerOut p") (simp_all add: star_owner_dests_def owner_dest_def)
qed

lemma star_speaker_outs_all:
  assumes "proper_bots (pp_OwnerBotID p) (pp_OwnerChannelID p) (pp_Joined p)"
  shows "set (star_speaker_outs p) = sr_ChOut ` set (pp_Joined p)"
proof -
  have "sr_ChannelID x \<noteq> pp_OwnerChannelID p" if "x \<in> set (pp_Joined p)" for x
    using assms imageI [OF that, of sr_ChannelID] unfolding proper_bots_def by metis
  then have "{r \<in> set (pp_Joined p). sr_ChannelID r \<noteq> pp_OwnerChannelID p} = set (pp_Joined p)" by blast
  then show ?thesis
    using destination_outputs [of "pp_Joined p" "pp_OwnerChannelID p"] by (simp add: star_speaker_outs_def)
qed

text \<open>
  C35. Star: in a one-many raid only the owner channel reaches the other guilds and the
  speakers.  A source of the owner channel feeds the relay alone, is the only kind that broadcasts raw packets to the
  ally session, and writes raw packets to every speaker; a source of a speaker channel feeds the
  hub alone and its raw packets go to the owner bot alone.
\<close>

theorem StarCaller_hub_and_spokes:
  assumes "StarCaller_Build nm p = Inr b" "bu_router b = Some r"
    and "proper_bots (pp_OwnerBotID p) (pp_OwnerChannelID p) (pp_Joined p)"
    and "(i, s) \<in> set (rt_sources r)"
  shows "if ss_ChannelID s = pp_OwnerChannelID p
    then ds_ChannelID ` feeds r i = {RelayDestID} \<and> map_option allyBroadcast (ss_Build s) = Some True \<and>
      raw_queues s = sr_ChOut ` set (pp_Joined p)
    else ds_ChannelID ` feeds r i = {pp_OwnerChannelID p} \<and> map_option allyBroadcast (ss_Build s) = Some False \<and>
      raw_queues s = set_option (pp_ChOwnerOut p)"
proof -
  let ?es = "BuildSources (pp_OwnerBotID p) (pp_OwnerChannelID p) (pp_OwnerHandle p) (pp_Joined p)"
  let ?ds = "star_dests p ?es"
  let ?ss = "map (star_source p ?ds) ?es"
  have r: "r = new_router (pp_Deaf p) ?ss ?ds"
    using assms(1,2) by (auto simp: StarCaller_Build_def Let_def split: option.splits)
  have "map ss_ID ?ss = map se_ID ?es" by (simp add: star_source_def comp_def)
  then have ids: "distinct (map ss_ID ?ss)" using BuildSources_ids [OF assms(3)] by metis
  have chs: "distinct (map ds_ChannelID ?ds)"
    using assms(3) by (auto simp: star_dests_def proper_bots_def)
  note sl = new_router_slots [OF ids chs, of "pp_Deaf p"]
  obtain e where e: "s = star_source p ?ds e" "i = ss_ID s" using assms(4) unfolding r sl by auto
  have "map_of (rt_sources r) i = Some s"
    using assms(4) ids unfolding r sl by (intro map_of_is_SomeI) (auto simp: comp_def)
  then have fd: "feeds r i = (case ss_Build s of None \<Rightarrow> {} | Some opts \<Rightarrow> set (ib_Feeds opts))"
    by (simp add: feeds_def)
  note outs = star_speaker_outs_all [OF assms(3)] and hub = star_owner_dests_hub [OF assms(3)]
  have raw: "raw_queues (source_slot e fds ally (Some ts)) = set ts" for e fds ally ts
    by (simp add: raw_queues_def routerInstallBuilder_def Let_def empty_install_def)
  have ch: "ss_ChannelID s = se_ChannelID e" by (simp add: e(1) star_source_def)
  show ?thesis
  proof (cases "se_ChannelID e = pp_OwnerChannelID p")
    case True
    then have "s = source_slot e [?ds ! 1] True (Some (star_speaker_outs p))"
      by (simp add: e(1) star_source_def)
    then show ?thesis using True fd outs by (simp add: raw star_dests_def)
  next
    case False
    then have "s = source_slot e [?ds ! 0] False None" by (simp add: e(1) star_source_def)
    then show ?thesis using False fd hub by (simp add: raw_queues_source_slot star_dests_def)
  qed
qed

lemma StarCaller_hub_and_spokes_witness:
  "\<exists>s. ss_ChannelID s = 20 \<and> raw_queues s = {1, 2, 3}"
proof -
  let ?p = "demo_params RaidModeOneManyGuildCaller"
  let ?es = "BuildSources (pp_OwnerBotID ?p) (pp_OwnerChannelID ?p) (pp_OwnerHandle ?p) (pp_Joined ?p)"
  let ?ds = "star_dests ?p ?es"
  let ?ss = "map (star_source ?p ?ds) ?es"
  let ?e = "\<lparr>se_ID = 30, se_ChannelID = 20, se_Handle = Some 10\<rparr>"
  have pr: "proper_bots (pp_OwnerBotID ?p) (pp_OwnerChannelID ?p) (pp_Joined ?p)"
    using demo_proper by (simp add: demo_params_def)
  obtain b where b: "StarCaller_Build (\<lambda>_. None) ?p = Inr b" "bu_router b = Some (new_router (pp_Deaf ?p) ?ss ?ds)"
    by (auto simp: StarCaller_Build_def Let_def no_mixer_errors simp del: create_mixers.simps)
  have "map ss_ID ?ss = map se_ID ?es" by (simp add: star_source_def comp_def)
  then have ids: "distinct (map ss_ID ?ss)" using BuildSources_ids [OF pr] by metis
  have chs: "distinct (map ds_ChannelID ?ds)"
    using pr by (auto simp: star_dests_def proper_bots_def)
  have "?e \<in> set ?es" by (simp add: BuildSources_def demo_params_def)
  then have "star_source ?p ?ds ?e \<in> set ?ss" by (rule mem_map)
  then have "(\<lambda>s. (ss_ID s, s)) (star_source ?p ?ds ?e) \<in> set (rt_sources (new_router (pp_Deaf ?p) ?ss ?ds))"
    unfolding new_router_slots(1) [OF ids chs] by (rule mem_map)
  then have "(30, star_source ?p ?ds ?e) \<in> set (rt_sources (new_router (pp_Deaf ?p) ?ss ?ds))"
    by (simp add: star_source_def demo_params_def)
  from StarCaller_hub_and_spokes [OF b pr this]
  have "raw_queues (star_source ?p ?ds ?e) = sr_ChOut ` set (pp_Joined ?p)"
    by (simp add: star_source_def demo_params_def)
  also have "\<dots> = {1, 2, 3}" by (auto simp: demo_params_def demo_joined_def)
  finally show ?thesis by (intro exI [of _ "star_source ?p ?ds ?e"]) (simp add: star_source_def demo_params_def)
qed

section \<open>The sink of a channel mixer\<close>

text \<open>
  Every queue but the last gets a copy of the frame, the last one the frame itself; a full queue
  gives its buffer back and counts a drop.
\<close>

definition sink_copy :: "8 word list \<Rightarrow> nat \<Rightarrow> media \<Rightarrow> media" where
  "sink_copy bytes q w =
     (let (buf, p) = CopyOpusFrame bytes (m_pools w)
      in if length (chans w q) < AudioChanBuf
         then w\<lparr>m_pools := p, chans := (chans w)(q := chans w q @ [buf])\<rparr>
         else w\<lparr>m_pools := PutEncodedFrame buf p, dropped := dropped w @ [q]\<rparr>)"

definition sink_last :: "packet \<Rightarrow> nat \<Rightarrow> media \<Rightarrow> media" where
  "sink_last pkt q w =
     (if length (chans w q) < AudioChanBuf
      then w\<lparr>chans := (chans w)(q := chans w q @ [pkt])\<rparr>
      else w\<lparr>m_pools := PutEncodedFrame pkt (m_pools w), dropped := dropped w @ [q]\<rparr>)"

definition channel_sink :: "nat list \<Rightarrow> packet \<Rightarrow> media \<Rightarrow> media" where
  "channel_sink qs pkt w =
     (if qs = [] then w\<lparr>m_pools := PutEncodedFrame pkt (m_pools w)\<rparr>
      else sink_last pkt (last qs) (fold (sink_copy (pkt_bytes pkt)) (butlast qs) w))"

text \<open>
  \<^verbatim>\<open>StartChannelMixers\<close>: the sink of every mixer after the loop, and the mixers that got a goroutine.
\<close>

definition StartChannelMixers :: "DestChannel list \<Rightarrow> (snowflake \<rightharpoonup> nat) \<Rightarrow> (nat \<rightharpoonup> nat list) \<times> nat list" where
  "StartChannelMixers ds mxs =
     fold (\<lambda>d (sinks, running). case mxs (dch_ChannelID d) of
             None \<Rightarrow> (sinks, running)
           | Some k \<Rightarrow> (sinks(k \<mapsto> dch_Outs d), running @ [k])) ds (Map.empty, [])"

text \<open>The drop counter of a queue: the bot it is charged to, if any.\<close>

definition Dropper :: "(nat \<rightharpoonup> snowflake) \<Rightarrow> nat \<Rightarrow> snowflake option" where
  "Dropper bots q = bots q"

definition drop_all :: fanoutDispatch where
  "drop_all = empty_install\<lparr>dropOpus := True\<rparr>"

lemma sink_copies_are_targets:
  "send_targets (\<lambda>_. False) drop_all bytes qs w = (fold (sink_copy bytes) qs w, False)"
  by (induction qs arbitrary: w) (auto simp: sink_copy_def drop_all_def empty_install_def Let_def split_def)

lemma sink_copy_channel:
  "chans (sink_copy bytes q w) x =
     (if x = q \<and> length (chans w q) < AudioChanBuf then chans w q @ [fst (CopyOpusFrame bytes (m_pools w))]
      else chans w x)"
  "dropped (sink_copy bytes q w) = dropped w @ (if length (chans w q) < AudioChanBuf then [] else [q])"
  by (simp_all add: sink_copy_def split_def Let_def)

lemma CopyOpusFrame_fst [simp]: "pkt_bytes (fst (CopyOpusFrame bytes p)) = bytes"
  using CopyOpusFrame_bytes [of bytes p] by (metis prod.collapse)

lemma sink_copies_channel:
  assumes "distinct qs"
  shows "map pkt_bytes (chans (fold (sink_copy bytes) qs w) x) =
    (if x \<in> set qs \<and> length (chans w x) < AudioChanBuf then map pkt_bytes (chans w x) @ [bytes]
     else map pkt_bytes (chans w x))"
    and "dropped (fold (sink_copy bytes) qs w) =
      dropped w @ filter (\<lambda>q. \<not> length (chans w q) < AudioChanBuf) qs"
  using assms
proof (induction qs arbitrary: w)
  case (Cons q qs)
  {
    case 1
    with Cons.IH(1) [of "sink_copy bytes q w"] show ?case by (auto simp: sink_copy_channel)
  next
    case 2
    have "filter (\<lambda>q'. \<not> length (chans (sink_copy bytes q w) q') < AudioChanBuf) qs =
        filter (\<lambda>q'. \<not> length (chans w q') < AudioChanBuf) qs"
      using 2 by (intro filter_cong) (auto simp: sink_copy_channel)
    with 2 Cons.IH(2) [of "sink_copy bytes q w"] show ?case
      by (simp add: sink_copy_channel(2) del: linorder_not_less)
  }
qed simp_all

lemma sink_last_channel:
  "map pkt_bytes (chans (sink_last pkt q w) x) =
     (if x = q \<and> length (chans w q) < AudioChanBuf then map pkt_bytes (chans w q) @ [pkt_bytes pkt]
      else map pkt_bytes (chans w x))"
  "dropped (sink_last pkt q w) = dropped w @ (if length (chans w q) < AudioChanBuf then [] else [q])"
  by (simp_all add: sink_last_def)

lemma sink_last_accounted:
  assumes "finite C" and "q \<in> C"
    and "accounted (m_pools w) (media_bufs C R w + ({#pkt_id pkt#} + held))"
  shows "accounted (m_pools (sink_last pkt q w)) (media_bufs C R (sink_last pkt q w) + held)"
proof (cases "length (chans w q) < AudioChanBuf")
  case True
  have "media_bufs C R (w\<lparr>chans := (chans w)(q := chans w q @ [pkt])\<rparr>) = add_mset (pkt_id pkt) (media_bufs C R w)"
    using sum_upd [OF assms(1,2), of packets "chans w"]
    by (simp add: media_bufs_def packets_def ac_simps del: fun_upd_apply)
  with assms(3) True show ?thesis by (simp add: sink_last_def ac_simps)
next
  case False
  have "accounted (m_pools w) (add_mset (pkt_id pkt) (media_bufs C R w + held))"
    using assms(3) by (simp add: ac_simps)
  from accounted_PutEncodedFrame [OF this] False show ?thesis
    by (simp add: sink_last_def media_bufs_def)
qed

lemma dropped_distinct_split:
  "qs \<noteq> [] \<Longrightarrow> filter P (butlast qs) @ (if P (last qs) then [last qs] else []) = filter P qs"
  by (cases qs rule: rev_cases) auto

text \<open>
  C36. The sink of a channel mixer hands each frame to every speaker of the channel and to nobody
  else: a queue with room gets exactly the bytes of the frame once, a full queue keeps what it has and
  counts one drop, and no two queues ever hold the same pool buffer nor is one lost, although
  the last queue takes the mixer's own buffer.
\<close>

theorem channel_sink_delivers:
  assumes "distinct qs" and "finite C" and "set qs \<subseteq> C"
    and "accounted (m_pools w) (media_bufs C R w + {#pkt_id pkt#} + held)"
  shows "map pkt_bytes (chans (channel_sink qs pkt w) x) =
      (if x \<in> set qs \<and> length (chans w x) < AudioChanBuf
       then map pkt_bytes (chans w x) @ [pkt_bytes pkt] else map pkt_bytes (chans w x))
    \<and> dropped (channel_sink qs pkt w) = dropped w @ filter (\<lambda>q. \<not> length (chans w q) < AudioChanBuf) qs
    \<and> accounted (m_pools (channel_sink qs pkt w)) (media_bufs C R (channel_sink qs pkt w) + held)"
proof (cases "qs = []")
  case True
  have "accounted (m_pools w) (add_mset (pkt_id pkt) (media_bufs C R w + held))"
    using assms(4) by (simp add: ac_simps)
  from accounted_PutEncodedFrame [OF this] True show ?thesis by (simp add: channel_sink_def media_bufs_def)
next
  case False
  let ?w = "fold (sink_copy (pkt_bytes pkt)) (butlast qs) w"
  have d: "distinct (butlast qs)" "last qs \<notin> set (butlast qs)" "set qs = insert (last qs) (set (butlast qs))"
    using False assms(1) by (cases qs rule: rev_cases; simp)+
  note ch = sink_copies_channel [OF d(1), of "pkt_bytes pkt" w]
  have len: "length (chans ?w x) < AudioChanBuf \<longleftrightarrow> length (chans w x) < AudioChanBuf" if "x \<notin> set (butlast qs)" for x
    using arg_cong [OF ch(1) [of x], of length] that by simp
  have sub: "set (butlast qs) \<subseteq> C" "last qs \<in> C" using assms(3) d(3) by auto
  have "accounted (m_pools w) (media_bufs C R w + ({#pkt_id pkt#} + held))"
    using assms(4) by (simp add: ac_simps)
  from send_targets_accounted [OF assms(2) sub(1) sink_copies_are_targets this]
  have "accounted (m_pools ?w) (media_bufs C R ?w + ({#pkt_id pkt#} + held))" by simp
  from sink_last_accounted [OF assms(2) sub(2) this]
  have acc: "accounted (m_pools (channel_sink qs pkt w)) (media_bufs C R (channel_sink qs pkt w) + held)"
    using False by (simp add: channel_sink_def)
  have "dropped (channel_sink qs pkt w) = dropped w @ filter (\<lambda>q. \<not> length (chans w q) < AudioChanBuf) qs"
    using False dropped_distinct_split [of qs "\<lambda>q. \<not> length (chans w q) < AudioChanBuf"] len [OF d(2)]
    by (simp add: channel_sink_def sink_last_channel ch(2) split: if_splits)
  moreover have "map pkt_bytes (chans (channel_sink qs pkt w) x) =
      (if x \<in> set qs \<and> length (chans w x) < AudioChanBuf
       then map pkt_bytes (chans w x) @ [pkt_bytes pkt] else map pkt_bytes (chans w x))"
    using False d(2,3) len [OF d(2)] by (auto simp: channel_sink_def sink_last_channel ch(1))
  ultimately show ?thesis using acc by blast
qed

lemma channel_sink_delivers_witness:
  "map pkt_bytes (chans (channel_sink [4, 5] pkt7 relay_media) 4) = [[1, 2, 3]] \<and>
   map pkt_bytes (chans (channel_sink [4, 5] pkt7 relay_media) 5) = [[1, 2, 3]] \<and>
   accounted (m_pools (channel_sink [4, 5] pkt7 relay_media))
     (media_bufs {4, 5} {} (channel_sink [4, 5] pkt7 relay_media))"
proof -
  have a: "accounted (m_pools relay_media) (media_bufs {4, 5} {} relay_media + {#pkt_id pkt7#} + {#})"
    by (simp add: accounted_def pooled_def relay_media_def empty_pools_def media_bufs_def packets_def pkt7_def)
  from channel_sink_delivers [OF _ _ _ a, of "[4, 5]" 4] channel_sink_delivers [OF _ _ _ a, of "[4, 5]" 5]
  show ?thesis by (simp add: relay_media_def pkt7_def provider_consts)
qed

text \<open>With channels of their own every mixer is started once and its sink serves all its speakers.\<close>

lemma StartChannelMixers_fold:
  assumes "distinct (map dch_ChannelID ds)" and "inj_on mxs (dch_ChannelID ` set ds)"
    and "\<And>d. d \<in> set ds \<Longrightarrow> mxs (dch_ChannelID d) \<noteq> None"
    and "fold (\<lambda>d (sinks, running). case mxs (dch_ChannelID d) of
             None \<Rightarrow> (sinks, running)
           | Some k \<Rightarrow> (sinks(k \<mapsto> dch_Outs d), running @ [k])) ds (s0, r0) = (sinks, running)"
  shows "running = r0 @ map (\<lambda>d. the (mxs (dch_ChannelID d))) ds \<and>
    (\<forall>d \<in> set ds. sinks (the (mxs (dch_ChannelID d))) = Some (dch_Outs d)) \<and>
    (\<forall>k. (\<forall>d \<in> set ds. mxs (dch_ChannelID d) \<noteq> Some k) \<longrightarrow> sinks k = s0 k)"
  using assms
proof (induction ds arbitrary: s0 r0)
  case (Cons d ds)
  obtain k where k: "mxs (dch_ChannelID d) = Some k" using Cons.prems(3) [of d] by auto
  have inj: "mxs (dch_ChannelID d') \<noteq> Some k" if "d' \<in> set ds" for d'
  proof
    assume "mxs (dch_ChannelID d') = Some k"
    then have "dch_ChannelID d' = dch_ChannelID d"
      using inj_onD [OF Cons.prems(2), of "dch_ChannelID d'" "dch_ChannelID d"] k that by simp
    then show False using Cons.prems(1) that by (metis distinct.simps(2) imageI list.simps(9) set_map)
  qed
  have prems: "distinct (map dch_ChannelID ds)" "inj_on mxs (dch_ChannelID ` set ds)"
    "\<And>d. d \<in> set ds \<Longrightarrow> mxs (dch_ChannelID d) \<noteq> None"
    using Cons.prems(1-3) by (auto intro: inj_on_subset)
  have f: "fold (\<lambda>d (sinks, running). case mxs (dch_ChannelID d) of
             None \<Rightarrow> (sinks, running)
           | Some k \<Rightarrow> (sinks(k \<mapsto> dch_Outs d), running @ [k])) ds (s0(k \<mapsto> dch_Outs d), r0 @ [k]) = (sinks, running)"
    using Cons.prems(4) k by simp
  note ih = Cons.IH [OF prems f]
  then have "sinks k = Some (dch_Outs d)" using inj by auto
  with ih k show ?case by auto
qed simp

lemma channel_mixers_None: "channel_mixers ds c = None \<longleftrightarrow> c \<notin> dch_ChannelID ` set ds"
  proof (induction ds rule: rev_induct)
  case Nil
  then show ?case by (simp add: channel_mixers_def)
next
  case (snoc d ds)
  then show ?case by (auto simp: channel_mixers_snoc)
qed

text \<open>
  With one destination per channel \<^verbatim>\<open>StartChannelMixers\<close> starts the mixer of each destination once, no
  mixer twice, and leaves it the sink that serves exactly that destination's queues.
\<close>

theorem StartChannelMixers_each_once:
  assumes "distinct (map dch_ChannelID ds)"
  shows "distinct (snd (StartChannelMixers ds (channel_mixers ds))) \<and>
    (\<forall>d. d \<in> set ds \<longrightarrow> (\<exists>k. channel_mixers ds (dch_ChannelID d) = Some k \<and>
       k \<in> set (snd (StartChannelMixers ds (channel_mixers ds))) \<and>
       fst (StartChannelMixers ds (channel_mixers ds)) k = Some (dch_Outs d)))"
proof -
  let ?m = "channel_mixers ds"
  have some: "\<And>d. d \<in> set ds \<Longrightarrow> ?m (dch_ChannelID d) \<noteq> None"
    by (simp add: channel_mixers_None)
  have inj: "inj_on ?m (dch_ChannelID ` set ds)"
  proof (rule inj_onI)
    fix c c' assume "c \<in> dch_ChannelID ` set ds" "?m c = ?m c'"
    then show "c = c'"
      using channel_mixers_Some [of ds c] channel_mixers_Some [of ds c'] channel_mixers_None [of ds c] by force
  qed
  obtain sinks running where s: "StartChannelMixers ds ?m = (sinks, running)" by fastforce
  from StartChannelMixers_fold [OF assms inj some s [unfolded StartChannelMixers_def]]
  have st: "running = map (\<lambda>d. the (?m (dch_ChannelID d))) ds"
    "\<And>d. d \<in> set ds \<Longrightarrow> sinks (the (?m (dch_ChannelID d))) = Some (dch_Outs d)" by simp_all
  have "distinct running"
  proof -
    have "inj_on (\<lambda>d. the (?m (dch_ChannelID d))) (set ds)"
    proof (rule inj_onI)
      fix d d' assume d: "d \<in> set ds" "d' \<in> set ds" "the (?m (dch_ChannelID d)) = the (?m (dch_ChannelID d'))"
      then have "dch_ChannelID d = dch_ChannelID d'"
        using some inj by (metis (no_types, lifting) imageI inj_onD option.expand)
      with d assms show "d = d'" by (metis distinct_map inj_onD)
    qed
    with assms st(1) show ?thesis by (simp add: distinct_map)
  qed
  moreover have "\<exists>k. ?m (dch_ChannelID d) = Some k \<and> k \<in> set running \<and> sinks k = Some (dch_Outs d)" if "d \<in> set ds" for d
    using some [OF that] st(2) [OF that] st(1) that by (force simp: image_iff)
  ultimately show ?thesis by (simp add: s)
qed

lemma StartChannelMixers_each_once_witness:
  "snd (StartChannelMixers (BuildDestinations demo_joined) (channel_mixers (BuildDestinations demo_joined))) = [0, 1] \<and>
   distinct (snd (StartChannelMixers (BuildDestinations demo_joined) (channel_mixers (BuildDestinations demo_joined))))"
  using StartChannelMixers_each_once [OF BuildDestinations_channels(1) [of demo_joined]]
  by (simp add: demo_destinations StartChannelMixers_def channel_mixers_def)

text \<open>
  A speaker that shares the owner's channel is left without audio: in a guild-caller raid the owner's
  destination is appended after the grouped ones, takes over the channel's entry in the mixer map and its sink,
  and the mixer is started twice, so the speaker's own queue belongs to no sink.  (\<^verbatim>\<open>BindChannel\<close>
  refuses such a binding, but one loaded from a file written before is accepted.)
\<close>

theorem shared_owner_channel_loses_speaker:
  "let ds = BuildDestinations [(demo_joined ! 0)\<lparr>sr_ChannelID := 20\<rparr>] @ owner_dest 20 (Some 0);
       (sinks, running) = StartChannelMixers ds (channel_mixers ds)
   in running = [1, 1] \<and> ran sinks = {[0]} \<and> sr_ChOut (demo_joined ! 0) = 1"
  by (simp add: BuildDestinations_def demo_joined_def add_output_def map_get_def owner_dest_def
      StartChannelMixers_def channel_mixers_def)

section \<open>The relay inputs of a guild\<close>

text \<open>
  \<open>rw_made\<close> are the relay channels made so far, \<open>rw_closed\<close> those closed (closing one twice panics),
  \<open>rw_bridges\<close> the ring and mixer of every input a channel's bridge goroutine serves.
\<close>

record 'e relay_world =
  rw_audio :: "'e audio"
  rw_session :: Session
  rw_made :: "nat list"
  rw_closed :: "nat list"
  rw_bridges :: "nat \<rightharpoonup> (nat \<times> nat) list"

definition relay_input ::
  "(snowflake \<rightharpoonup> nat) \<Rightarrow> DestChannel \<Rightarrow> (nat \<times> nat) list \<times> 'e audio \<Rightarrow> (nat \<times> nat) list \<times> 'e audio" where
  "relay_input mxs d = (\<lambda>(rs, a).
     case mxs (dch_ChannelID d) of
       None \<Rightarrow> (rs, a)
     | Some k \<Rightarrow> let (sb, a1) = new_ring a in (rs @ [(sb, k)], upd_mixer k (AddInput RelayInputID sb) a1))"

definition RegisterRelayInputs ::
  "snowflake \<Rightarrow> DestChannel list \<Rightarrow> (snowflake \<rightharpoonup> nat) \<Rightarrow> 'e relay_world \<Rightarrow> nat list \<times> 'e relay_world" where
  "RegisterRelayInputs g ds mxs w =
     (let (rs, a) = fold (relay_input mxs) ds ([], rw_audio w) in
      if rs = [] then ([], w\<lparr>rw_audio := a\<rparr>)
      else
        let ch = length (rw_made w); (s, woken) = AddGuild g [ch] (rw_session w)
        in ([ch], w\<lparr>rw_audio := a, rw_session := s, rw_made := rw_made w @ [ch],
                    rw_bridges := (rw_bridges w)(ch \<mapsto> rs)\<rparr>))"

text \<open>One packet through the bridge: decoded once, one frame for every input, the packet given back.\<close>

definition bridge_packet ::
  "('d \<Rightarrow> 8 word list \<Rightarrow> 'd \<times> (string + 16 word list)) \<Rightarrow> nat list \<Rightarrow> instant \<Rightarrow> packet \<Rightarrow> 'd \<times> media \<Rightarrow> 'd \<times> media" where
  "bridge_packet decode rs now pkt = (\<lambda>(d, w).
     if pkt_bytes pkt = [] then (d, w\<lparr>m_pools := PutEncodedFrame pkt (m_pools w)\<rparr>)
     else case decode d (pkt_bytes pkt) of
            (d', Inl err) \<Rightarrow> (d', w\<lparr>m_pools := PutEncodedFrame pkt (m_pools w)\<rparr>)
          | (d', Inr samples) \<Rightarrow>
              let w' = fold (feed_target samples (pkt_bytes pkt) now) rs w
              in (d', w'\<lparr>m_pools := PutEncodedFrame pkt (m_pools w')\<rparr>))"

text \<open>The bridge goroutine returns: its channel was closed, or no decoder could be made.\<close>

definition bridge_exit :: "nat \<Rightarrow> 'e relay_world \<Rightarrow> 'e relay_world" where
  "bridge_exit ch w =
     (case rw_bridges w ch of
        None \<Rightarrow> w
      | Some rs \<Rightarrow> w\<lparr>rw_audio := fold (\<lambda>(sb, k) a. drain_ring sb (upd_mixer k (RemoveInput RelayInputID) a)) rs (rw_audio w),
                      rw_bridges := (rw_bridges w)(ch := None)\<rparr>)"

record hostRelayInputs =
  hr_chs :: "nat list"
  hr_closed :: bool

definition register ::
  "('e relay_world \<Rightarrow> nat list \<times> 'e relay_world) \<Rightarrow> hostRelayInputs \<times> 'e relay_world \<Rightarrow> hostRelayInputs \<times> 'e relay_world" where
  "register registerFn = (\<lambda>(h, w).
     if hr_closed h then (h, w) else let (chs, w') = registerFn w in (h\<lparr>hr_chs := chs\<rparr>, w'))"

definition close_inputs :: "snowflake \<Rightarrow> hostRelayInputs \<times> 'e relay_world \<Rightarrow> hostRelayInputs \<times> 'e relay_world" where
  "close_inputs g = (\<lambda>(h, w).
     if hr_closed h then (h, w)
     else if hr_chs h = [] then (h\<lparr>hr_closed := True\<rparr>, w)
     else (h\<lparr>hr_closed := True\<rparr>,
           w\<lparr>rw_session := fst (RemoveGuild g (rw_session w)), rw_closed := rw_closed w @ hr_chs h\<rparr>))"

section \<open>No relay input leaks, none is used after it is closed\<close>

datatype relay_op = RegisterOp | CloseOp | BridgeExitOp nat

fun relay_step :: "snowflake \<Rightarrow> DestChannel list \<Rightarrow> (snowflake \<rightharpoonup> nat) \<Rightarrow> relay_op \<Rightarrow>
    hostRelayInputs \<times> 'e relay_world \<Rightarrow> hostRelayInputs \<times> 'e relay_world" where
  "relay_step g ds mxs RegisterOp st = register (RegisterRelayInputs g ds mxs) st"
| "relay_step g ds mxs CloseOp st = close_inputs g st"
| "relay_step g ds mxs (BridgeExitOp ch) st = (fst st, bridge_exit ch (snd st))"

definition relay_start :: "'e audio \<Rightarrow> Session \<Rightarrow> hostRelayInputs \<times> 'e relay_world" where
  "relay_start a s = (\<lparr>hr_chs = [], hr_closed = False\<rparr>,
     \<lparr>rw_audio = a, rw_session = s, rw_made = [], rw_closed = [], rw_bridges = Map.empty\<rparr>)"

definition relay_inv :: "snowflake \<Rightarrow> hostRelayInputs \<times> 'e relay_world \<Rightarrow> bool" where
  "relay_inv g = (\<lambda>(h, w).
     distinct (rw_made w) \<and>
     (if hr_closed h then rw_closed w = rw_made w \<and> map_of (outs (rw_session w)) g = None
      else rw_closed w = [] \<and> hr_chs h = rw_made w \<and>
        map_of (outs (rw_session w)) g = (if rw_made w = [] then None else Some (rw_made w))))"

lemma RegisterRelayInputs_first:
  assumes "RegisterRelayInputs g ds mxs w = (chs, w')" "rw_made w = []" "map_of (outs (rw_session w)) g = None"
  shows "rw_made w' = chs \<and> rw_closed w' = rw_closed w \<and> distinct chs \<and>
    map_of (outs (rw_session w')) g = (if chs = [] then None else Some chs)"
  using assms
  by (auto simp: RegisterRelayInputs_def Let_def AddGuild_def update_conv' split: prod.splits if_splits)

lemma bridge_exit_frame [simp]:
  "rw_made (bridge_exit ch w) = rw_made w" "rw_closed (bridge_exit ch w) = rw_closed w"
  "rw_session (bridge_exit ch w) = rw_session w"
  by (simp_all add: bridge_exit_def split: option.split)

lemma relay_inv_step:
  assumes "relay_inv g st" and "op = RegisterOp \<Longrightarrow> hr_closed (fst st) \<or> rw_made (snd st) = []"
  shows "relay_inv g (relay_step g ds mxs op st)"
proof (cases op)
  case RegisterOp
  with assms show ?thesis
    using RegisterRelayInputs_first [of g ds mxs "snd st"]
    by (auto simp: relay_inv_def register_def split: prod.splits if_splits)
next
  case CloseOp
  with assms(1) show ?thesis
    by (auto simp: relay_inv_def close_inputs_def RemoveGuild_def Let_def delete_conv' split: prod.splits if_splits)
next
  case (BridgeExitOp ch)
  with assms(1) show ?thesis by (auto simp: relay_inv_def split: prod.splits if_splits)
qed

lemma relay_run:
  assumes "map_of (outs s) g = None" and "count_list ops RegisterOp \<le> 1"
  shows "relay_inv g (fold (relay_step g ds mxs) ops (relay_start a s)) \<and>
    (RegisterOp \<notin> set ops \<longrightarrow> rw_made (snd (fold (relay_step g ds mxs) ops (relay_start a s))) = []) \<and>
    (hr_closed (fst (fold (relay_step g ds mxs) ops (relay_start a s))) \<longleftrightarrow> CloseOp \<in> set ops)"
  using assms(2)
proof (induction ops rule: rev_induct)
  case Nil
  then show ?case using assms(1) by (simp add: relay_start_def relay_inv_def)
next
  case (snoc op ops)
  let ?st = "fold (relay_step g ds mxs) ops (relay_start a s)"
  have ih: "relay_inv g ?st" "RegisterOp \<notin> set ops \<longrightarrow> rw_made (snd ?st) = []"
    "hr_closed (fst ?st) \<longleftrightarrow> CloseOp \<in> set ops"
    using snoc by (auto split: if_splits)
  have "RegisterOp \<notin> set ops" if "op = RegisterOp"
    using snoc.prems that by (simp add: count_list_0_iff)
  then have "relay_inv g (relay_step g ds mxs op ?st)"
    using relay_inv_step [OF ih(1)] ih(2) by blast
  moreover have "rw_made (snd (relay_step g ds mxs op ?st)) = rw_made (snd ?st)" if "op \<noteq> RegisterOp"
    using that by (cases op) (auto simp: close_inputs_def split: prod.split)
  moreover have "hr_closed (fst (relay_step g ds mxs op ?st)) \<longleftrightarrow> hr_closed (fst ?st) \<or> op = CloseOp"
    by (cases op) (auto simp: close_inputs_def register_def split: prod.split)
  ultimately show ?case using ih(2,3) by auto
qed


definition relay_dests :: "DestChannel list" where
  "relay_dests = [\<lparr>dch_ChannelID = 21, dch_Outs = [1]\<rparr>, \<lparr>dch_ChannelID = 22, dch_Outs = [2]\<rparr>]"


section \<open>What a registration adds to the mixers, its bridge takes away\<close>

lemma relay_input_cases:
  "mxs (dch_ChannelID d) = None \<Longrightarrow> relay_input mxs d st = st"
  "mxs (dch_ChannelID d) = Some k \<Longrightarrow> new_ring a = (sb, a2) \<Longrightarrow>
     relay_input mxs d (rs, a) = (rs @ [(sb, k)], upd_mixer k (AddInput RelayInputID sb) a2)"
  by (cases st) (simp_all add: relay_input_def)

lemma relay_inputs_added:
  "fold (relay_input mxs) ds (rs, a) = (rs', a') \<Longrightarrow>
   (\<exists>new. rs' = rs @ new \<and> set (map snd new) = {k. \<exists>d \<in> set ds. mxs (dch_ChannelID d) = Some k}) \<and>
   (\<forall>k i. i \<noteq> RelayInputID \<or> k \<notin> {k. \<exists>d \<in> set ds. mxs (dch_ChannelID d) = Some k} \<longrightarrow>
      inputs_of a' k i = inputs_of a k i) \<and>
   (\<forall>k. (\<exists>d \<in> set ds. mxs (dch_ChannelID d) = Some k) \<longrightarrow> inputs_of a' k RelayInputID \<noteq> None)"
proof (induction ds arbitrary: rs' a' rule: rev_induct)
  case (snoc d ds)
  obtain rs1 a1 where 1: "fold (relay_input mxs) ds (rs, a) = (rs1, a1)" by fastforce
  note ih = snoc.IH [OF 1]
  show ?case
  proof (cases "mxs (dch_ChannelID d)")
    case None
    with snoc.prems 1 have "rs' = rs1" "a' = a1" by (simp_all add: relay_input_cases(1))
    then show ?thesis using ih None by auto
  next
    case (Some k)
    obtain sb a2 where n: "new_ring a1 = (sb, a2)" by fastforce
    have r: "rs' = rs1 @ [(sb, k)]" "a' = upd_mixer k (AddInput RelayInputID sb) a2"
      using snoc.prems 1 relay_input_cases(2) [of mxs d k a1 sb a2, OF Some n] by simp_all
    have "inputs_of a2 = inputs_of a1" using inputs_of_new_ring [of a1] n by simp
    then show ?thesis using ih Some unfolding r by (auto simp: inputs_upd_mixer)
  qed
qed simp

lemma bridge_exit_removes:
  "inputs_of (fold (\<lambda>(sb, k) a. drain_ring sb (upd_mixer k (RemoveInput RelayInputID) a)) rs a) k =
     (if k \<in> snd ` set rs then (inputs_of a k)(RelayInputID := None) else inputs_of a k)"
  by (induction rs arbitrary: a) (auto simp: inputs_upd_mixer)

text \<open>
  A relay registration reaches the mixer of every destination, and the exit of its bridge
  takes exactly that back: after \<^verbatim>\<open>RegisterRelayInputs\<close> each of these mixers has the relay
  input, and when the bridge has returned every mixer has the inputs it had before.
\<close>

theorem relay_registration_reversible:
  assumes "RegisterRelayInputs g ds mxs w = (chs, w')" and "chs = [ch]"
    and "\<And>k. inputs_of (rw_audio w) k RelayInputID = None"
  shows "(\<forall>d k. d \<in> set ds \<longrightarrow> mxs (dch_ChannelID d) = Some k \<longrightarrow> inputs_of (rw_audio w') k RelayInputID \<noteq> None) \<and>
    inputs_of (rw_audio (bridge_exit ch w')) k = inputs_of (rw_audio w) k"
proof -
  obtain rs a where f: "fold (relay_input mxs) ds ([], rw_audio w) = (rs, a)" by fastforce
  have w': "rs \<noteq> []" "ch = length (rw_made w)" "rw_audio w' = a" "rw_bridges w' ch = Some rs"
    using assms(1,2) by (auto simp: RegisterRelayInputs_def f Let_def split: prod.splits if_splits)
  note ra = relay_inputs_added [OF f]
  have "inputs_of (rw_audio (bridge_exit ch w')) k i = inputs_of (rw_audio w) k i" for i
    using ra assms(3) [of k] by (auto simp: bridge_exit_def w'(3,4) bridge_exit_removes)
  then show ?thesis using ra w'(3) by (auto simp: fun_eq_iff)
qed

lemma relay_registration_reversible_witness:
  "case RegisterRelayInputs 10 relay_dests [21 \<mapsto> 0, 22 \<mapsto> 1]
      (snd (relay_start blank_audio (newSession ''ABCD2345'' 10 RaidModeGuildCaller))) of
     (chs, w') \<Rightarrow> chs = [0] \<and> inputs_of (rw_audio w') 1 RelayInputID \<noteq> None \<and>
       inputs_of (rw_audio (bridge_exit 0 w')) 1 = Map.empty"
proof -
  let ?w = "snd (relay_start blank_audio (newSession ''ABCD2345'' 10 RaidModeGuildCaller))"
  obtain chs w' where r: "RegisterRelayInputs 10 relay_dests [21 \<mapsto> 0, 22 \<mapsto> 1] ?w = (chs, w')" by fastforce
  have chs: "chs = [0]"
    using r by (auto simp: relay_start_def RegisterRelayInputs_def relay_dests_def relay_input_def Let_def split_def)
  have e: "inputs_of (rw_audio ?w) = (\<lambda>_. Map.empty)"
    by (simp add: relay_start_def inputs_of_def [abs_def] blank_audio_def mixer_of_def)
  have "\<lparr>dch_ChannelID = 22, dch_Outs = [2]\<rparr> \<in> set relay_dests" by (simp add: relay_dests_def)
  with relay_registration_reversible [OF r chs, of 1] e chs r show ?thesis by fastforce
qed

section \<open>The relay bridge\<close>

text \<open>
  A relayed packet is accounted for: decoded or not, the inbound buffer goes back to its pool,
  every input gets buffers of its own, and with any earlier accounting each buffer is again in
  exactly one place.
\<close>

theorem bridge_packet_accounts_buffers:
  assumes "finite C" and "finite R" and "set rs \<subseteq> R" and "\<forall>r. ring_wf (rings w r)"
    and "accounted (m_pools w) (media_bufs C R w + {#pkt_id pkt#} + held)"
    and "bridge_packet decode rs now pkt (d, w) = (d', w')"
  shows "accounted (m_pools w') (media_bufs C R w' + held)"
proof -
  have acc: "accounted (m_pools w) (media_bufs C R w + ({#pkt_id pkt#} + held))"
    using assms(5) by (simp add: ac_simps)
  have put: "accounted (PutEncodedFrame pkt (m_pools v)) (media_bufs C R (v\<lparr>m_pools := PutEncodedFrame pkt (m_pools v)\<rparr>) + held)"
    if "accounted (m_pools v) (media_bufs C R v + ({#pkt_id pkt#} + held))" for v
  proof -
    have "accounted (m_pools v) (add_mset (pkt_id pkt) (media_bufs C R v + held))"
      using that by (simp add: ac_simps)
    from accounted_PutEncodedFrame [OF this] show ?thesis by (simp add: media_bufs_def)
  qed
  from feed_targets_accounted [OF assms(2,3,4) acc]
  have "accounted (m_pools (fold (feed_target samples (pkt_bytes pkt) now) rs w))
      (media_bufs C R (fold (feed_target samples (pkt_bytes pkt) now) rs w) + ({#pkt_id pkt#} + held))" for samples .
  from put [OF this] put [OF acc] assms(6) show ?thesis
    by (auto simp: bridge_packet_def Let_def split: if_splits prod.splits sum.splits)
qed

lemma bridge_packet_accounts_buffers_witness:
  "case bridge_packet (\<lambda>d _. (d, Inr [0, 0])) [1, 2] 5 pkt7 (0 :: nat, relay_media) of
     (d', w') \<Rightarrow> accounted (m_pools w') (media_bufs {} {1, 2} w')"
proof -
  obtain d' w' where f: "bridge_packet (\<lambda>d _. (d, Inr [0, 0])) [1, 2] 5 pkt7 (0 :: nat, relay_media) = (d', w')" by fastforce
  have a: "accounted (m_pools relay_media) (media_bufs {} {1, 2} relay_media + {#pkt_id pkt7#} + {#})"
    by (simp add: accounted_def pooled_def relay_media_def empty_pools_def media_bufs_def packets_def pkt7_def
        NewSourceBuffer_def queued_def)
  have "\<forall>r. ring_wf (rings relay_media r)" by (simp add: relay_media_def NewSourceBuffer_def ring_wf_def)
  from bridge_packet_accounts_buffers [OF _ _ _ this a f] show ?thesis unfolding f by simp
qed

section \<open>Leaving the channels\<close>

datatype leave_act = RunCleanup snowflake | RunUndeafen snowflake | RunLeave snowflake

primrec act_bot :: "leave_act \<Rightarrow> snowflake" where
  "act_bot (RunCleanup i) = i"
| "act_bot (RunUndeafen i) = i"
| "act_bot (RunLeave i) = i"

definition leave_acts :: "SpeakerResult \<Rightarrow> leave_act list" where
  "leave_acts r = (if sr_Cleanup r then [RunCleanup (sr_ID r)] else []) @
     (if sr_Undeafen r then [RunUndeafen (sr_ID r)] else []) @ [RunLeave (sr_ID r)]"

text \<open>The goroutines of the speakers run in any interleaving.\<close>

inductive interleaving :: "'a list list \<Rightarrow> 'a list \<Rightarrow> bool" where
  all_done: "(\<And>xs. xs \<in> set xss \<Longrightarrow> xs = []) \<Longrightarrow> interleaving xss []"
| one_moves: "i < length xss \<Longrightarrow> xss ! i = x # xs \<Longrightarrow> interleaving (xss[i := xs]) ys \<Longrightarrow> interleaving xss (x # ys)"

text \<open>\<^verbatim>\<open>BuildSpeakerCleanup\<close>: the second call does nothing.\<close>

definition SpeakerCleanup :: "SpeakerResult list \<Rightarrow> bool \<Rightarrow> leave_act list \<Rightarrow> bool" where
  "SpeakerCleanup joined finished acts \<longleftrightarrow> (if finished then acts = [] else interleaving (map leave_acts joined) acts)"

lemma interleaving_filter:
  assumes "interleaving xss ys" and "j < length xss"
    and "\<And>x. x \<in> set (xss ! j) \<Longrightarrow> P x" and "\<And>i x. i < length xss \<Longrightarrow> i \<noteq> j \<Longrightarrow> x \<in> set (xss ! i) \<Longrightarrow> \<not> P x"
  shows "filter P ys = xss ! j"
  using assms
proof (induction xss ys rule: interleaving.induct)
  case (one_moves i xss x xs ys)
  have "x' \<in> set (xss[i := xs] ! k) \<Longrightarrow> x' \<in> set (xss ! k)" if "k < length xss" for x' k
    using one_moves.hyps(2) that by (cases "k = i") auto
  then have "filter P ys = xss[i := xs] ! j"
    using one_moves.prems by (intro one_moves.IH) auto
  with one_moves.hyps(1,2) one_moves.prems show ?case by (cases "i = j") auto
next
  case (all_done xss)
  then have "xss ! j = []" by simp
  then show ?case by simp
qed

text \<open>
  Teardown is parallel between the bots and ordered for each: whatever the interleaving of the first call, the acts on one bot
  are closing its provider and receiver, then undeafening it, then leaving, so no undeafen is sent after the
  bot has left; a second call does nothing.
\<close>

theorem SpeakerCleanup_order:
  assumes "distinct (map sr_ID joined)" and "SpeakerCleanup joined finished acts" and "r \<in> set joined"
  shows "filter (\<lambda>a. act_bot a = sr_ID r) acts = (if finished then [] else leave_acts r)"
proof (cases finished)
  case False
  obtain j where j: "j < length joined" "joined ! j = r" using assms(3) by (auto simp: in_set_conv_nth)
  have own: "act_bot a = sr_ID r'" if "a \<in> set (leave_acts r')" for a r'
    using that by (auto simp: leave_acts_def split: if_splits)
  have "filter (\<lambda>a. act_bot a = sr_ID r) acts = map leave_acts joined ! j"
  proof (rule interleaving_filter)
    show "interleaving (map leave_acts joined) acts" using assms(2) False by (simp add: SpeakerCleanup_def)
    show "act_bot a = sr_ID r" if "a \<in> set (map leave_acts joined ! j)" for a
      using that own j by simp
    show "act_bot a \<noteq> sr_ID r" if "i < length (map leave_acts joined)" "i \<noteq> j" "a \<in> set (map leave_acts joined ! i)" for i a
      using that own j assms(1) by (auto simp: distinct_conv_nth)
  qed (use j in simp)
  with False j show ?thesis by simp
qed (use assms(2) in \<open>simp add: SpeakerCleanup_def\<close>)

lemma SpeakerCleanup_order_witness:
  "filter (\<lambda>a. act_bot a = 33) [RunCleanup 33, RunUndeafen 33, RunLeave 33] = leave_acts (demo_joined ! 2)"
proof -
  let ?acts = "[RunCleanup 33, RunUndeafen 33, RunLeave 33]"
  have i: "SpeakerCleanup [demo_joined ! 2] False ?acts"
    by (auto simp: SpeakerCleanup_def leave_acts_def demo_joined_def
        intro!: interleaving.one_moves [of 0] interleaving.all_done)
  from SpeakerCleanup_order [OF _ i, of "demo_joined ! 2"]
  have "filter (\<lambda>a. act_bot a = sr_ID (demo_joined ! 2)) ?acts = leave_acts (demo_joined ! 2)" by simp
  moreover have "sr_ID (demo_joined ! 2) = 33" by (simp add: demo_joined_def)
  ultimately show ?thesis by (simp only:)
qed

section \<open>Telling the other guilds\<close>

definition RelayFeedFor :: "snowflake \<Rightarrow> Session \<Rightarrow> bool" where
  "RelayFeedFor g s = HasCapturingPeers g s"

definition WatchRelayMembership :: "snowflake \<Rightarrow> bool \<Rightarrow> Session \<Rightarrow> Session \<times> snowflake list" where
  "WatchRelayMembership g caps s =
     (let s1 = SetRouteObserver g s in if caps then SetCapturing g s1 else (s1, []))"

text \<open>
  Starting a capturing pipeline opens the relay feed of every other guild of the session and
  wakes the router of each that watches the membership; the feed of the starting guild itself
  is what it was, so a lone guild never keeps its own mixers running.
\<close>

theorem start_opens_peer_feeds:
  assumes "WatchRelayMembership g True s = (s', woken)"
  shows "(h \<noteq> g \<longrightarrow> RelayFeedFor h s') \<and> (RelayFeedFor g s' \<longleftrightarrow> RelayFeedFor g s) \<and>
    set woken = insert g (fst ` set (observers s))"
proof -
  have s': "capturing s' = AList.update g () (capturing s)"
    "woken = map fst (AList.update g () (observers s))"
    using assms by (auto simp: WatchRelayMembership_def SetCapturing_def SetRouteObserver_def observersLocked_def Let_def)
  have feed: "RelayFeedFor h t \<longleftrightarrow> set (map fst (capturing t)) - {h} \<noteq> {}" for h t
    by (force simp: RelayFeedFor_def HasCapturingPeers_def list_ex_iff)
  show ?thesis
    unfolding feed s' keys_update using keys_update [of g "()" "observers s"] by auto
qed

lemma start_opens_peer_feeds_witness:
  "case WatchRelayMembership 20 True (newSession ''ABCD2345'' 10 RaidModeGuildCaller) of
     (s', woken) \<Rightarrow> RelayFeedFor 10 s' \<and> \<not> RelayFeedFor 20 s'"
proof -
  obtain s' woken where f: "WatchRelayMembership 20 True (newSession ''ABCD2345'' 10 RaidModeGuildCaller) = (s', woken)"
    by fastforce
  have "\<not> RelayFeedFor 20 (newSession ''ABCD2345'' 10 RaidModeGuildCaller)"
    by (simp add: RelayFeedFor_def HasCapturingPeers_def newSession_def)
  with start_opens_peer_feeds [OF f, of 10] show ?thesis unfolding f by simp
qed

end
