(* ===== verification/Raid.thy ===== *)
theory Raid
  imports Service Pipeline
begin

text \<open>
  The life of a raid: \<^verbatim>\<open>internal/manager/voice_raid.go\<close>, \<^verbatim>\<open>voice_raid_setup.go\<close> and
  \<^verbatim>\<open>start_guard.go\<close>.

  A start takes seconds and holds no lock, so it is cut into phases at the points where it waits for
  Discord; a phase is a function on the service.  \<^verbatim>\<open>StartVoiceRaid\<close> is the phases in
  sequence, the relation \<open>raid_step\<close> interleaves them with those of the other starts, stops and
  teardowns.  What Discord and the audio library answer during one start is a record of outcomes
  (\<open>attempt\<close>).  Bots join in parallel; the order of the registered speakers stands for both the order Go
  ranges over them and the order they arrive in.
\<close>

section \<open>Outcomes\<close>

text \<open>
  For one bot: \<^verbatim>\<open>Open\<close> fails (and \<^verbatim>\<open>Join\<close> leaves again), or the bot is in but setting up its
  connection fails, or all is well.
\<close>

datatype voice_outcome = OpenFails | ApplyFails | Joins

text \<open>
  \<open>at_dead_leave\<close> says whether disgo still sends a bot's leave when the context it is given is already
  cancelled; the comment in \<^verbatim>\<open>guild_voice.go\<close> says it does not.  \<open>at_noDeafen\<close> is the
  \<^verbatim>\<open>MissingPermission\<close> of the deafen check, \<open>at_chan\<close>, \<open>at_handle\<close> and \<open>at_relay\<close> the channels and
  handles the start allocates, \<open>at_mixer k\<close> the error of the \<open>k\<close>-th mixer it creates.
\<close>

record attempt =
  at_token :: nat
  at_noDeafen :: bool
  at_voice :: "snowflake \<Rightarrow> voice_outcome"
  at_dead_leave :: "snowflake \<Rightarrow> bool"
  at_chan :: "snowflake \<Rightarrow> nat"
  at_handle :: "snowflake \<Rightarrow> nat"
  at_undeafen :: "snowflake \<Rightarrow> bool"
  at_relay :: nat
  at_mixer :: "nat \<Rightarrow> string option"
  at_draws :: "nat \<Rightarrow> 8 word list"

section \<open>The start guard\<close>

definition tryBegin :: "snowflake \<Rightarrow> nat \<Rightarrow> 's Service \<Rightarrow> 's Service option" where
  "tryBegin g t m = (if starting m g \<noteq> None then None else Some (m\<lparr>starting := (starting m)(g \<mapsto> t)\<rparr>))"

definition guard_cancel :: "snowflake \<Rightarrow> 's Service \<Rightarrow> 's Service \<times> bool" where
  "guard_cancel g m =
     (case starting m g of
        None \<Rightarrow> (m, False)
      | Some t \<Rightarrow> (m\<lparr>cancelled := insert t (cancelled m)\<rparr>, True))"

definition guard_end :: "snowflake \<Rightarrow> 's Service \<Rightarrow> 's Service" where
  "guard_end g m = m\<lparr>starting := (starting m)(g := None)\<rparr>"

section \<open>Joining and leaving\<close>

definition voice_join :: "snowflake \<Rightarrow> snowflake \<Rightarrow> 's Service \<Rightarrow> 's Service" where
  "voice_join g b m = m\<lparr>in_voice := insert (g, b) (in_voice m)\<rparr>"

definition voice_leave :: "snowflake \<Rightarrow> snowflake \<Rightarrow> 's Service \<Rightarrow> 's Service" where
  "voice_leave g b m = m\<lparr>in_voice := in_voice m - {(g, b)}\<rparr>"

text \<open>\<^verbatim>\<open>Leave\<close> with the context of the start.\<close>

definition leave_with :: "attempt \<Rightarrow> snowflake \<Rightarrow> snowflake \<Rightarrow> 's Service \<Rightarrow> 's Service" where
  "leave_with at g b m =
     (if at_token at \<in> cancelled m \<and> \<not> at_dead_leave at b then m else voice_leave g b m)"

definition storeApplier :: "snowflake \<Rightarrow> snowflake \<Rightarrow> 's Service \<Rightarrow> 's Service" where
  "storeApplier g b m = m\<lparr>appliers := insert (g, b) (appliers m)\<rparr>"

definition clearReconnectState :: "discord \<Rightarrow> snowflake \<Rightarrow> 's Service \<Rightarrow> 's Service" where
  "clearReconnectState dc g m = m\<lparr>appliers := appliers m - {g} \<times> set (all_bots dc)\<rparr>"

definition on_registry :: "(Manager \<Rightarrow> Manager) \<Rightarrow> 's Service \<Rightarrow> 's Service" where
  "on_registry f m = m\<lparr>sv_sessions := f (sv_sessions m)\<rparr>"

section \<open>Setting up the speakers\<close>

definition boundSpeakers :: "'s Store \<Rightarrow> snowflake \<Rightarrow> 's \<Rightarrow> Speaker list \<Rightarrow> Speaker list" where
  "boundSpeakers S g s sps = filter (\<lambda>sp. Enabled sp \<and> s_GetBoundChannel S g (spk_ID sp) s \<noteq> None) sps"

definition withLiveChannel :: "'s Store \<Rightarrow> discord \<Rightarrow> snowflake \<Rightarrow> 's \<Rightarrow> Speaker list \<Rightarrow> Speaker list" where
  "withLiveChannel S dc g s sps = filter (\<lambda>sp. liveBoundChannel S dc g (spk_ID sp) s \<noteq> None) sps"

definition speakersAfterSeeding :: "'s Store \<Rightarrow> discord \<Rightarrow> snowflake \<Rightarrow> 's Service \<Rightarrow> (string + Speaker list) \<times> 's Service" where
  "speakersAfterSeeding S dc g m =
     (case snapshotSpeakers g m of
        Inr sps \<Rightarrow> (Inr sps, m)
      | Inl e \<Rightarrow> if e \<noteq> ErrNoGuildStatus then (Inl e, m)
                 else let m' = seedGuildSpeakers S dc g m in (snapshotSpeakers g m', m'))"

type_synonym joined_speaker = "Speaker \<times> SpeakerResult"

definition speaker_result :: "'s Store \<Rightarrow> attempt \<Rightarrow> snowflake \<Rightarrow> bool \<Rightarrow> 's \<Rightarrow> Speaker \<Rightarrow> SpeakerResult" where
  "speaker_result S at g cap s sp =
     \<lparr>sr_ID = spk_ID sp, sr_ChOut = at_chan at (spk_ID sp),
      sr_Handle = (if cap then Some (at_handle at (spk_ID sp)) else None),
      sr_ChannelID = (case s_GetBoundChannel S g (spk_ID sp) s of None \<Rightarrow> 0 | Some c \<Rightarrow> c),
      sr_Cleanup = True, sr_Undeafen = at_undeafen at (spk_ID sp)\<rparr>"

definition join_speaker ::
  "'s Store \<Rightarrow> discord \<Rightarrow> attempt \<Rightarrow> snowflake \<Rightarrow> bool \<Rightarrow> Speaker \<Rightarrow>
   joined_speaker list \<times> 's Service \<Rightarrow> joined_speaker list \<times> 's Service" where
  "join_speaker S dc at g cap sp jm =
     (let b = spk_ID sp; (js, m) = jm in
      if SelfUser dc b = None then (js, m)
      else case at_voice at b of
          OpenFails \<Rightarrow> (js, voice_leave g b m)
        | ApplyFails \<Rightarrow> (js, leave_with at g b (voice_join g b m))
        | Joins \<Rightarrow> (js @ [(sp, speaker_result S at g cap (sv_store m) sp)], storeApplier g b (voice_join g b m)))"

definition joinSpeakers ::
  "'s Store \<Rightarrow> discord \<Rightarrow> attempt \<Rightarrow> snowflake \<Rightarrow> bool \<Rightarrow> Speaker list \<Rightarrow> 's Service \<Rightarrow>
   joined_speaker list \<times> 's Service" where
  "joinSpeakers S dc at g cap cands m = fold (join_speaker S dc at g cap) cands ([], m)"

definition setupSpeakers ::
  "'s Store \<Rightarrow> discord \<Rightarrow> attempt \<Rightarrow> snowflake \<Rightarrow> RaidMode \<Rightarrow> 's Service \<Rightarrow>
   (string + joined_speaker list) \<times> 's Service" where
  "setupSpeakers S dc at g mode m =
     (case speakersAfterSeeding S dc g m of
        (Inl e, m1) \<Rightarrow> (Inl e, m1)
      | (Inr sps, m1) \<Rightarrow>
          let cands = boundSpeakers S g (sv_store m1) sps in
          if cands = [] then (Inl ErrNoBoundSpeakers, m1)
          else let (js, m2) = joinSpeakers S dc at g (WithCapture mode) (withLiveChannel S dc g (sv_store m1) cands) m1 in
               if js = [] then (Inl ErrNoSpeakers, m2) else (Inr js, m2))"

definition joined_ids :: "joined_speaker list \<Rightarrow> snowflake set" where
  "joined_ids js = spk_ID ` fst ` set js"

text \<open>\<^verbatim>\<open>Setup.SpeakerCleanup\<close> of the start \<open>t\<close>: the second call does nothing.\<close>

definition run_cleanup :: "nat \<Rightarrow> snowflake \<Rightarrow> snowflake set \<Rightarrow> 's Service \<Rightarrow> 's Service" where
  "run_cleanup t g ids m =
     (if t \<in> cleaned m then m
      else m\<lparr>in_voice := in_voice m - {g} \<times> ids, cleaned := insert t (cleaned m)\<rparr>)"

section \<open>Committing\<close>

definition commitSession :: "snowflake \<Rightarrow> guild_session \<Rightarrow> 's Service \<Rightarrow> string + 's Service" where
  "commitSession g se m =
     (case statuses m g of
        None \<Rightarrow> Inl ''commit session: guild status disappeared''
      | Some st \<Rightarrow>
          if status_active st then Inl ErrSessionExists
          else let m' = m\<lparr>statuses := (statuses m)(g \<mapsto> st\<lparr>st_Session := Some se\<rparr>)\<rparr>
               in Inr (if gs_AutoRouter se = None then m' else setActiveRouter g (gs_AutoRouter se) m'))"

text \<open>What the start function of a pipeline does to the relay session of its guild.\<close>

fun start_relay_op :: "snowflake \<Rightarrow> nat \<Rightarrow> start_op \<Rightarrow> Session \<Rightarrow> Session" where
  "start_relay_op g r (DoRegisterRelay ds mxs) s =
     (if list_ex (\<lambda>d. mxs (dch_ChannelID d) \<noteq> None) ds then fst (AddGuild g [r] s) else s)"
| "start_relay_op g r (DoWatchMembership caps) s = fst (WatchRelayMembership g caps s)"
| "start_relay_op g r (DoAddGuild chs) s = fst (AddGuild g chs s)"
| "start_relay_op g r _ s = s"

definition run_start :: "snowflake \<Rightarrow> nat \<Rightarrow> nat \<Rightarrow> start_op list \<Rightarrow> 's Service \<Rightarrow> 's Service" where
  "run_start g r i ops = on_registry (on_session i (fold (start_relay_op g r) ops))"

text \<open>The session a build makes; its router is identified by the start.\<close>

definition built_session :: "nat \<Rightarrow> Code \<Rightarrow> nat \<Rightarrow> joined_speaker list \<Rightarrow> built \<Rightarrow> guild_session" where
  "built_session t code i js b =
     \<lparr>gs_token = t, gs_Speakers = map fst js, gs_AllyCode = code, gs_IsGuest = bu_IsGuest b,
      gs_AutoRouter = (if bu_router b = None then None else Some t), gs_ally = i,
      gs_detach = (DoCloseRelayInputs \<in> set (bu_cleanup b) \<and>
        list_ex (\<lambda>a. case a of DoRegisterRelay ds ms \<Rightarrow> True | _ \<Rightarrow> False) (bu_start b))\<rparr>"

section \<open>Hosting\<close>

definition host_setup ::
  "'s Store \<Rightarrow> discord \<Rightarrow> attempt \<Rightarrow> snowflake \<Rightarrow> RaidMode \<Rightarrow> 's Service \<Rightarrow>
   (string + joined_speaker list) \<times> 's Service" where
  "host_setup S dc at g mode m =
     (if at_noDeafen at then (Inl ErrNoDeafenPermission, m)
      else if \<not> hasBoundCallerRole S g (sv_store m) then (Inl ErrNoCallerRole, m)
      else if liveBoundChannel S dc g (ownerBotID dc) (sv_store m) = None then (Inl ErrNoOwnerChannel, m)
      else setupSpeakers S dc at g mode m)"

text \<open>The owner bot's turn; \<open>Inr c\<close> is its channel.\<close>

definition host_owner ::
  "'s Store \<Rightarrow> discord \<Rightarrow> attempt \<Rightarrow> snowflake \<Rightarrow> joined_speaker list \<Rightarrow> 's Service \<Rightarrow>
   (string + snowflake) \<times> 's Service" where
  "host_owner S dc at g js m =
     (let ow = ownerBotID dc; cleanup = run_cleanup (at_token at) g (joined_ids js) in
      case liveBoundChannel S dc g ow (sv_store m) of
        None \<Rightarrow> (Inl ''start raid: owner voice connection nil'', cleanup m)
      | Some c \<Rightarrow>
          (case at_voice at ow of
             OpenFails \<Rightarrow> (Inl ''start raid: join owner channel'', cleanup (voice_leave g ow m))
           | ApplyFails \<Rightarrow> (Inl ''start raid: setup owner capture'', cleanup (voice_join g ow m))
           | Joins \<Rightarrow> (Inr c, storeApplier g ow (voice_join g ow m))))"

definition host_params ::
  "discord \<Rightarrow> attempt \<Rightarrow> snowflake \<Rightarrow> RaidMode \<Rightarrow> snowflake \<Rightarrow> joined_speaker list \<Rightarrow> Params" where
  "host_params dc at g mode c js =
     \<lparr>pp_GuildID = g, pp_OwnerBotID = ownerBotID dc, pp_OwnerChannelID = c, pp_Mode = mode,
      pp_OwnerHandle = Some (at_handle at (ownerBotID dc)),
      pp_ChOwnerOut = (if WithCapture mode then Some (at_chan at (ownerBotID dc)) else None),
      pp_Joined = map snd js, pp_Deaf = True\<rparr>"

definition host_errCleanup :: "discord \<Rightarrow> attempt \<Rightarrow> snowflake \<Rightarrow> joined_speaker list \<Rightarrow> 's Service \<Rightarrow> 's Service" where
  "host_errCleanup dc at g js m =
     on_registry (RemoveHost g)
       (leave_with at g (ownerBotID dc) (run_cleanup (at_token at) g (joined_ids js) m))"

text \<open>\<open>None\<close>: no fresh relay code is ever drawn.\<close>

definition host_commit ::
  "'s Store \<Rightarrow> discord \<Rightarrow> attempt \<Rightarrow> snowflake \<Rightarrow> RaidMode \<Rightarrow> snowflake \<Rightarrow> joined_speaker list \<Rightarrow> 's Service \<Rightarrow>
   ((string + Code) \<times> 's Service) option" where
  "host_commit S dc at g mode c js m =
     (case s_GetOrCreateAllyCode S (at_draws at) g (sv_store m) of
        None \<Rightarrow> None
      | Some (s', code) \<Rightarrow>
          let (am, i) = Create code g mode (sv_sessions m);
              m1 = m\<lparr>sv_store := s', sv_sessions := am\<rparr>;
              undo = host_errCleanup dc at g js
          in Some (case Host_Build (HostFor mode) (at_mixer at) (host_params dc at g mode c js) of
               Inl e \<Rightarrow> (Inl e, undo m1)
             | Inr b \<Rightarrow>
                 if at_token at \<in> cancelled m1 then (Inl ''context canceled'', undo m1)
                 else case commitSession g (built_session (at_token at) code i js b) m1 of
                     Inl e \<Rightarrow> (Inl e, undo m1)
                   | Inr m2 \<Rightarrow> (Inr code, run_start g (at_relay at) i (bu_start b) m2)))"

definition StartVoiceRaid ::
  "'s Store \<Rightarrow> discord \<Rightarrow> attempt \<Rightarrow> snowflake \<Rightarrow> RaidMode \<Rightarrow> 's Service \<Rightarrow>
   ((string + Code) \<times> 's Service) option" where
  "StartVoiceRaid S dc at g mode m =
     (case tryBegin g (at_token at) m of
        None \<Rightarrow> Some (Inl ErrSessionExists, m)
      | Some m1 \<Rightarrow>
          (case host_setup S dc at g mode m1 of
             (Inl e, m2) \<Rightarrow> Some (Inl e, guard_end g m2)
           | (Inr js, m2) \<Rightarrow>
               (case host_owner S dc at g js m2 of
                  (Inl e, m3) \<Rightarrow> Some (Inl e, guard_end g m3)
                | (Inr c, m3) \<Rightarrow>
                    map_option (\<lambda>(r, m4). (r, guard_end g m4)) (host_commit S dc at g mode c js m3))))"

section \<open>Joining as a guest\<close>

fun join_message :: "join_error \<Rightarrow> string" where
  "join_message (SessionNotFound code) = ''ally session not found''"
| "join_message OwnSession = ''cannot join your own ally session''"
| "join_message AlreadyActive = ''guild is already in an ally session''"

definition guest_enter ::
  "'s Store \<Rightarrow> attempt \<Rightarrow> snowflake \<Rightarrow> RaidMode \<Rightarrow> Code \<Rightarrow> 's Service \<Rightarrow>
   (string + RaidMode \<times> nat) \<times> 's Service" where
  "guest_enter S at g mode code m =
     (if at_noDeafen at then (Inl ErrNoDeafenPermission, m)
      else case Join code g (sv_sessions m) of
          (am, Inl e) \<Rightarrow> (Inl (join_message e), m\<lparr>sv_sessions := am\<rparr>)
        | (am, Inr i) \<Rightarrow>
            let m1 = m\<lparr>sv_sessions := am\<rparr>; mode' = effective_guest_mode (HostMode (session_heap am i)) mode in
            if WithCapture mode' \<and> \<not> hasBoundCallerRole S g (sv_store m)
            then (Inl ErrNoCallerRole, on_registry (RemoveGuest g) m1)
            else (Inr (mode', i), m1))"

definition guest_setup ::
  "'s Store \<Rightarrow> discord \<Rightarrow> attempt \<Rightarrow> snowflake \<Rightarrow> RaidMode \<Rightarrow> 's Service \<Rightarrow>
   (string + joined_speaker list) \<times> 's Service" where
  "guest_setup S dc at g mode m =
     (case setupSpeakers S dc at g mode m of
        (Inl e, m1) \<Rightarrow> (Inl e, on_registry (RemoveGuest g) m1)
      | (Inr js, m1) \<Rightarrow> (Inr js, m1))"

text \<open>
  A guest's owner bot is optional.  The result is its channel and whether it has a cleanup; one whose
  connection could not be set up has none.
\<close>

definition guest_owner ::
  "'s Store \<Rightarrow> discord \<Rightarrow> attempt \<Rightarrow> snowflake \<Rightarrow> 's Service \<Rightarrow> (snowflake \<times> bool) \<times> 's Service" where
  "guest_owner S dc at g m =
     (let ow = ownerBotID dc in
      case liveBoundChannel S dc g ow (sv_store m) of
        None \<Rightarrow> ((0, False), m)
      | Some c \<Rightarrow>
          (case at_voice at ow of
             OpenFails \<Rightarrow> ((c, False), voice_leave g ow m)
           | ApplyFails \<Rightarrow> ((c, False), voice_join g ow m)
           | Joins \<Rightarrow> ((c, True), storeApplier g ow (voice_join g ow m))))"

definition guest_params ::
  "discord \<Rightarrow> attempt \<Rightarrow> snowflake \<Rightarrow> RaidMode \<Rightarrow> snowflake \<times> bool \<Rightarrow> joined_speaker list \<Rightarrow> GuestParams" where
  "guest_params dc at g mode own js =
     \<lparr>gp_GuestGuildID = g, gp_OwnerBotID = ownerBotID dc, gp_OwnerChannelID = fst own,
      gp_OwnerHandle = (if snd own \<and> WithCapture mode then Some (at_handle at (ownerBotID dc)) else None),
      gp_OwnerChOut = (if snd own then Some (at_chan at (ownerBotID dc)) else None),
      gp_Joined = map snd js, gp_Outs = map (sr_ChOut \<circ> snd) js, gp_Deaf = True\<rparr>"

definition guestCleanupOwner :: "discord \<Rightarrow> snowflake \<Rightarrow> bool \<Rightarrow> 's Service \<Rightarrow> 's Service" where
  "guestCleanupOwner dc g own m = (if own then voice_leave g (ownerBotID dc) m else m)"

definition guest_undo :: "discord \<Rightarrow> nat \<Rightarrow> snowflake \<Rightarrow> joined_speaker list \<Rightarrow> bool \<Rightarrow> 's Service \<Rightarrow> 's Service" where
  "guest_undo dc t g js own m =
     on_registry (RemoveGuest g) (guestCleanupOwner dc g own (run_cleanup t g (joined_ids js) m))"

definition guest_commit ::
  "discord \<Rightarrow> attempt \<Rightarrow> snowflake \<Rightarrow> RaidMode \<Rightarrow> Code \<Rightarrow> nat \<Rightarrow> snowflake \<times> bool \<Rightarrow> joined_speaker list \<Rightarrow>
   's Service \<Rightarrow> string option \<times> 's Service" where
  "guest_commit dc at g mode code i own js m =
     (let undo = guest_undo dc (at_token at) g js (snd own) in
      case Guest_Build (GuestFor mode) (at_mixer at) (guest_params dc at g mode own js) of
        Inl e \<Rightarrow> (Some e, undo m)
      | Inr (b, chs) \<Rightarrow>
          (case commitSession g (built_session (at_token at) code i js b) m of
             Inl e \<Rightarrow> (Some (''join session: commit: '' @ e), undo m)
           | Inr m1 \<Rightarrow> (None, run_start g (at_relay at) i (bu_start b) m1)))"

text \<open>The goroutine of a guest session: what it does under the lock, and the rest.\<close>

definition guest_end :: "snowflake \<Rightarrow> 's Service \<Rightarrow> 's Service" where
  "guest_end g m = clearActiveRouter g (upd_status g (\<lambda>st. st\<lparr>st_Session := None\<rparr>) m)"

definition guest_teardown ::
  "discord \<Rightarrow> nat \<Rightarrow> snowflake \<Rightarrow> nat \<Rightarrow> joined_speaker list \<Rightarrow> bool \<Rightarrow> 's Service \<Rightarrow> 's Service" where
  "guest_teardown dc t g i js own m =
     clearReconnectState dc g (on_registry (RemoveGuest g)
       (on_registry (on_session i (\<lambda>s. fst (RemoveGuild g s)))
         (guestCleanupOwner dc g own (run_cleanup t g (joined_ids js) m))))"

section \<open>Stopping\<close>

datatype stop_result = NothingActive | StartAborted | Taken guild_session

text \<open>
  The part of \<^verbatim>\<open>stopSession\<close> under the lock; \<open>want\<close> is the session of the idle watcher.
\<close>

definition stop_take :: "snowflake \<Rightarrow> nat option \<Rightarrow> 's Service \<Rightarrow> stop_result \<times> 's Service" where
  "stop_take g want m =
     (case (case statuses m g of None \<Rightarrow> None | Some st \<Rightarrow> st_Session st) of
        None \<Rightarrow>
          if want = None
          then (case guard_cancel g m of (m', aborted) \<Rightarrow> (if aborted then StartAborted else NothingActive, m'))
          else (NothingActive, m)
      | Some se \<Rightarrow>
          if want \<noteq> None \<and> want \<noteq> Some (gs_token se) then (NothingActive, m)
          else (Taken se, clearActiveRouter g (upd_status g (\<lambda>st. st\<lparr>st_Session := None\<rparr>) m)))"

definition session_ids :: "guild_session \<Rightarrow> snowflake set" where
  "session_ids se = spk_ID ` set (gs_Speakers se)"

definition session_cleanup :: "snowflake \<Rightarrow> guild_session \<Rightarrow> 's Service \<Rightarrow> 's Service" where
  "session_cleanup g se m =
     run_cleanup (gs_token se) g (session_ids se)
       (if gs_detach se then on_registry (on_session (gs_ally se) (\<lambda>s. fst (RemoveGuild g s))) m else m)"

definition stop_finish :: "discord \<Rightarrow> snowflake \<Rightarrow> guild_session \<Rightarrow> 's Service \<Rightarrow> 's Service" where
  "stop_finish dc g se m =
     (let m1 = session_cleanup g se (m\<lparr>cancelled := insert (gs_token se) (cancelled m)\<rparr>);
          m2 = (if gs_IsGuest se then m1 else on_registry (RemoveHost g) (voice_leave g (ownerBotID dc) m1))
      in clearReconnectState dc g m2)"

definition StopVoiceRaid :: "discord \<Rightarrow> snowflake \<Rightarrow> nat option \<Rightarrow> 's Service \<Rightarrow> string option \<times> 's Service" where
  "StopVoiceRaid dc g want m =
     (case stop_take g want m of
        (NothingActive, m') \<Rightarrow> (Some ErrNoActiveSession, m')
      | (StartAborted, m') \<Rightarrow> (None, m')
      | (Taken se, m') \<Rightarrow> (None, stop_finish dc g se m'))"

definition forget_status :: "snowflake \<Rightarrow> 's Service \<Rightarrow> 's Service" where
  "forget_status g m = m\<lparr>statuses := (statuses m)(g := None)\<rparr>"

definition ForgetGuild :: "discord \<Rightarrow> snowflake \<Rightarrow> 's Service \<Rightarrow> 's Service" where
  "ForgetGuild dc g m = forget_status g (snd (StopVoiceRaid dc g None m))"

section \<open>What the phases of a start change\<close>

text \<open>Voice and reconnect state aside, joining the speakers changes nothing.\<close>

definition voice_of :: "snowflake \<Rightarrow> 's Service \<Rightarrow> snowflake set" where
  "voice_of g m = {b. (g, b) \<in> in_voice m}"

definition only_voice :: "snowflake \<Rightarrow> 's Service \<Rightarrow> 's Service \<Rightarrow> bool" where
  "only_voice g m m' \<longleftrightarrow>
     statuses m' = statuses m \<and> activeRouters m' = activeRouters m \<and> sv_store m' = sv_store m \<and>
     sv_sessions m' = sv_sessions m \<and> starting m' = starting m \<and> cancelled m' = cancelled m \<and>
     cleaned m' = cleaned m \<and> (\<forall>h. h \<noteq> g \<longrightarrow> voice_of h m' = voice_of h m)"

lemma voice_join_frame [simp]:
  "statuses (voice_join g b m) = statuses m" "activeRouters (voice_join g b m) = activeRouters m"
  "sv_store (voice_join g b m) = sv_store m" "sv_sessions (voice_join g b m) = sv_sessions m"
  "starting (voice_join g b m) = starting m" "appliers (voice_join g b m) = appliers m"
  "cancelled (voice_join g b m) = cancelled m" "cleaned (voice_join g b m) = cleaned m"
  by (simp_all add: voice_join_def)

lemma voice_leave_frame [simp]:
  "statuses (voice_leave g b m) = statuses m" "activeRouters (voice_leave g b m) = activeRouters m"
  "sv_store (voice_leave g b m) = sv_store m" "sv_sessions (voice_leave g b m) = sv_sessions m"
  "starting (voice_leave g b m) = starting m" "appliers (voice_leave g b m) = appliers m"
  "cancelled (voice_leave g b m) = cancelled m" "cleaned (voice_leave g b m) = cleaned m"
  by (simp_all add: voice_leave_def)

lemma storeApplier_frame [simp]:
  "statuses (storeApplier g b m) = statuses m" "activeRouters (storeApplier g b m) = activeRouters m"
  "sv_store (storeApplier g b m) = sv_store m" "sv_sessions (storeApplier g b m) = sv_sessions m"
  "starting (storeApplier g b m) = starting m" "cancelled (storeApplier g b m) = cancelled m"
  "cleaned (storeApplier g b m) = cleaned m"
  by (simp_all add: storeApplier_def)

lemma on_registry_frame [simp]:
  "statuses (on_registry f m) = statuses m" "activeRouters (on_registry f m) = activeRouters m"
  "sv_store (on_registry f m) = sv_store m" "starting (on_registry f m) = starting m"
  "appliers (on_registry f m) = appliers m" "cancelled (on_registry f m) = cancelled m"
  "cleaned (on_registry f m) = cleaned m"
  by (simp_all add: on_registry_def)

lemma clearReconnectState_frame [simp]:
  "statuses (clearReconnectState dc g m) = statuses m" "activeRouters (clearReconnectState dc g m) = activeRouters m"
  "sv_store (clearReconnectState dc g m) = sv_store m" "sv_sessions (clearReconnectState dc g m) = sv_sessions m"
  "starting (clearReconnectState dc g m) = starting m" "cancelled (clearReconnectState dc g m) = cancelled m"
  "cleaned (clearReconnectState dc g m) = cleaned m"
  by (simp_all add: clearReconnectState_def)

lemma run_cleanup_frame [simp]:
  "statuses (run_cleanup t g ids m) = statuses m" "activeRouters (run_cleanup t g ids m) = activeRouters m"
  "sv_store (run_cleanup t g ids m) = sv_store m" "sv_sessions (run_cleanup t g ids m) = sv_sessions m"
  "starting (run_cleanup t g ids m) = starting m" "appliers (run_cleanup t g ids m) = appliers m"
  "cancelled (run_cleanup t g ids m) = cancelled m"
  by (simp_all add: run_cleanup_def)

lemma guard_end_frame [simp]:
  "statuses (guard_end g m) = statuses m" "activeRouters (guard_end g m) = activeRouters m"
  "sv_store (guard_end g m) = sv_store m" "sv_sessions (guard_end g m) = sv_sessions m"
  "appliers (guard_end g m) = appliers m" "cancelled (guard_end g m) = cancelled m"
  "cleaned (guard_end g m) = cleaned m"
  by (simp_all add: guard_end_def)

lemma setActiveRouter_frame [simp]:
  "statuses (setActiveRouter g r m) = statuses m" "sv_store (setActiveRouter g r m) = sv_store m"
  "sv_sessions (setActiveRouter g r m) = sv_sessions m" "starting (setActiveRouter g r m) = starting m"
  "appliers (setActiveRouter g r m) = appliers m" "cancelled (setActiveRouter g r m) = cancelled m"
  "cleaned (setActiveRouter g r m) = cleaned m"
  by (simp_all add: setActiveRouter_def)

lemma clearActiveRouter_frame [simp]:
  "statuses (clearActiveRouter g m) = statuses m" "sv_store (clearActiveRouter g m) = sv_store m"
  "sv_sessions (clearActiveRouter g m) = sv_sessions m" "starting (clearActiveRouter g m) = starting m"
  "appliers (clearActiveRouter g m) = appliers m" "cancelled (clearActiveRouter g m) = cancelled m"
  "cleaned (clearActiveRouter g m) = cleaned m"
  by (simp_all add: clearActiveRouter_def)

lemma upd_status_frame [simp]:
  "activeRouters (upd_status g u m) = activeRouters m" "sv_store (upd_status g u m) = sv_store m"
  "sv_sessions (upd_status g u m) = sv_sessions m" "starting (upd_status g u m) = starting m"
  "appliers (upd_status g u m) = appliers m" "cancelled (upd_status g u m) = cancelled m"
  "cleaned (upd_status g u m) = cleaned m"
  by (simp_all add: upd_status_def split: option.split)

text \<open>Leaving with the context of the start works: it is alive, or disgo sends the leave anyway.\<close>

definition leaves_work :: "attempt \<Rightarrow> 's Service \<Rightarrow> bool" where
  "leaves_work at m \<longleftrightarrow> at_token at \<notin> cancelled m \<or> (\<forall>b. at_dead_leave at b)"

lemma voice_of_simps [simp]:
  "voice_of h (voice_join g b m) = (if h = g then insert b (voice_of h m) else voice_of h m)"
  "voice_of h (voice_leave g b m) = (if h = g then voice_of h m - {b} else voice_of h m)"
  "voice_of h (storeApplier g b m) = voice_of h m"
  "voice_of h (on_registry f m) = voice_of h m"
  "voice_of h (guard_end g m) = voice_of h m"
  "voice_of h (clearReconnectState dc g m) = voice_of h m"
  "voice_of h (setActiveRouter g r m) = voice_of h m"
  "voice_of h (clearActiveRouter g m) = voice_of h m"
  "voice_of h (upd_status g u m) = voice_of h m"
  by (auto simp: voice_of_def voice_join_def voice_leave_def storeApplier_def on_registry_def guard_end_def
      clearReconnectState_def setActiveRouter_def clearActiveRouter_def upd_status_def split: option.split)

lemma voice_of_upd [simp]:
  "voice_of h (m\<lparr>statuses := x\<rparr>) = voice_of h m" "voice_of h (m\<lparr>starting := y\<rparr>) = voice_of h m"
  "voice_of h (m\<lparr>sv_store := s\<rparr>) = voice_of h m" "voice_of h (m\<lparr>sv_sessions := z\<rparr>) = voice_of h m"
  "voice_of h (m\<lparr>cancelled := c\<rparr>) = voice_of h m" "voice_of h (m\<lparr>activeRouters := r\<rparr>) = voice_of h m"
  by (simp_all add: voice_of_def)

lemma voice_of_run_cleanup [simp]:
  "voice_of h (run_cleanup t g ids m) = (if h = g \<and> t \<notin> cleaned m then voice_of h m - ids else voice_of h m)"
  by (auto simp: voice_of_def run_cleanup_def)

lemma voice_of_leave_with:
  "leaves_work at m \<Longrightarrow> leave_with at g b m = voice_leave g b m"
  by (auto simp: leave_with_def leaves_work_def)

lemma only_voice_refl [simp]: "only_voice g m m"
  by (simp add: only_voice_def)

lemma only_voice_trans: "only_voice g m m' \<Longrightarrow> only_voice g m' m'' \<Longrightarrow> only_voice g m m''"
  by (simp add: only_voice_def)

lemma only_voice_ops:
  "only_voice g m (voice_join g b m)" "only_voice g m (voice_leave g b m)" "only_voice g m (storeApplier g b m)"
  by (simp_all add: only_voice_def)

lemma only_voice_leave_with: "only_voice g m (leave_with at g b m)"
  by (simp add: leave_with_def only_voice_ops)

lemma only_voiceD:
  assumes "only_voice g m m'"
  shows "statuses m' = statuses m" "activeRouters m' = activeRouters m" "sv_store m' = sv_store m"
    "sv_sessions m' = sv_sessions m" "starting m' = starting m" "cancelled m' = cancelled m" "cleaned m' = cleaned m"
    "h \<noteq> g \<Longrightarrow> voice_of h m' = voice_of h m"
  using assms by (simp_all add: only_voice_def)

lemma joined_ids_simps [simp]:
  "joined_ids [] = {}" "joined_ids (js @ ks) = joined_ids js \<union> joined_ids ks"
  "joined_ids ((sp, r) # js) = insert (spk_ID sp) (joined_ids js)"
  by (auto simp: joined_ids_def)

text \<open>Every bot that joined is in voice, and nobody else whose leaves work.\<close>

lemma join_speaker_effect:
  assumes "join_speaker S dc at g cap sp (js, m) = (js', m')"
  shows "only_voice g m m'" "\<exists>ks. js' = js @ ks \<and> fst ` set ks \<subseteq> {sp}"
    "leaves_work at m \<Longrightarrow> voice_of g m' \<subseteq> voice_of g m \<union> joined_ids js'"
    "b \<noteq> spk_ID sp \<Longrightarrow> b \<in> voice_of g m' \<longleftrightarrow> b \<in> voice_of g m"
    "b \<in> joined_ids js' - joined_ids js \<Longrightarrow> b \<in> voice_of g m' \<and> (g, b) \<in> appliers m'"
    "appliers m \<subseteq> appliers m'"
proof -
  note d = assms [unfolded join_speaker_def Let_def split_conv]
  show "only_voice g m m'"
    using d by (auto split: if_splits voice_outcome.splits
        intro: only_voice_ops only_voice_leave_with only_voice_trans)
  show "\<exists>ks. js' = js @ ks \<and> fst ` set ks \<subseteq> {sp}"
    using d by (auto split: if_splits voice_outcome.splits)
  show "leaves_work at m \<Longrightarrow> voice_of g m' \<subseteq> voice_of g m \<union> joined_ids js'"
    using d by (auto simp: leave_with_def leaves_work_def split: if_splits voice_outcome.splits)
  show "b \<noteq> spk_ID sp \<Longrightarrow> b \<in> voice_of g m' \<longleftrightarrow> b \<in> voice_of g m"
    using d by (auto simp: leave_with_def split: if_splits voice_outcome.splits)
  show "b \<in> joined_ids js' - joined_ids js \<Longrightarrow> b \<in> voice_of g m' \<and> (g, b) \<in> appliers m'"
    using d by (auto simp: storeApplier_def voice_of_def voice_join_def split: if_splits voice_outcome.splits)
  show "appliers m \<subseteq> appliers m'"
    using d by (auto simp: leave_with_def storeApplier_def voice_join_def voice_leave_def split: if_splits voice_outcome.splits)
qed

lemma join_speakers_effect:
  assumes "fold (join_speaker S dc at g cap) cands (js, m) = (js', m')"
  shows "only_voice g m m' \<and> (\<exists>ks. js' = js @ ks \<and> fst ` set ks \<subseteq> set cands) \<and>
    (leaves_work at m \<longrightarrow> voice_of g m' \<subseteq> voice_of g m \<union> joined_ids js') \<and>
    (\<forall>b. b \<notin> spk_ID ` set cands \<longrightarrow> (b \<in> voice_of g m' \<longleftrightarrow> b \<in> voice_of g m)) \<and>
    (distinct (map spk_ID cands) \<longrightarrow> (\<forall>b \<in> joined_ids js' - joined_ids js. b \<in> voice_of g m' \<and> (g, b) \<in> appliers m')) \<and>
    appliers m \<subseteq> appliers m'"
  using assms
proof (induction cands arbitrary: js m)
  case Nil
  then show ?case by simp
next
  case (Cons sp cands)
  obtain js1 m1 where one: "join_speaker S dc at g cap sp (js, m) = (js1, m1)" by fastforce
  note e = join_speaker_effect [OF one]
  obtain ks1 where ks1: "js1 = js @ ks1" "fst ` set ks1 \<subseteq> {sp}" using e(2) by blast
  have rest: "fold (join_speaker S dc at g cap) cands (js1, m1) = (js', m')"
    using Cons.prems one by simp
  note IH = Cons.IH [OF rest]
  then have IH1: "only_voice g m1 m'" and IH2: "leaves_work at m1 \<Longrightarrow> voice_of g m' \<subseteq> voice_of g m1 \<union> joined_ids js'"
    and IH3: "\<And>b. b \<notin> spk_ID ` set cands \<Longrightarrow> b \<in> voice_of g m' \<longleftrightarrow> b \<in> voice_of g m1"
    and IH4: "\<And>b. distinct (map spk_ID cands) \<Longrightarrow> b \<in> joined_ids js' - joined_ids js1 \<Longrightarrow>
      b \<in> voice_of g m' \<and> (g, b) \<in> appliers m'"
    and IH5: "appliers m1 \<subseteq> appliers m'"
    by blast+
  obtain ks where ks: "js' = js1 @ ks" "fst ` set ks \<subseteq> set cands" using IH by blast
  have lw: "leaves_work at m1 \<longleftrightarrow> leaves_work at m"
    using only_voiceD(6) [OF e(1)] by (simp add: leaves_work_def)
  show ?case
  proof (intro conjI impI allI ballI)
    show "only_voice g m m'" by (rule only_voice_trans [OF e(1) IH1])
    show "\<exists>ks. js' = js @ ks \<and> fst ` set ks \<subseteq> set (sp # cands)"
      using ks ks1 by (intro exI [of _ "ks1 @ ks"]) auto
    show "voice_of g m' \<subseteq> voice_of g m \<union> joined_ids js'" if "leaves_work at m"
      using IH2 e(3) [OF that] lw that ks by auto
    show "b \<in> voice_of g m' \<longleftrightarrow> b \<in> voice_of g m" if "b \<notin> spk_ID ` set (sp # cands)" for b
      using that IH3 e(4) by simp
    show "appliers m \<subseteq> appliers m'" using e(6) IH5 by blast
    fix b assume d: "distinct (map spk_ID (sp # cands))" and b: "b \<in> joined_ids js' - joined_ids js"
    show "b \<in> voice_of g m'" "(g, b) \<in> appliers m'"
    proof -
      have "b \<in> voice_of g m' \<and> (g, b) \<in> appliers m'"
      proof (cases "b \<in> joined_ids js1")
        case False
        with b d show ?thesis by (intro IH4) auto
      next
        case True
        then have "b \<in> voice_of g m1" "(g, b) \<in> appliers m1" using b e(5) by auto
        moreover have "b = spk_ID sp"
          using True b ks1 by (auto simp: joined_ids_def)
        then have "b \<notin> spk_ID ` set cands" using d by auto
        ultimately show ?thesis using IH3 IH5 by blast
      qed
      then show "b \<in> voice_of g m'" "(g, b) \<in> appliers m'" by auto
    qed
  qed
qed

lemma snapshotSpeakers_Inr:
  "snapshotSpeakers g m = Inr sps \<longleftrightarrow>
     (\<exists>st. statuses m g = Some st \<and> st_Session st = None \<and> sps = map snd (Speakers st))"
  by (auto simp: snapshotSpeakers_def status_active_def split: option.splits if_splits)

lemma snapshotSpeakers_active:
  "HasActiveSession g m \<Longrightarrow> snapshotSpeakers g m = Inl ErrSessionExists"
  by (auto simp: snapshotSpeakers_def HasActiveSession_def split: option.splits if_splits)

lemma snapshotSpeakers_unseeded:
  "snapshotSpeakers g m = Inl ErrNoGuildStatus \<longleftrightarrow> statuses m g = None"
  by (auto simp: snapshotSpeakers_def split: option.splits if_splits)

lemma add_seeded_session:
  "st_Session (fold add_seeded inits st) = st_Session st"
  by (induction inits arbitrary: st) (simp_all add: add_seeded_def split: sum.splits)

lemma seedGuildSpeakers_frame [simp]:
  "activeRouters (seedGuildSpeakers S dc g m) = activeRouters m" "sv_store (seedGuildSpeakers S dc g m) = sv_store m"
  "sv_sessions (seedGuildSpeakers S dc g m) = sv_sessions m" "starting (seedGuildSpeakers S dc g m) = starting m"
  "appliers (seedGuildSpeakers S dc g m) = appliers m" "cancelled (seedGuildSpeakers S dc g m) = cancelled m"
  "cleaned (seedGuildSpeakers S dc g m) = cleaned m" "voice_of h (seedGuildSpeakers S dc g m) = voice_of h m"
  by (simp_all add: seedGuildSpeakers_def Let_def voice_of_def)

lemma seedGuildSpeakers_session:
  "(case statuses (seedGuildSpeakers S dc g m) h of None \<Rightarrow> None | Some st \<Rightarrow> st_Session st) =
   (case statuses m h of None \<Rightarrow> None | Some st \<Rightarrow> st_Session st)"
  by (auto simp: seedGuildSpeakers_def Let_def add_seeded_session NewStatus_def split: option.split)

text \<open>The session of a guild, if it has one.\<close>

definition session_of :: "snowflake \<Rightarrow> 's Service \<Rightarrow> guild_session option" where
  "session_of g m = (case statuses m g of None \<Rightarrow> None | Some st \<Rightarrow> st_Session st)"

lemma HasActiveSession_iff: "HasActiveSession g m \<longleftrightarrow> session_of g m \<noteq> None"
  by (simp add: HasActiveSession_def session_of_def status_active_def split: option.split)

lemma session_of_seed [simp]: "session_of h (seedGuildSpeakers S dc g m) = session_of h m"
  by (simp add: session_of_def seedGuildSpeakers_session)

text \<open>The speakers of a seeded guild are those of its status.\<close>

definition registered :: "snowflake \<Rightarrow> 's Service \<Rightarrow> Speaker list" where
  "registered g m = (case statuses m g of None \<Rightarrow> [] | Some st \<Rightarrow> map snd (Speakers st))"

lemma setupSpeakers_active:
  "HasActiveSession g m \<Longrightarrow> setupSpeakers S dc at g mode m = (Inl ErrSessionExists, m)"
  by (simp add: setupSpeakers_def speakersAfterSeeding_def snapshotSpeakers_active)

definition maybe_seeded :: "'s Store \<Rightarrow> discord \<Rightarrow> snowflake \<Rightarrow> 's Service \<Rightarrow> 's Service" where
  "maybe_seeded S dc g m = (if statuses m g = None then seedGuildSpeakers S dc g m else m)"

lemma maybe_seeded_frame [simp]:
  "activeRouters (maybe_seeded S dc g m) = activeRouters m" "sv_store (maybe_seeded S dc g m) = sv_store m"
  "sv_sessions (maybe_seeded S dc g m) = sv_sessions m" "starting (maybe_seeded S dc g m) = starting m"
  "appliers (maybe_seeded S dc g m) = appliers m" "cancelled (maybe_seeded S dc g m) = cancelled m"
  "cleaned (maybe_seeded S dc g m) = cleaned m" "voice_of h (maybe_seeded S dc g m) = voice_of h m"
  "session_of h (maybe_seeded S dc g m) = session_of h m"
  by (simp_all add: maybe_seeded_def)

lemma maybe_seeded_registered:
  "statuses (maybe_seeded S dc g m) g \<noteq> None"
  by (auto simp: maybe_seeded_def seedGuildSpeakers_def Let_def)

lemma speakersAfterSeeding_idle:
  assumes "session_of g m = None"
  shows "speakersAfterSeeding S dc g m = (Inr (registered g (maybe_seeded S dc g m)), maybe_seeded S dc g m)"
proof -
  let ?m = "maybe_seeded S dc g m"
  obtain st where st: "statuses ?m g = Some st" using maybe_seeded_registered [of S dc g m] by auto
  have "session_of g ?m = None" using assms by simp
  then have sn: "snapshotSpeakers g ?m = Inr (registered g ?m)"
    using st by (simp add: snapshotSpeakers_Inr session_of_def registered_def)
  show ?thesis
  proof (cases "statuses m g")
    case None
    then have "snapshotSpeakers g m = Inl ErrNoGuildStatus" by (simp add: snapshotSpeakers_unseeded)
    with sn None show ?thesis by (simp add: speakersAfterSeeding_def maybe_seeded_def Let_def)
  next
    case (Some st')
    with sn show ?thesis by (simp add: speakersAfterSeeding_def maybe_seeded_def)
  qed
qed

text \<open>A candidate is enabled and bound to a channel that exists.\<close>

definition can_join :: "'s Store \<Rightarrow> discord \<Rightarrow> snowflake \<Rightarrow> 's \<Rightarrow> Speaker \<Rightarrow> bool" where
  "can_join S dc g s sp \<longleftrightarrow> Enabled sp \<and> liveBoundChannel S dc g (spk_ID sp) s \<noteq> None"

lemma setupSpeakers_idle:
  assumes idle: "session_of g m = None" and su: "setupSpeakers S dc at g mode m = (r, m')"
  obtains js e where "r = (if js = [] then Inl e else Inr js)"
    "only_voice g (maybe_seeded S dc g m) m'"
    "leaves_work at m \<Longrightarrow> voice_of g m' \<subseteq> voice_of g m \<union> joined_ids js"
    "\<And>sp. sp \<in> fst ` set js \<Longrightarrow> sp \<in> set (registered g (maybe_seeded S dc g m)) \<and> can_join S dc g (sv_store m) sp"
    "\<And>b. distinct (map spk_ID (registered g (maybe_seeded S dc g m))) \<Longrightarrow> b \<in> joined_ids js \<Longrightarrow>
       b \<in> voice_of g m' \<and> (g, b) \<in> appliers m'"
    "\<And>b. b \<notin> spk_ID ` set (registered g (maybe_seeded S dc g m)) \<Longrightarrow> b \<in> voice_of g m' \<longleftrightarrow> b \<in> voice_of g m"
proof (cases "boundSpeakers S g (sv_store m) (registered g (maybe_seeded S dc g m)) = []")
  case True
  then have "r = Inl ErrNoBoundSpeakers" "m' = maybe_seeded S dc g m"
    using su by (auto simp: setupSpeakers_def speakersAfterSeeding_idle [OF idle])
  then show thesis using that [of "[]" ErrNoBoundSpeakers] by simp
next
  case False
  let ?m = "maybe_seeded S dc g m"
  let ?cands = "withLiveChannel S dc g (sv_store m) (boundSpeakers S g (sv_store m) (registered g ?m))"
  obtain js m2 where j: "fold (join_speaker S dc at g (WithCapture mode)) ?cands ([], ?m) = (js, m2)" by fastforce
  have r: "r = (if js = [] then Inl ErrNoSpeakers else Inr js)" and m': "m' = m2"
    using su False j by (auto simp: setupSpeakers_def speakersAfterSeeding_idle [OF idle] joinSpeakers_def Let_def
        split: if_splits)
  have cands: "sp \<in> set (registered g ?m) \<and> can_join S dc g (sv_store m) sp" if "sp \<in> set ?cands" for sp
    using that by (auto simp: withLiveChannel_def boundSpeakers_def can_join_def)
  note eff = join_speakers_effect [OF j, folded m']
  show thesis
  proof (rule that [OF r])
    show "only_voice g ?m m'" using eff by blast
    show "voice_of g m' \<subseteq> voice_of g m \<union> joined_ids js" if "leaves_work at m"
      using that eff by (simp add: leaves_work_def)
    show "sp \<in> set (registered g ?m) \<and> can_join S dc g (sv_store m) sp" if "sp \<in> fst ` set js" for sp
      using that eff cands by auto
    show "b \<in> voice_of g m' \<and> (g, b) \<in> appliers m'"
      if "distinct (map spk_ID (registered g ?m))" "b \<in> joined_ids js" for b
    proof -
      have "distinct (map spk_ID ?cands)"
        using that(1) by (simp add: withLiveChannel_def boundSpeakers_def distinct_map_filter)
      then show ?thesis using that(2) eff by simp
    qed
    show "b \<in> voice_of g m' \<longleftrightarrow> b \<in> voice_of g m" if "b \<notin> spk_ID ` set (registered g ?m)" for b
    proof -
      have "b \<notin> spk_ID ` set ?cands" using that cands by blast
      then show ?thesis using eff by simp
    qed
  qed
qed

section \<open>A start without interference\<close>

lemma session_of_upd [simp]:
  "session_of h (guard_end g m) = session_of h m" "session_of h (m\<lparr>starting := x\<rparr>) = session_of h m"
  "session_of h (m\<lparr>sv_store := s\<rparr>) = session_of h m" "session_of h (m\<lparr>sv_sessions := y\<rparr>) = session_of h m"
  "session_of h (m\<lparr>cancelled := c\<rparr>) = session_of h m"
  "session_of h (on_registry f m) = session_of h m" "session_of h (voice_leave g b m) = session_of h m"
  "session_of h (voice_join g b m) = session_of h m" "session_of h (storeApplier g b m) = session_of h m"
  "session_of h (run_cleanup t g ids m) = session_of h m" "session_of h (clearReconnectState dc g m) = session_of h m"
  "session_of h (clearActiveRouter g m) = session_of h m" "session_of h (setActiveRouter g r m) = session_of h m"
  by (simp_all add: session_of_def)

lemma leave_with_frame [simp]:
  "statuses (leave_with at g b m) = statuses m" "activeRouters (leave_with at g b m) = activeRouters m"
  "sv_store (leave_with at g b m) = sv_store m" "sv_sessions (leave_with at g b m) = sv_sessions m"
  "starting (leave_with at g b m) = starting m" "appliers (leave_with at g b m) = appliers m"
  "cancelled (leave_with at g b m) = cancelled m" "cleaned (leave_with at g b m) = cleaned m"
  "session_of h (leave_with at g b m) = session_of h m"
  by (simp_all add: leave_with_def)

lemma only_voice_session: "only_voice g m m' \<Longrightarrow> session_of h m' = session_of h m"
  by (simp add: session_of_def only_voiceD)

text \<open>The owner's turn, by outcome.\<close>

lemma host_owner_Inr:
  "host_owner S dc at g js m = (Inr c, m') \<longleftrightarrow>
     liveBoundChannel S dc g (ownerBotID dc) (sv_store m) = Some c \<and> at_voice at (ownerBotID dc) = Joins \<and>
     m' = storeApplier g (ownerBotID dc) (voice_join g (ownerBotID dc) m)"
  by (auto simp: host_owner_def Let_def split: option.splits voice_outcome.splits)

lemma host_owner_Inl:
  assumes "host_owner S dc at g js m = (Inl e, m')"
  shows "\<exists>m0. m' = run_cleanup (at_token at) g (joined_ids js) m0 \<and>
    (m0 = m \<or> m0 = voice_leave g (ownerBotID dc) m \<or>
     m0 = voice_join g (ownerBotID dc) m \<and> at_voice at (ownerBotID dc) = ApplyFails)"
  using assms by (auto simp: host_owner_def Let_def split: option.splits voice_outcome.splits)

text \<open>Relay operations of a start keep the identity of the relay session.\<close>

lemma start_relay_op_identity:
  "s_Code (start_relay_op g r x s) = s_Code s" "HostGuildID (start_relay_op g r x s) = HostGuildID s"
  "HostMode (start_relay_op g r x s) = HostMode s" "s_done (start_relay_op g r x s) = s_done s"
  by (cases x; simp add: AddGuild_def WatchRelayMembership_def SetRouteObserver_def SetCapturing_def Let_def)+

lemma start_relay_ops_identity:
  "s_Code (fold (start_relay_op g r) ops s) = s_Code s" "HostGuildID (fold (start_relay_op g r) ops s) = HostGuildID s"
  "HostMode (fold (start_relay_op g r) ops s) = HostMode s" "s_done (fold (start_relay_op g r) ops s) = s_done s"
  by (induction ops arbitrary: s) (simp_all add: start_relay_op_identity)

lemma run_start_frame [simp]:
  "statuses (run_start g r i ops m) = statuses m" "activeRouters (run_start g r i ops m) = activeRouters m"
  "sv_store (run_start g r i ops m) = sv_store m" "starting (run_start g r i ops m) = starting m"
  "appliers (run_start g r i ops m) = appliers m" "cancelled (run_start g r i ops m) = cancelled m"
  "cleaned (run_start g r i ops m) = cleaned m" "voice_of h (run_start g r i ops m) = voice_of h m"
  "session_of h (run_start g r i ops m) = session_of h m"
  "byGuild (sv_sessions (run_start g r i ops m)) = byGuild (sv_sessions m)"
  "sessions (sv_sessions (run_start g r i ops m)) = sessions (sv_sessions m)"
  by (simp_all add: run_start_def) (simp_all add: on_registry_def on_session_def)

lemma run_start_heap:
  "session_heap (sv_sessions (run_start g r i ops m)) =
     (session_heap (sv_sessions m))(i := fold (start_relay_op g r) ops (session_heap (sv_sessions m) i))"
  by (simp add: run_start_def on_registry_def on_session_def)

lemma commitSession_Inr:
  "commitSession g se m = Inr m' \<longleftrightarrow>
     statuses m g \<noteq> None \<and> session_of g m = None \<and>
     m' = (let m1 = upd_status g (\<lambda>st. st\<lparr>st_Session := Some se\<rparr>) m
           in if gs_AutoRouter se = None then m1 else setActiveRouter g (gs_AutoRouter se) m1)"
  by (auto simp: commitSession_def status_active_def session_of_def upd_status_def Let_def split: option.splits)

lemma session_of_upd_status:
  "session_of h (upd_status g f m) =
     (if h = g then (case statuses m g of None \<Rightarrow> None | Some st \<Rightarrow> st_Session (f st)) else session_of h m)"
  by (auto simp: upd_status_def session_of_def split: option.split)

lemma Create_frame:
  "Create code host mode am = (am', i) \<Longrightarrow>
     i = next_session am \<and> sessions am' = (sessions am)(code \<mapsto> i) \<and> byGuild am' = (byGuild am)(host \<mapsto> i) \<and>
     session_heap am' = (session_heap am)(i := newSession code host mode)"
  by (auto simp: Create_def Let_def)

text \<open>Ending a session nobody has joined takes exactly its two entries away.\<close>

lemma RemoveHost_fresh:
  assumes "Create code host mode am = (am', i)" and "byGuild am host = None" and "sessions am code = None"
  shows "sessions (RemoveHost host am') = sessions am" "byGuild (RemoveHost host am') = byGuild am"
  using Create_frame [OF assms(1)] assms(2,3)
  by (auto simp: RemoveHost_def close_session_def newSession_def GuestGuildIDs_def Let_def fun_eq_iff)

lemma Host_Build_router:
  "Host_Build h nm p = Inr b \<Longrightarrow> bu_router b \<noteq> None \<and> \<not> bu_IsGuest b"
  by (cases h) (auto simp: Host_Build_def OneCaller_Build_def GuildCaller_Build_def StarCaller_Build_def Let_def
      split: option.splits)

text \<open>Building and committing, by outcome.\<close>

lemma host_commit_cases:
  assumes "host_commit S dc at g mode c js m = Some (r, m')"
  obtains s' code am i where "s_GetOrCreateAllyCode S (at_draws at) g (sv_store m) = Some (s', code)"
      "Create code g mode (sv_sessions m) = (am, i)"
      "\<exists>e. r = Inl e \<and> m' = host_errCleanup dc at g js (m\<lparr>sv_store := s', sv_sessions := am\<rparr>)"
  | s' code am i b m2 where "s_GetOrCreateAllyCode S (at_draws at) g (sv_store m) = Some (s', code)"
      "Create code g mode (sv_sessions m) = (am, i)" "r = Inr code"
      "Host_Build (HostFor mode) (at_mixer at) (host_params dc at g mode c js) = Inr b" "at_token at \<notin> cancelled m"
      "commitSession g (built_session (at_token at) code i js b) (m\<lparr>sv_store := s', sv_sessions := am\<rparr>) = Inr m2"
      "m' = run_start g (at_relay at) i (bu_start b) m2"
proof -
  obtain s' code where gc: "s_GetOrCreateAllyCode S (at_draws at) g (sv_store m) = Some (s', code)"
    using assms by (auto simp: host_commit_def split: option.splits)
  obtain am i where cr: "Create code g mode (sv_sessions m) = (am, i)" by fastforce
  show thesis
    using assms that(1) [OF gc cr] that(2) [OF gc cr]
    by (auto simp: host_commit_def gc cr Let_def split: sum.splits if_splits)
qed

lemma StartVoiceRaid_cases:
  assumes "StartVoiceRaid S dc at g mode m = Some (r, m')"
  obtains "starting m g \<noteq> None" "r = Inl ErrSessionExists" "m' = m"
  | e m2 where "starting m g = None" "r = Inl e" "m' = guard_end g m2"
      "host_setup S dc at g mode (m\<lparr>starting := (starting m)(g \<mapsto> at_token at)\<rparr>) = (Inl e, m2)"
  | js m2 e m3 where "starting m g = None" "r = Inl e" "m' = guard_end g m3"
      "host_setup S dc at g mode (m\<lparr>starting := (starting m)(g \<mapsto> at_token at)\<rparr>) = (Inr js, m2)"
      "host_owner S dc at g js m2 = (Inl e, m3)"
  | js m2 c m3 m4 where "starting m g = None" "m' = guard_end g m4"
      "host_setup S dc at g mode (m\<lparr>starting := (starting m)(g \<mapsto> at_token at)\<rparr>) = (Inr js, m2)"
      "host_owner S dc at g js m2 = (Inr c, m3)"
      "host_commit S dc at g mode c js m3 = Some (r, m4)"
proof (cases "starting m g = None")
  case False
  then have "(r, m') = (Inl ErrSessionExists, m)" using assms by (simp add: StartVoiceRaid_def tryBegin_def)
  with False show thesis by (intro that(1)) auto
next
  case True
  let ?m1 = "m\<lparr>starting := (starting m)(g \<mapsto> at_token at)\<rparr>"
  obtain r1 m2 where su: "host_setup S dc at g mode ?m1 = (r1, m2)" by fastforce
  note s1 = assms [unfolded StartVoiceRaid_def tryBegin_def]
  show thesis
  proof (cases r1)
    case (Inl e)
    then have "(r, m') = (Inl e, guard_end g m2)" using s1 True su by simp
    then show thesis by (intro that(2) [OF True _ _ su [unfolded Inl]]) auto
  next
    case (Inr js)
    obtain r2 m3 where ow: "host_owner S dc at g js m2 = (r2, m3)" by fastforce
    note su' = su [unfolded Inr]
    show thesis
    proof (cases r2)
      case (Inl e)
      then have "(r, m') = (Inl e, guard_end g m3)" using s1 True su Inr ow by simp
      then show thesis using ow [unfolded Inl] by (intro that(3) [OF True _ _ su']) auto
    next
      case c: (Inr c)
      then obtain m4 where "host_commit S dc at g mode c js m3 = Some (r, m4)" "m' = guard_end g m4"
        using s1 True su Inr ow by auto
      then show thesis using that(4) [OF True _ su' ow [unfolded c]] by blast
    qed
  qed
qed

text \<open>The first phase, for a guild without a session.\<close>

lemma host_setup_idle:
  assumes idle: "session_of g m = None" and su: "host_setup S dc at g mode m = (r, m')" and lw: "leaves_work at m"
  obtains "m' = m" "\<exists>e. r = Inl e"
  | js e where "r = (if js = [] then Inl e else Inr js)" "only_voice g (maybe_seeded S dc g m) m'"
    "voice_of g m' \<subseteq> voice_of g m \<union> joined_ids js"
    "\<And>sp. sp \<in> fst ` set js \<Longrightarrow> sp \<in> set (registered g (maybe_seeded S dc g m)) \<and> can_join S dc g (sv_store m) sp"
    "\<And>b. distinct (map spk_ID (registered g (maybe_seeded S dc g m))) \<Longrightarrow> b \<in> joined_ids js \<Longrightarrow>
       b \<in> voice_of g m' \<and> (g, b) \<in> appliers m'"
proof (cases "at_noDeafen at \<or> \<not> hasBoundCallerRole S g (sv_store m) \<or>
    liveBoundChannel S dc g (ownerBotID dc) (sv_store m) = None")
  case True
  then show thesis using su that(1) by (auto simp: host_setup_def split: if_splits)
next
  case False
  then have "setupSpeakers S dc at g mode m = (r, m')" using su by (auto simp: host_setup_def)
  then show thesis by (rule setupSpeakers_idle [OF idle]) (rule that(2), assumption+, simp add: lw, assumption+)
qed

lemma host_setup_active:
  "session_of g m \<noteq> None \<Longrightarrow> \<exists>e. host_setup S dc at g mode m = (Inl e, m)"
  by (auto simp: host_setup_def setupSpeakers_active HasActiveSession_iff)

text \<open>
  A committed raid of the host guild \<open>g\<close>: everything that describes it agrees.
\<close>

definition raid_up :: "discord \<Rightarrow> snowflake \<Rightarrow> guild_session \<Rightarrow> 's Service \<Rightarrow> bool" where
  "raid_up dc g se m \<longleftrightarrow>
     session_of g m = Some se \<and> \<not> gs_IsGuest se \<and> gs_token se \<notin> cleaned m \<and>
     voice_of g m = insert (ownerBotID dc) (session_ids se) \<and>
     (\<forall>b \<in> voice_of g m. (g, b) \<in> appliers m) \<and>
     AutoRoute g m = gs_AutoRouter se \<and> gs_AutoRouter se \<noteq> None \<and>
     sessions (sv_sessions m) (gs_AllyCode se) = Some (gs_ally se) \<and>
     GetByGuild g (sv_sessions m) = Some (gs_ally se) \<and>
     s_Code (session_heap (sv_sessions m) (gs_ally se)) = gs_AllyCode se \<and>
     HostGuildID (session_heap (sv_sessions m) (gs_ally se)) = g \<and>
     \<not> s_done (session_heap (sv_sessions m) (gs_ally se))"

lemma built_session_simps [simp]:
  "gs_token (built_session t code i js b) = t" "gs_Speakers (built_session t code i js b) = map fst js"
  "gs_AllyCode (built_session t code i js b) = code" "gs_IsGuest (built_session t code i js b) = bu_IsGuest b"
  "gs_AutoRouter (built_session t code i js b) = (if bu_router b = None then None else Some t)"
  "gs_ally (built_session t code i js b) = i"
  by (simp_all add: built_session_def)

lemma session_ids_built [simp]:
  "session_ids (built_session t code i js b) = joined_ids js"
  by (simp add: session_ids_def built_session_def joined_ids_def)

lemma start_brings_raid_up:
  assumes "StartVoiceRaid S dc at g mode m = Some (Inr code, m')"
    and "leaves_work at m" and "at_token at \<notin> cleaned m" and "voice_of g m = {}"
    and "distinct (map spk_ID (registered g (maybe_seeded S dc g m)))"
  shows "\<exists>se. raid_up dc g se m' \<and> gs_token se = at_token at \<and> gs_AllyCode se = code \<and>
    gs_Speakers se \<noteq> [] \<and>
    (\<forall>sp \<in> set (gs_Speakers se). sp \<in> set (registered g (maybe_seeded S dc g m)) \<and> can_join S dc g (sv_store m) sp) \<and>
    HostMode (session_heap (sv_sessions m') (gs_ally se)) = mode \<and>
    starting m' g = None \<and> at_token at \<notin> cancelled m'"
proof -
  let ?m1 = "m\<lparr>starting := (starting m)(g \<mapsto> at_token at)\<rparr>"
  have seed1: "statuses (maybe_seeded S dc g ?m1) = statuses (maybe_seeded S dc g m)"
    by (simp add: maybe_seeded_def seedGuildSpeakers_def Let_def)
  from assms(1) show ?thesis
  proof (cases rule: StartVoiceRaid_cases)
    case (4 js m2 c m3 m4)
    have idle: "session_of g ?m1 = None"
      using 4(3) host_setup_active [of g ?m1 S dc at mode] by (cases "session_of g ?m1") auto
    have lw: "leaves_work at ?m1" using assms(2) by (simp add: leaves_work_def)
    from idle 4(3) lw show ?thesis
    proof (cases rule: host_setup_idle)
      case 1
      then show ?thesis by simp
    next
      case (2 js' e)
      have js: "js' = js" "js \<noteq> []" using 2(1) by (auto split: if_splits)
      note m2 = only_voiceD [OF 2(2)]
      have m3: "m3 = storeApplier g (ownerBotID dc) (voice_join g (ownerBotID dc) m2)"
        using 4(4) by (simp add: host_owner_Inr)
      have v2: "voice_of g m2 = joined_ids js" and ap2: "\<And>b. b \<in> joined_ids js \<Longrightarrow> (g, b) \<in> appliers m2"
        using 2(3) 2(5) assms(4,5) js seed1 by (auto simp: registered_def)
      from 4(5) show ?thesis
      proof (cases rule: host_commit_cases)
        case 1
        then show ?thesis by auto
      next
        case (2 s' code' am i b m5)
        let ?se = "built_session (at_token at) code i js b"
        have code: "code' = code" using 2(3) by simp
        note cr = Create_frame [OF 2(2)]
        have router: "gs_AutoRouter ?se = Some (at_token at)" and guest: "\<not> gs_IsGuest ?se"
          using Host_Build_router [OF 2(4)] by simp_all
        have m5: "m5 = setActiveRouter g (Some (at_token at))
            (upd_status g (\<lambda>st. st\<lparr>st_Session := Some ?se\<rparr>) (m3\<lparr>sv_store := s', sv_sessions := am\<rparr>))"
          using 2(6) router by (simp add: commitSession_Inr Let_def code)
        have st: "statuses m3 g \<noteq> None" using 2(6) by (simp add: commitSession_Inr)
        have m': "m' = guard_end g (run_start g (at_relay at) i (bu_start b) m5)"
          using 4(2) 2(7) by simp
        have se: "session_of g m' = Some ?se"
          using st by (auto simp: m' m5 session_of_upd_status)
        have v: "voice_of g m' = insert (ownerBotID dc) (joined_ids js)"
          using v2 by (simp add: m' m5 m3)
        have ap: "\<forall>x \<in> voice_of g m'. (g, x) \<in> appliers m'"
          unfolding v using ap2 by (auto simp: m' m5 m3 storeApplier_def)
        have heap: "session_heap (sv_sessions m') i = fold (start_relay_op g (at_relay at)) (bu_start b) (newSession code g mode)"
          using cr by (simp add: m' m5 run_start_heap code)
        have obj: "s_Code (session_heap (sv_sessions m') i) = code" "HostGuildID (session_heap (sv_sessions m') i) = g"
          "\<not> s_done (session_heap (sv_sessions m') i)"
          unfolding heap by (simp_all add: start_relay_ops_identity newSession_def)
        have reg: "sessions (sv_sessions m') code = Some i" "byGuild (sv_sessions m') g = Some i"
          using cr by (simp_all add: m' m5 code)
        have rest: "activeRouters m' g = Some (at_token at)" "at_token at \<notin> cleaned m'"
          using assms(3) m2(7) by (simp_all add: m' m5 m3 setActiveRouter_def)
        have "raid_up dc g ?se m'"
          unfolding raid_up_def AutoRoute_def GetByGuild_def using se guest router v ap obj reg rest by simp
        moreover have "at_token at \<notin> cancelled m'" using 2(5) by (simp add: m' m5)
        moreover have "starting m' g = None" by (simp add: m' guard_end_def)
        moreover have "HostMode (session_heap (sv_sessions m') (gs_ally ?se)) = mode"
          using heap by (simp add: start_relay_ops_identity newSession_def)
        moreover have "\<forall>sp \<in> set (gs_Speakers ?se). sp \<in> set (registered g (maybe_seeded S dc g m)) \<and>
            can_join S dc g (sv_store m) sp"
          using \<open>\<And>sp. sp \<in> fst ` set js' \<Longrightarrow> _\<close> js seed1 by (simp add: registered_def)
        ultimately show ?thesis using js by (intro exI [of _ ?se]) simp
      qed
    qed
  qed simp_all
qed

text \<open>
  C7. A start that returns a code has committed a raid whose parts agree: the session's speakers are
  registered, enabled and bound to an existing channel, exactly they and the owner bot are in voice, each
  can be reconnected, the router is published, and the relay code leads to a live relay session of the
  requested mode hosted by the guild.  The guard is free again, and the start was not cancelled.
\<close>

theorem StartVoiceRaid_commits:
  assumes "StartVoiceRaid S dc at g mode m = Some (Inr code, m')"
    and "leaves_work at m" and "at_token at \<notin> cleaned m" and "voice_of g m = {}"
    and "distinct (map spk_ID (registered g (maybe_seeded S dc g m)))"
  shows "\<exists>se. raid_up dc g se m' \<and> gs_token se = at_token at \<and> gs_AllyCode se = code \<and>
    gs_Speakers se \<noteq> [] \<and>
    (\<forall>sp \<in> set (gs_Speakers se). sp \<in> set (registered g (maybe_seeded S dc g m)) \<and> can_join S dc g (sv_store m) sp) \<and>
    HostMode (session_heap (sv_sessions m') (gs_ally se)) = mode \<and>
    starting m' g = None \<and> at_token at \<notin> cancelled m'"
  using assms by (rule start_brings_raid_up)

lemma session_of_forget_none [simp]:
  "session_of g (upd_status g (\<lambda>st. st\<lparr>st_Session := None\<rparr>) m) = None"
  by (simp add: session_of_upd_status split: option.split)

lemma stop_take_active:
  assumes "session_of g m = Some se" and "want = None \<or> want = Some (gs_token se)"
  shows "stop_take g want m = (Taken se, clearActiveRouter g (upd_status g (\<lambda>st. st\<lparr>st_Session := None\<rparr>) m))"
  using assms by (auto simp: stop_take_def session_of_def)

lemma RemoveHost_effect:
  assumes "byGuild am g = Some i"
  shows "byGuild (RemoveHost g am) g = None" "sessions (RemoveHost g am) (s_Code (session_heap am i)) = None"
    "s_done (session_heap (RemoveHost g am) i)"
proof -
  have byg: "byGuild (fold (\<lambda>g m. m\<lparr>byGuild := (byGuild m)(g := None)\<rparr>) gs m) g = None" if "byGuild m g = None" for gs m
    using that by (induction gs arbitrary: m) auto
  have rest: "sessions (fold (\<lambda>g m. m\<lparr>byGuild := (byGuild m)(g := None)\<rparr>) gs m) = sessions m"
    "session_heap (fold (\<lambda>g m. m\<lparr>byGuild := (byGuild m)(g := None)\<rparr>) gs m) = session_heap m" for gs m
    by (induction gs arbitrary: m) auto
  show "byGuild (RemoveHost g am) g = None" "sessions (RemoveHost g am) (s_Code (session_heap am i)) = None"
    "s_done (session_heap (RemoveHost g am) i)"
    using assms by (auto simp: RemoveHost_def Let_def rest close_session_def intro!: byg)
qed

text \<open>
  C5. A stop undoes a committed raid completely: no session, no router, nobody of the guild in voice, the
  relay code no longer leads anywhere and the relay session is closed, nothing is left to
  reconnect, and the raid's context is cancelled; other guilds keep their raids, bots and routers.
\<close>

theorem StopVoiceRaid_undoes:
  assumes "raid_up dc g se m" and "StopVoiceRaid dc g None m = (err, m')"
  shows "err = None \<and> session_of g m' = None \<and> AutoRoute g m' = None \<and> voice_of g m' = {} \<and>
    GetByGuild g (sv_sessions m') = None \<and> sessions (sv_sessions m') (gs_AllyCode se) = None \<and>
    s_done (session_heap (sv_sessions m') (gs_ally se)) \<and>
    (\<forall>b \<in> set (all_bots dc). (g, b) \<notin> appliers m') \<and> gs_token se \<in> cancelled m' \<and>
    (h \<noteq> g \<longrightarrow> session_of h m' = session_of h m \<and> AutoRoute h m' = AutoRoute h m \<and> voice_of h m' = voice_of h m)"
proof -
  let ?m1 = "clearActiveRouter g (upd_status g (\<lambda>st. st\<lparr>st_Session := None\<rparr>) m)"
  let ?m2 = "?m1\<lparr>cancelled := insert (gs_token se) (cancelled ?m1)\<rparr>"
  let ?m3 = "session_cleanup g se ?m2"
  have up: "session_of g m = Some se" "\<not> gs_IsGuest se" "gs_token se \<notin> cleaned m"
    "voice_of g m = insert (ownerBotID dc) (session_ids se)" "byGuild (sv_sessions m) g = Some (gs_ally se)"
    "s_Code (session_heap (sv_sessions m) (gs_ally se)) = gs_AllyCode se"
    using assms(1) by (auto simp: raid_up_def GetByGuild_def)
  have m': "err = None" "m' = stop_finish dc g se ?m1"
    using assms(2) by (simp_all add: StopVoiceRaid_def stop_take_active [OF up(1)])
  have m'': "m' = clearReconnectState dc g (on_registry (RemoveHost g) (voice_leave g (ownerBotID dc) ?m3))"
    using up(2) by (simp add: m'(2) stop_finish_def)
  have reg3: "byGuild (sv_sessions ?m3) g = Some (gs_ally se)"
    "s_Code (session_heap (sv_sessions ?m3) (gs_ally se)) = gs_AllyCode se"
    using up(5,6) by (simp_all add: session_cleanup_def on_registry_def on_session_def RemoveGuild_def Let_def)
  have am: "sv_sessions m' = RemoveHost g (sv_sessions ?m3)" by (simp add: m'' on_registry_def)
  have v: "voice_of h m' = (if h = g then {} else voice_of h m)" for h
    using up(3,4) by (auto simp: m'' session_cleanup_def)
  have s: "session_of h m' = (if h = g then None else session_of h m)" for h
    by (auto simp: m'' session_cleanup_def session_of_upd_status split: option.split)
  have r: "activeRouters m' h = (if h = g then None else activeRouters m h)" for h
    by (simp add: m'' session_cleanup_def clearActiveRouter_def)
  have c: "gs_token se \<in> cancelled m'" by (simp add: m'' session_cleanup_def)
  have a: "\<forall>b \<in> set (all_bots dc). (g, b) \<notin> appliers m'" by (simp add: m'' clearReconnectState_def)
  show ?thesis
    using RemoveHost_effect [OF reg3(1)] reg3(2) m'(1) v s r c a by (simp add: am AutoRoute_def GetByGuild_def)
qed

text \<open>A start that fails early has changed nothing; one that fails later has touched the voice of its guild only.\<close>

lemma host_setup_either:
  assumes "host_setup S dc at g mode m = (r, m')" and "leaves_work at m" and "session_of g m = None \<longrightarrow> voice_of g m = {}"
  obtains e where "r = Inl e" "m' = m"
  | js where "js = [] \<Longrightarrow> \<exists>e. r = Inl e" "js \<noteq> [] \<Longrightarrow> r = Inr js" "session_of g m = None"
    "only_voice g (maybe_seeded S dc g m) m'" "voice_of g m' \<subseteq> joined_ids js"
proof (cases "session_of g m")
  case (Some se)
  then show thesis using that(1) assms(1) host_setup_active [of g m S dc at mode] by auto
next
  case None
  show thesis
    by (cases rule: host_setup_idle [OF None assms(1,2)])
      (use that assms(3) None in \<open>auto split: if_splits\<close>)
qed

lemma host_setup_joined:
  assumes "host_setup S dc at g mode m = (Inr js, m')" and "leaves_work at m" and "session_of g m = None \<longrightarrow> voice_of g m = {}"
  shows "session_of g m = None" "only_voice g (maybe_seeded S dc g m) m'" "voice_of g m' \<subseteq> joined_ids js"
  by (cases rule: host_setup_either [OF assms]; force)+

definition as_before :: "snowflake \<Rightarrow> 's Service \<Rightarrow> 's Service \<Rightarrow> bool" where
  "as_before h m m' \<longleftrightarrow> voice_of h m' = voice_of h m \<and> session_of h m' = session_of h m \<and> activeRouters m' = activeRouters m \<and>
     byGuild (sv_sessions m') = byGuild (sv_sessions m) \<and> sessions (sv_sessions m') = sessions (sv_sessions m) \<and>
     starting m' = starting m"

lemma as_before_end:
  "starting m g = None \<Longrightarrow> as_before h (m\<lparr>starting := (starting m)(g \<mapsto> t)\<rparr>) m' \<Longrightarrow> as_before h m (guard_end g m')"
  by (auto simp: as_before_def guard_end_def)

lemma joined_bots_leave:
  assumes "only_voice g (maybe_seeded S dc g m) m2" and "voice_of g m2 \<subseteq> joined_ids js"
    and "voice_of g m = {}" and "t \<notin> cleaned m" and "m0 = m2 \<or> m0 = voice_leave g b m2"
  shows "as_before h m (run_cleanup t g (joined_ids js) m0)"
proof -
  note m2 = only_voiceD [OF assms(1)]
  have "voice_of h (run_cleanup t g (joined_ids js) m0) = voice_of h m"
    using assms m2 by (cases "h = g") auto
  moreover have "session_of h (run_cleanup t g (joined_ids js) m0) = session_of h m"
    using assms(5) only_voice_session [OF assms(1), of h] by auto
  ultimately show ?thesis using assms(5) m2 by (auto simp: as_before_def)
qed

lemma failed_commit_undone:
  assumes "host_commit S dc at g mode c js m3 = Some (Inl e, m4)"
    and "m3 = storeApplier g (ownerBotID dc) (voice_join g (ownerBotID dc) m2)"
    and "only_voice g (maybe_seeded S dc g m) m2" and "voice_of g m2 \<subseteq> joined_ids js" and "voice_of g m = {}"
    and "at_token at \<notin> cleaned m" and "leaves_work at m" and "GetByGuild g (sv_sessions m) = None"
    and "\<forall>s' code. s_GetOrCreateAllyCode S (at_draws at) g (sv_store m) = Some (s', code) \<longrightarrow> sessions (sv_sessions m) code = None"
  shows "as_before h m m4"
  using assms(1)
proof (cases rule: host_commit_cases)
  case (1 s' code am i)
  note m2 = only_voiceD [OF assms(3)]
  let ?m = "run_cleanup (at_token at) g (joined_ids js) (m3\<lparr>sv_store := s', sv_sessions := am\<rparr>)"
  have "leaves_work at ?m" using assms(2,7) m2 by (simp add: leaves_work_def)
  then have m4: "m4 = on_registry (RemoveHost g) (voice_leave g (ownerBotID dc) ?m)"
    using 1(3) by (simp add: host_errCleanup_def voice_of_leave_with)
  have reg: "sessions (RemoveHost g am) = sessions (sv_sessions m)" "byGuild (RemoveHost g am) = byGuild (sv_sessions m)"
    using RemoveHost_fresh [OF 1(2)] 1(1) assms(8,9) m2 by (auto simp: assms(2) GetByGuild_def)
  have "voice_of h m4 = voice_of h m"
    using m4 assms(2,4-6) m2 by (cases "h = g") auto
  moreover have "session_of h m4 = session_of h m"
    using m4 assms(2) only_voice_session [OF assms(3), of h] by simp
  ultimately show ?thesis using m4 assms(2) m2 reg by (auto simp: as_before_def on_registry_def)
qed simp



definition raid_store :: InMemoryStore where
  "raid_store = \<lparr>channels = [(bot_key 30 9, 20), (bot_key 31 9, 21), (bot_key 32 9, 22)],
     roles = [(role_key 9 RoleTypeCaller, 7)], relayCodes = [(9, ''ABCD2345'')], locales = [], disabled = []\<rparr>"

definition raid_ready :: "InMemoryStore Service" where
  "raid_ready = seedGuildSpeakers memory_store small_world 9 (new_service raid_store (\<lambda>_. newSession [] 0 []))"

definition good_attempt :: "nat \<Rightarrow> attempt" where
  "good_attempt t = \<lparr>at_token = t, at_noDeafen = False, at_voice = (\<lambda>_. Joins), at_dead_leave = (\<lambda>_. False),
     at_chan = (\<lambda>b. unat b), at_handle = (\<lambda>b. unat b + 100), at_undeafen = (\<lambda>_. False), at_relay = 200,
     at_mixer = (\<lambda>_. None), at_draws = (\<lambda>_. [])\<rparr>"

definition outcome :: "((string + Code) \<times> 's Service) option \<Rightarrow> (string + Code) option" where
  "outcome r = map_option fst r"

lemma good_start: "outcome (StartVoiceRaid memory_store small_world (good_attempt 1) 9 RaidModeOneCaller raid_ready) = Some (Inr ''ABCD2345'')"
  by code_simp

lemma raid_ready_facts:
  "leaves_work (good_attempt 1) raid_ready" "at_token (good_attempt 1) \<notin> cleaned raid_ready" "voice_of 9 raid_ready = {}"
  "session_of 9 raid_ready = None" "sv_sessions raid_ready = NewManager (\<lambda>_. newSession [] 0 [])"
  "maybe_seeded memory_store small_world 9 raid_ready = raid_ready"
  by (simp_all add: raid_ready_def leaves_work_def good_attempt_def)
    (simp_all add: new_service_def voice_of_def session_of_def maybe_seeded_def seedGuildSpeakers_def Let_def)

lemma raid_ready_speakers: "map spk_ID (registered 9 raid_ready) = [31, 32]"
  by code_simp

lemma StartVoiceRaid_commits_witness:
  "\<exists>m' se. StartVoiceRaid memory_store small_world (good_attempt 1) 9 RaidModeOneCaller raid_ready =
      Some (Inr ''ABCD2345'', m') \<and> raid_up small_world 9 se m' \<and> gs_Speakers se \<noteq> []"
proof -
  obtain m' where m': "StartVoiceRaid memory_store small_world (good_attempt 1) 9 RaidModeOneCaller raid_ready =
      Some (Inr ''ABCD2345'', m')" using good_start by (auto simp: outcome_def)
  from StartVoiceRaid_commits [OF m' raid_ready_facts(1,2,3)] raid_ready_speakers m' show ?thesis
    by (auto simp: raid_ready_facts(6))
qed

lemma StopVoiceRaid_undoes_witness:
  "\<exists>m1 m2. StartVoiceRaid memory_store small_world (good_attempt 1) 9 RaidModeOneCaller raid_ready =
      Some (Inr ''ABCD2345'', m1) \<and> StopVoiceRaid small_world 9 None m1 = (None, m2) \<and>
      voice_of 9 m1 \<noteq> {} \<and> voice_of 9 m2 = {}"
proof -
  obtain m1 where m1: "StartVoiceRaid memory_store small_world (good_attempt 1) 9 RaidModeOneCaller raid_ready =
      Some (Inr ''ABCD2345'', m1)" using good_start by (auto simp: outcome_def)
  from start_brings_raid_up [OF m1 raid_ready_facts(1,2,3)] raid_ready_speakers
  obtain se where up: "raid_up small_world 9 se m1" by (auto simp: raid_ready_facts(6))
  obtain err m2 where m2: "StopVoiceRaid small_world 9 None m1 = (err, m2)" by fastforce
  from StopVoiceRaid_undoes [OF up m2] up m1 m2 show ?thesis by (auto simp: raid_up_def)
qed

definition mixer_failure :: attempt where
  "mixer_failure = (good_attempt 1)\<lparr>at_mixer := (\<lambda>_. Some ''opus'')\<rparr>"


text \<open>
  A start whose owner bot joined but could not be set up fails and leaves the owner bot in the
  voice channel, with no session that would ever make it leave.
\<close>

theorem owner_setup_failure_strands_owner:
  assumes "starting m g = None" and "at_voice at (ownerBotID dc) = ApplyFails"
    and "host_setup S dc at g mode (m\<lparr>starting := (starting m)(g \<mapsto> at_token at)\<rparr>) = (Inr js, m2)"
    and "liveBoundChannel S dc g (ownerBotID dc) (sv_store m2) \<noteq> None" and "ownerBotID dc \<notin> joined_ids js"
  shows "\<exists>e m'. StartVoiceRaid S dc at g mode m = Some (Inl e, m') \<and> ownerBotID dc \<in> voice_of g m' \<and>
    session_of g m' = session_of g m2 \<and> starting m' g = None"
proof -
  have "host_owner S dc at g js m2 = (Inl ''start raid: setup owner capture'',
      run_cleanup (at_token at) g (joined_ids js) (voice_join g (ownerBotID dc) m2))"
    using assms(2,4) by (auto simp: host_owner_def Let_def)
  then show ?thesis using assms(1,3,5) by (simp add: StartVoiceRaid_def tryBegin_def guard_end_def)
qed

definition apply_failure :: attempt where
  "apply_failure = (good_attempt 1)\<lparr>at_voice := (\<lambda>b. if b = 30 then ApplyFails else Joins)\<rparr>"

lemma owner_setup_failure_strands_owner_witness:
  "\<exists>e m'. StartVoiceRaid memory_store small_world apply_failure 9 RaidModeOneCaller raid_ready = Some (Inl e, m') \<and>
     30 \<in> voice_of 9 m' \<and> starting m' 9 = None"
proof -
  let ?r = "host_setup memory_store small_world apply_failure 9 RaidModeOneCaller
      (raid_ready\<lparr>starting := (starting raid_ready)(9 \<mapsto> at_token apply_failure)\<rparr>)"
  have ids: "(case fst ?r of Inl e \<Rightarrow> None | Inr js \<Rightarrow> Some (map (spk_ID \<circ> fst) js)) = Some [31, 32]"
    and ch: "liveBoundChannel memory_store small_world 9 (ownerBotID small_world) (sv_store (snd ?r)) = Some 20"
    and idle: "starting raid_ready 9 = None"
    by code_simp+
  obtain js m2 where r: "?r = (Inr js, m2)" "map (spk_ID \<circ> fst) js = [31, 32]"
    using ids by (cases ?r) (auto split: sum.splits)
  have "set (map (spk_ID \<circ> fst) js) = {31, 32}" unfolding r(2) by simp
  then have "joined_ids js = {31, 32}" by (simp add: joined_ids_def image_comp)
  then have "ownerBotID small_world \<notin> joined_ids js" by (simp add: small_world_def)
  moreover have "at_voice apply_failure (ownerBotID small_world) = ApplyFails"
    by (simp add: apply_failure_def small_world_def)
  ultimately show ?thesis
    using owner_setup_failure_strands_owner [OF idle _ r(1)] ch r(1) by (auto simp: small_world_def)
qed

text \<open>
  A start whose context is cancelled before it commits never commits, and everything it had
  joined leaves again, except that the leave of the owner bot is sent with the cancelled context: if disgo drops it,
  the owner bot stays in voice.
\<close>

theorem cancelled_start_never_commits:
  assumes "host_commit S dc at g mode c js m = Some (r, m')" and "at_token at \<in> cancelled m"
    and "at_token at \<notin> cleaned m" and "ownerBotID dc \<in> voice_of g m" and "ownerBotID dc \<notin> joined_ids js"
  shows "(\<exists>e. r = Inl e) \<and> session_of g m' = session_of g m \<and> activeRouters m' = activeRouters m \<and>
    voice_of g m' = voice_of g m - joined_ids js - (if at_dead_leave at (ownerBotID dc) then {ownerBotID dc} else {})"
  using assms(1)
proof (cases rule: host_commit_cases)
  case (1 s' code am i)
  then show ?thesis using assms(2-5) by (auto simp: host_errCleanup_def leave_with_def)
next
  case 2
  then show ?thesis using assms(2) by simp
qed


lemma cancelled_start_never_commits_witness:
  "\<exists>e m'. host_commit memory_store small_world (good_attempt 1) 9 RaidModeOneCaller 20 []
      ((voice_join 9 30 raid_ready)\<lparr>cancelled := {1}\<rparr>) = Some (Inl e, m') \<and> voice_of 9 m' = {30}"
proof -
  let ?m = "(voice_join 9 30 raid_ready)\<lparr>cancelled := {1}\<rparr>"
  have "outcome (host_commit memory_store small_world (good_attempt 1) 9 RaidModeOneCaller 20 [] ?m) =
      Some (Inl ''context canceled'')"
    by code_simp
  then obtain m' where m': "host_commit memory_store small_world (good_attempt 1) 9 RaidModeOneCaller 20 [] ?m =
      Some (Inl ''context canceled'', m')" by (auto simp: outcome_def)
  have "voice_of 9 ?m = {30}" using raid_ready_facts(3) by simp
  moreover have "ownerBotID small_world = 30" "\<not> at_dead_leave (good_attempt 1) 30" "at_token (good_attempt 1) = 1"
    by (simp_all add: small_world_def good_attempt_def)
  moreover have "at_token (good_attempt 1) \<notin> cleaned ?m" using raid_ready_facts(2) by simp
  ultimately show ?thesis using cancelled_start_never_commits [OF m'] m' by simp
qed

end
