(* ===== verification/RaidRun.thy ===== *)
theory RaidRun
  imports Raid
begin

text \<open>
  Raids under concurrency.  Starts, stops, the goroutines of guest sessions, forgotten guilds and
  speaker commands of all guilds interleave at the granularity of \<open>Raid\<close>: \<open>raid_step\<close> is
  one phase of one of them.  A start is a task identified by its token; a stop that has
  taken a session and not finished is an entry of \<open>rw_stops\<close>.

  Two things the code does not guard against are singled out by the flag \<open>orderly\<close>: if it is set, the
  world is kind (leaves work, the owner bot's connection does not fail after it joined), a guest
  goroutine gets to its teardown before another session of its guild commits, and a forgotten guild has no
  session any more.
\<close>

section \<open>Tasks\<close>

datatype task =
    HostAdmitted snowflake RaidMode
  | HostSpeakers snowflake RaidMode "joined_speaker list"
  | HostOwner snowflake RaidMode snowflake "joined_speaker list"
  | GuestAdmitted snowflake RaidMode Code
  | GuestEntered snowflake RaidMode Code nat
  | GuestSpeakers snowflake RaidMode Code nat "joined_speaker list"
  | GuestOwner snowflake RaidMode Code nat "snowflake \<times> bool" "joined_speaker list"
  | GuestRunning snowflake nat "joined_speaker list" bool
  | GuestClosing snowflake nat "joined_speaker list" bool

fun in_flight :: "task \<Rightarrow> bool" where
  "in_flight (GuestRunning g i js own) \<longleftrightarrow> False"
| "in_flight (GuestClosing g i js own) \<longleftrightarrow> False"
| "in_flight _ \<longleftrightarrow> True"

fun task_guild :: "task \<Rightarrow> snowflake" where
  "task_guild (HostAdmitted g mode) = g"
| "task_guild (HostSpeakers g mode js) = g"
| "task_guild (HostOwner g mode c js) = g"
| "task_guild (GuestAdmitted g mode code) = g"
| "task_guild (GuestEntered g mode code i) = g"
| "task_guild (GuestSpeakers g mode code i js) = g"
| "task_guild (GuestOwner g mode code i own js) = g"
| "task_guild (GuestRunning g i js own) = g"
| "task_guild (GuestClosing g i js own) = g"

text \<open>
  The next phase of a start: what is left to do afterwards, if anything.  Whichever way a start returns, the
  deferred \<^verbatim>\<open>end\<close> releases the guard.
\<close>

fun advance ::
  "'s Store \<Rightarrow> discord \<Rightarrow> attempt \<Rightarrow> task \<Rightarrow> 's Service \<Rightarrow> (task option \<times> 's Service) option" where
  "advance S dc at (HostAdmitted g mode) m =
     Some (case host_setup S dc at g mode m of
       (Inl e, m') \<Rightarrow> (None, guard_end g m') | (Inr js, m') \<Rightarrow> (Some (HostSpeakers g mode js), m'))"
| "advance S dc at (HostSpeakers g mode js) m =
     Some (case host_owner S dc at g js m of
       (Inl e, m') \<Rightarrow> (None, guard_end g m') | (Inr c, m') \<Rightarrow> (Some (HostOwner g mode c js), m'))"
| "advance S dc at (HostOwner g mode c js) m =
     map_option (\<lambda>(r, m'). (None, guard_end g m')) (host_commit S dc at g mode c js m)"
| "advance S dc at (GuestAdmitted g mode code) m =
     Some (case guest_enter S at g mode code m of
       (Inl e, m') \<Rightarrow> (None, guard_end g m') | (Inr (mode', i), m') \<Rightarrow> (Some (GuestEntered g mode' code i), m'))"
| "advance S dc at (GuestEntered g mode code i) m =
     Some (case guest_setup S dc at g mode m of
       (Inl e, m') \<Rightarrow> (None, guard_end g m') | (Inr js, m') \<Rightarrow> (Some (GuestSpeakers g mode code i js), m'))"
| "advance S dc at (GuestSpeakers g mode code i js) m =
     Some (case guest_owner S dc at g m of (own, m') \<Rightarrow> (Some (GuestOwner g mode code i own js), m'))"
| "advance S dc at (GuestOwner g mode code i own js) m =
     Some (case guest_commit dc at g mode code i own js m of
       (Some e, m') \<Rightarrow> (None, guard_end g m')
     | (None, m') \<Rightarrow> (Some (GuestRunning g i js (snd own)), guard_end g m'))"
| "advance S dc at _ m = None"

record 's raid_world =
  rw_svc :: "'s Service"
  rw_tasks :: "nat \<rightharpoonup> task"
  rw_stops :: "(snowflake \<times> guild_session) list"
  rw_next :: nat

definition raid_world0 :: "'s Service \<Rightarrow> 's raid_world" where
  "raid_world0 m = \<lparr>rw_svc = m, rw_tasks = Map.empty, rw_stops = [], rw_next = 0\<rparr>"

definition kind_world :: "discord \<Rightarrow> attempt \<Rightarrow> 's Service \<Rightarrow> bool" where
  "kind_world dc at m \<longleftrightarrow> leaves_work at m \<and> at_voice at (ownerBotID dc) \<noteq> ApplyFails"

definition own_session :: "nat \<Rightarrow> guild_session option \<Rightarrow> bool" where
  "own_session t se \<longleftrightarrow> (case se of None \<Rightarrow> True | Some s \<Rightarrow> gs_token s = t)"

inductive raid_step :: "bool \<Rightarrow> 's Store \<Rightarrow> discord \<Rightarrow> 's raid_world \<Rightarrow> 's raid_world \<Rightarrow> bool"
  for orderly :: bool and S :: "'s Store" and dc :: discord where
  begin_start:
    "tryBegin g (rw_next w) (rw_svc w) = Some m \<Longrightarrow> k = HostAdmitted g mode \<or> k = GuestAdmitted g mode code \<Longrightarrow>
     raid_step orderly S dc w
       (w\<lparr>rw_svc := m, rw_tasks := (rw_tasks w)(rw_next w \<mapsto> k), rw_next := Suc (rw_next w)\<rparr>)"
| phase:
    "rw_tasks w t = Some k \<Longrightarrow> at_token at = t \<Longrightarrow> orderly \<longrightarrow> kind_world dc at (rw_svc w) \<Longrightarrow>
     advance S dc at k (rw_svc w) = Some (k', m) \<Longrightarrow>
     raid_step orderly S dc w (w\<lparr>rw_svc := m, rw_tasks := (rw_tasks w)(t := k')\<rparr>)"
| stop_begins:
    "stop_take g want (rw_svc w) = (r, m) \<Longrightarrow>
     raid_step orderly S dc w
       (w\<lparr>rw_svc := m, rw_stops := (case r of Taken se \<Rightarrow> (g, se) # rw_stops w | _ \<Rightarrow> rw_stops w)\<rparr>)"
| stop_ends:
    "rw_stops w = xs @ (g, se) # ys \<Longrightarrow>
     raid_step orderly S dc w (w\<lparr>rw_svc := stop_finish dc g se (rw_svc w), rw_stops := xs @ ys\<rparr>)"
| guest_ends:
    "rw_tasks w t = Some (GuestRunning g i js own) \<Longrightarrow>
     t \<in> cancelled (rw_svc w) \<or> s_done (session_heap (sv_sessions (rw_svc w)) i) \<Longrightarrow>
     orderly \<longrightarrow> own_session t (session_of g (rw_svc w)) \<Longrightarrow>
     raid_step orderly S dc w
       (w\<lparr>rw_svc := guest_end g (rw_svc w), rw_tasks := (rw_tasks w)(t \<mapsto> GuestClosing g i js own)\<rparr>)"
| guest_closes:
    "rw_tasks w t = Some (GuestClosing g i js own) \<Longrightarrow>
     raid_step orderly S dc w
       (w\<lparr>rw_svc := guest_teardown dc t g i js own (rw_svc w), rw_tasks := (rw_tasks w)(t := None)\<rparr>)"
| forgotten:
    "orderly \<longrightarrow> session_of g (rw_svc w) = None \<Longrightarrow>
     raid_step orderly S dc w (w\<lparr>rw_svc := forget_status g (rw_svc w)\<rparr>)"
| speaker_command:
    "raid_step orderly S dc w (w\<lparr>rw_svc := do_speaker S dc op (rw_svc w)\<rparr>)"
| store_command:
    "raid_step orderly S dc w (w\<lparr>rw_svc := (rw_svc w)\<lparr>sv_store := s\<rparr>\<rparr>)"

inductive raid_reach :: "bool \<Rightarrow> 's Store \<Rightarrow> discord \<Rightarrow> 's raid_world \<Rightarrow> 's raid_world \<Rightarrow> bool"
  for orderly :: bool and S :: "'s Store" and dc :: discord and w0 :: "'s raid_world" where
  reach_start: "raid_reach orderly S dc w0 w0"
| reach_step: "raid_reach orderly S dc w0 w \<Longrightarrow> raid_step orderly S dc w w' \<Longrightarrow> raid_reach orderly S dc w0 w'"

section \<open>What one phase changes\<close>

definition quiet :: "snowflake \<Rightarrow> 's Service \<Rightarrow> 's Service \<Rightarrow> bool" where
  "quiet g m m' \<longleftrightarrow> (\<forall>h. session_of h m' = session_of h m) \<and> activeRouters m' = activeRouters m \<and>
     starting m' = starting m \<and> (\<forall>h. h \<noteq> g \<longrightarrow> voice_of h m' = voice_of h m)"

lemma quiet_trans: "quiet g m m' \<Longrightarrow> quiet g m' m'' \<Longrightarrow> quiet g m m''"
  by (simp add: quiet_def)

lemma quiet_ops [simp]:
  "quiet g m m" "quiet g m (run_cleanup t g ids m)" "quiet g m (voice_leave g b m)" "quiet g m (voice_join g b m)"
  "quiet g m (storeApplier g b m)" "quiet g m (on_registry f m)" "quiet g m (m\<lparr>sv_store := s\<rparr>)"
  "quiet g m (m\<lparr>sv_sessions := x\<rparr>)" "quiet g m (leave_with at g b m)" "quiet g m (m\<lparr>cancelled := c\<rparr>)"
  "quiet g m (clearReconnectState dc g m)"
  by (simp_all add: quiet_def leave_with_def)

lemma quiet_only_voice:
  "only_voice g (maybe_seeded S dc g m) m' \<Longrightarrow> quiet g m m'"
  by (simp add: quiet_def only_voiceD only_voice_session)

lemma setupSpeakers_quiet:
  assumes "setupSpeakers S dc at g mode m = (r, m')"
  shows "quiet g m m'" "cleaned m' = cleaned m" "cancelled m' = cancelled m"
proof -
  have "quiet g m m' \<and> cleaned m' = cleaned m \<and> cancelled m' = cancelled m"
  proof (cases "session_of g m")
    case None
    from None assms show ?thesis
      by (rule setupSpeakers_idle) (simp add: quiet_only_voice only_voiceD)
  next
    case (Some se)
    then show ?thesis using assms setupSpeakers_active [of g m S dc at mode] by (simp add: HasActiveSession_iff)
  qed
  then show "quiet g m m'" "cleaned m' = cleaned m" "cancelled m' = cancelled m" by blast+
qed

lemma host_setup_quiet:
  assumes "host_setup S dc at g mode m = (r, m')"
  shows "quiet g m m'" "cleaned m' = cleaned m"
  using assms setupSpeakers_quiet [of S dc at g mode m r m'] by (auto simp: host_setup_def split: if_splits)

lemma host_owner_quiet:
  assumes "host_owner S dc at g js m = (r, m')"
  shows "quiet g m m'" "cleaned m' = (case r of Inl e \<Rightarrow> insert (at_token at) (cleaned m) | Inr c \<Rightarrow> cleaned m)"
proof -
  have c: "cleaned (run_cleanup t g ids n) = insert t (cleaned n)" for t ids and n :: "'a Service"
    by (auto simp: run_cleanup_def)
  show "quiet g m m'" "cleaned m' = (case r of Inl e \<Rightarrow> insert (at_token at) (cleaned m) | Inr c \<Rightarrow> cleaned m)"
    using assms by (auto simp: host_owner_def Let_def c split: option.splits voice_outcome.splits
        intro: quiet_trans [OF quiet_ops(3) quiet_ops(2)] quiet_trans [OF quiet_ops(4) quiet_ops(2)]
          quiet_trans [OF quiet_ops(4) quiet_ops(5)])
qed

lemma cleaned_run_cleanup: "cleaned (run_cleanup t g ids m) = insert t (cleaned m)"
  by (auto simp: run_cleanup_def)

text \<open>Committing: either the session is in, or nothing but the cleanup happened.\<close>

definition committed :: "snowflake \<Rightarrow> guild_session \<Rightarrow> 's Service \<Rightarrow> 's Service \<Rightarrow> bool" where
  "committed g se m m' \<longleftrightarrow> session_of g m = None \<and>
     (\<forall>h. session_of h m' = (if h = g then Some se else session_of h m)) \<and>
     activeRouters m' = (if gs_AutoRouter se = None then activeRouters m else (activeRouters m)(g := gs_AutoRouter se)) \<and>
     starting m' = starting m \<and> cleaned m' = cleaned m \<and> (\<forall>h. voice_of h m' = voice_of h m)"

lemma commitSession_committed:
  assumes "commitSession g se m = Inr m'"
  shows "committed g se m m'"
proof -
  from assms obtain st where st: "statuses m g = Some st" "session_of g m = None"
    and m': "m' = (let m1 = upd_status g (\<lambda>st. st\<lparr>st_Session := Some se\<rparr>) m
           in if gs_AutoRouter se = None then m1 else setActiveRouter g (gs_AutoRouter se) m1)"
    by (auto simp: commitSession_Inr)
  have "session_of h m' = (if h = g then Some se else session_of h m)" for h
    using st by (simp add: m' Let_def session_of_upd_status)
  then show ?thesis using st by (simp add: committed_def m' Let_def setActiveRouter_def)
qed

lemma host_commit_effect:
  assumes "host_commit S dc at g mode c js m = Some (r, m')"
  shows "(\<exists>e. r = Inl e) \<and> quiet g m m' \<and> cleaned m' = insert (at_token at) (cleaned m) \<and>
      (leaves_work at m \<longrightarrow> at_token at \<notin> cleaned m \<longrightarrow> voice_of g m' = voice_of g m - joined_ids js - {ownerBotID dc}) \<or>
    (\<exists>se. committed g se m m' \<and> gs_token se = at_token at \<and> \<not> gs_IsGuest se \<and> session_ids se = joined_ids js)"
  using assms
proof (cases rule: host_commit_cases)
  case (1 s' code am i)
  let ?m1 = "m\<lparr>sv_store := s', sv_sessions := am\<rparr>"
  let ?m2 = "run_cleanup (at_token at) g (joined_ids js) ?m1"
  obtain e where e: "r = Inl e" and m': "m' = on_registry (RemoveHost g) (leave_with at g (ownerBotID dc) ?m2)"
    using 1(3) by (auto simp: host_errCleanup_def)
  have q: "quiet g m m'" unfolding m'
    by (rule quiet_trans [of g m ?m1]) (simp add: quiet_def, rule quiet_trans [of g _ ?m2], simp,
        rule quiet_trans [OF quiet_ops(9) quiet_ops(6)])
  have "leaves_work at m \<Longrightarrow> leaves_work at ?m2" by (simp add: leaves_work_def)
  then have "leaves_work at m \<Longrightarrow> at_token at \<notin> cleaned m \<Longrightarrow> voice_of g m' = voice_of g m - joined_ids js - {ownerBotID dc}"
    by (simp add: m' voice_of_leave_with)
  then show ?thesis using e q by (auto simp: m' cleaned_run_cleanup)
next
  case (2 s' code am i b m2)
  let ?se = "built_session (at_token at) code i js b"
  have "committed g ?se (m\<lparr>sv_store := s', sv_sessions := am\<rparr>) m2" by (rule commitSession_committed [OF 2(6)])
  then have "committed g ?se m m'" by (simp add: committed_def 2(7))
  then show ?thesis using Host_Build_router [OF 2(4)] by (intro disjI2 exI [of _ ?se]) simp
qed

lemma Guest_Build_guest: "Guest_Build h nm p = Inr (b, chs) \<Longrightarrow> bu_IsGuest b"
  by (cases h) (auto simp: Guest_Build_def GuestListener_Build_def GuestStar_Build_def GuestCaller_Build_def Let_def
      split: option.splits)

lemma guest_commit_effect:
  assumes "guest_commit dc at g mode code i own js m = (r, m')"
  shows "(\<exists>e. r = Some e) \<and> quiet g m m' \<and> cleaned m' = insert (at_token at) (cleaned m) \<and>
      (at_token at \<notin> cleaned m \<longrightarrow>
         voice_of g m' = voice_of g m - joined_ids js - (if snd own then {ownerBotID dc} else {})) \<or>
    r = None \<and> (\<exists>se. committed g se m m' \<and> gs_token se = at_token at \<and> gs_IsGuest se \<and> session_ids se = joined_ids js)"
proof -
  let ?u = "guest_undo dc (at_token at) g js (snd own) m"
  have u: "quiet g m ?u \<and> cleaned ?u = insert (at_token at) (cleaned m) \<and>
      (at_token at \<notin> cleaned m \<longrightarrow> voice_of g ?u = voice_of g m - joined_ids js - (if snd own then {ownerBotID dc} else {}))"
    by (simp add: guest_undo_def guestCleanupOwner_def quiet_def cleaned_run_cleanup)
  show ?thesis
  proof (cases "Guest_Build (GuestFor mode) (at_mixer at) (guest_params dc at g mode own js)")
    case (Inl e)
    then show ?thesis using assms u by (auto simp: guest_commit_def Let_def)
  next
    case (Inr bc)
    obtain b chs where bc: "bc = (b, chs)" by fastforce
    let ?se = "built_session (at_token at) code i js b"
    show ?thesis
    proof (cases "commitSession g ?se m")
      case (Inl e)
      then show ?thesis using assms u Inr bc by (auto simp: guest_commit_def Let_def)
    next
      case c: (Inr m1)
      have r: "r = None" "m' = run_start g (at_relay at) i (bu_start b) m1"
        using assms Inr bc c by (auto simp: guest_commit_def Let_def)
      have "committed g ?se m m1" by (rule commitSession_committed [OF c])
      then have "committed g ?se m m'" by (simp add: committed_def r(2))
      then show ?thesis using r(1) Guest_Build_guest [OF Inr [unfolded bc]] by (intro disjI2 conjI exI [of _ ?se]) simp_all
    qed
  qed
qed

lemma guest_enter_quiet:
  "guest_enter S at g mode code m = (r, m') \<Longrightarrow> quiet g m m' \<and> cleaned m' = cleaned m \<and> (\<forall>h. voice_of h m' = voice_of h m)"
  by (auto simp: guest_enter_def quiet_def Let_def split: if_splits prod.splits sum.splits)

lemma guest_owner_quiet:
  "guest_owner S dc at g m = (r, m') \<Longrightarrow> quiet g m m' \<and> cleaned m' = cleaned m"
  by (auto simp: guest_owner_def quiet_def Let_def split: option.splits voice_outcome.splits)

section \<open>Who answers for a bot\<close>

text \<open>The bots a task or a session will make leave; \<open>cl\<close> are the starts whose speaker cleanup has run.\<close>

fun task_bots :: "discord \<Rightarrow> bool \<Rightarrow> task \<Rightarrow> snowflake set" where
  "task_bots dc cl (HostSpeakers g mode js) = joined_ids js"
| "task_bots dc cl (HostOwner g mode c js) = insert (ownerBotID dc) (joined_ids js)"
| "task_bots dc cl (GuestSpeakers g mode code i js) = joined_ids js"
| "task_bots dc cl (GuestOwner g mode code i own js) = joined_ids js \<union> (if snd own then {ownerBotID dc} else {})"
| "task_bots dc cl (GuestRunning g i js own) = (if cl then {} else joined_ids js) \<union> (if own then {ownerBotID dc} else {})"
| "task_bots dc cl (GuestClosing g i js own) = (if cl then {} else joined_ids js) \<union> (if own then {ownerBotID dc} else {})"
| "task_bots dc cl _ = {}"

definition session_bots :: "discord \<Rightarrow> nat set \<Rightarrow> guild_session \<Rightarrow> snowflake set" where
  "session_bots dc cl se = (if gs_token se \<in> cl then {} else session_ids se) \<union> (if gs_IsGuest se then {} else {ownerBotID dc})"

text \<open>The possible fates of a phase of the start \<open>t\<close> of guild \<open>g\<close>.\<close>

definition goes_on :: "snowflake \<Rightarrow> task option \<Rightarrow> 's Service \<Rightarrow> 's Service \<Rightarrow> bool" where
  "goes_on g k' m m' \<longleftrightarrow> (\<exists>k2. k' = Some k2 \<and> in_flight k2 \<and> task_guild k2 = g) \<and> quiet g m m' \<and> cleaned m' = cleaned m"

definition gives_up :: "nat \<Rightarrow> snowflake \<Rightarrow> task option \<Rightarrow> 's Service \<Rightarrow> 's Service \<Rightarrow> bool" where
  "gives_up t g k' m m' \<longleftrightarrow> k' = None \<and>
     (\<exists>m0. m' = guard_end g m0 \<and> quiet g m m0 \<and> (cleaned m0 = cleaned m \<or> cleaned m0 = insert t (cleaned m)))"

definition commits :: "nat \<Rightarrow> snowflake \<Rightarrow> task option \<Rightarrow> 's Service \<Rightarrow> 's Service \<Rightarrow> guild_session \<Rightarrow> bool" where
  "commits t g k' m m' se \<longleftrightarrow> (\<exists>m0. m' = guard_end g m0 \<and> committed g se m m0) \<and> gs_token se = t \<and>
     (k' = None \<and> \<not> gs_IsGuest se \<or>
      (\<exists>i js own. k' = Some (GuestRunning g i js own) \<and> gs_IsGuest se \<and> session_ids se = joined_ids js))"

lemma advance_fate:
  assumes "advance S dc at k m = Some (k', m')"
  shows "goes_on (task_guild k) k' m m' \<or> gives_up (at_token at) (task_guild k) k' m m' \<or>
    (\<exists>se. commits (at_token at) (task_guild k) k' m m' se)"
proof (cases k)
  case (HostAdmitted g mode)
  obtain r m1 where r: "host_setup S dc at g mode m = (r, m1)" by fastforce
  from host_setup_quiet [OF r] assms show ?thesis
    by (cases r) (auto simp: HostAdmitted r goes_on_def gives_up_def)
next
  case (HostSpeakers g mode js)
  obtain r m1 where r: "host_owner S dc at g js m = (r, m1)" by fastforce
  from host_owner_quiet [OF r] assms show ?thesis
    by (cases r) (auto simp: HostSpeakers r goes_on_def gives_up_def)
next
  case (HostOwner g mode c js)
  then obtain r m1 where r: "host_commit S dc at g mode c js m = Some (r, m1)" and k': "k' = None" "m' = guard_end g m1"
    using assms by auto
  from host_commit_effect [OF r] show ?thesis
    by (elim disjE exE conjE) (simp_all add: HostOwner k' gives_up_def commits_def, blast+)
next
  case (GuestAdmitted g mode code)
  obtain r m1 where r: "guest_enter S at g mode code m = (r, m1)" by fastforce
  from guest_enter_quiet [OF r] assms show ?thesis
    by (cases r) (auto simp: GuestAdmitted r goes_on_def gives_up_def split: prod.splits)
next
  case (GuestEntered g mode code i)
  obtain r m1 where r: "setupSpeakers S dc at g mode m = (r, m1)" by fastforce
  have "quiet g m (on_registry f m1)" for f by (rule quiet_trans [OF setupSpeakers_quiet(1) [OF r]]) simp
  with setupSpeakers_quiet [OF r] assms show ?thesis
    by (cases r) (auto simp: GuestEntered guest_setup_def r goes_on_def gives_up_def)
next
  case (GuestSpeakers g mode code i js)
  obtain r m1 where r: "guest_owner S dc at g m = (r, m1)" by fastforce
  from guest_owner_quiet [OF r] assms show ?thesis by (auto simp: GuestSpeakers r goes_on_def)
next
  case (GuestOwner g mode code i own js)
  obtain r m1 where r: "guest_commit dc at g mode code i own js m = (r, m1)" by fastforce
  from guest_commit_effect [OF r] show ?thesis
  proof (elim disjE exE conjE)
    fix e assume "r = Some e" "quiet g m m1" "cleaned m1 = insert (at_token at) (cleaned m)"
    then show ?thesis using assms by (auto simp: GuestOwner r gives_up_def)
  next
    fix se assume "r = None" "committed g se m m1" "gs_token se = at_token at" "gs_IsGuest se" "session_ids se = joined_ids js"
    then show ?thesis using assms by (auto simp: GuestOwner r commits_def intro!: exI [of _ se])
  qed
qed (use assms in simp_all)

text \<open>Whoever is in voice after a phase was somebody else's bot before or is answered for.\<close>

lemma advance_voice:
  assumes "advance S dc at k m = Some (k', m')" and "kind_world dc at m" and "at_token at \<notin> cleaned m"
    and "b \<in> voice_of (task_guild k) m'"
  shows "b \<in> voice_of (task_guild k) m \<and> b \<notin> task_bots dc cl k \<or>
    (\<exists>k2. k' = Some k2 \<and> b \<in> task_bots dc False k2) \<or>
    (\<exists>se. session_of (task_guild k) m' = Some se \<and> b \<in> session_bots dc (cleaned m') se)"
proof -
  have lw: "leaves_work at m" and ow: "at_voice at (ownerBotID dc) \<noteq> ApplyFails"
    using assms(2) by (simp_all add: kind_world_def)
  have set_up: "b \<in> voice_of g m \<or> (\<exists>js. r = Inr js \<and> b \<in> joined_ids js)"
    if "setupSpeakers S dc at g mode m = (r, m1)" "b \<in> voice_of g m1" for g mode r m1
  proof (cases "session_of g m")
    case None
    from None that(1) show ?thesis by (rule setupSpeakers_idle) (use lw that(2) in \<open>auto split: if_splits\<close>)
  next
    case (Some se)
    then show ?thesis using that setupSpeakers_active [of g m S dc at mode] by (simp add: HasActiveSession_iff)
  qed
  show ?thesis
  proof (cases k)
    case (HostAdmitted g mode)
    obtain r m1 where r: "host_setup S dc at g mode m = (r, m1)" by fastforce
    have "b \<in> voice_of g m1" using assms(1,4) by (cases r) (auto simp: HostAdmitted r)
    then have "b \<in> voice_of g m \<or> (\<exists>js. r = Inr js \<and> b \<in> joined_ids js)"
      using r set_up by (auto simp: host_setup_def split: if_splits)
    then show ?thesis using assms(1) by (cases r) (auto simp: HostAdmitted r)
  next
    case (HostSpeakers g mode js)
    obtain r m1 where r: "host_owner S dc at g js m = (r, m1)" by fastforce
    show ?thesis
    proof (cases r)
      case (Inl e)
      then show ?thesis using assms host_owner_Inl [of S dc at g js m e m1] ow by (auto simp: HostSpeakers r split: if_splits)
    next
      case (Inr c)
      then have "m1 = storeApplier g (ownerBotID dc) (voice_join g (ownerBotID dc) m)"
        using r by (simp add: host_owner_Inr)
      then show ?thesis using assms(1,4) Inr by (auto simp: HostSpeakers r)
    qed
  next
    case (HostOwner g mode c js)
    then obtain r m1 where r: "host_commit S dc at g mode c js m = Some (r, m1)" and k': "k' = None" "m' = guard_end g m1"
      using assms(1) by auto
    from host_commit_effect [OF r] show ?thesis
    proof (elim disjE exE conjE)
      fix e assume "leaves_work at m \<longrightarrow> at_token at \<notin> cleaned m \<longrightarrow> voice_of g m1 = voice_of g m - joined_ids js - {ownerBotID dc}"
      then show ?thesis using lw assms(3,4) by (simp add: HostOwner k')
    next
      fix se assume se: "committed g se m m1" "gs_token se = at_token at" "\<not> gs_IsGuest se" "session_ids se = joined_ids js"
      have "session_of g m' = Some se" "cleaned m' = cleaned m" "voice_of g m' = voice_of g m"
        using se(1) by (simp_all add: committed_def k')
      then show ?thesis using se assms(3,4) by (auto simp: HostOwner session_bots_def)
    qed
  next
    case (GuestAdmitted g mode code)
    obtain r m1 where r: "guest_enter S at g mode code m = (r, m1)" by fastforce
    from guest_enter_quiet [OF r] assms(1,4) show ?thesis
      by (cases r) (auto simp: GuestAdmitted r split: prod.splits)
  next
    case (GuestEntered g mode code i)
    obtain r m1 where r: "setupSpeakers S dc at g mode m = (r, m1)" by fastforce
    from set_up [OF r] assms(1,4) show ?thesis
      by (cases r) (auto simp: GuestEntered guest_setup_def r)
  next
    case (GuestSpeakers g mode code i js)
    obtain r m1 where r: "guest_owner S dc at g m = (r, m1)" by fastforce
    then have "b \<in> voice_of g m \<or> snd r \<and> b = ownerBotID dc" if "b \<in> voice_of g m1"
      using that ow by (auto simp: guest_owner_def Let_def split: option.splits voice_outcome.splits if_splits)
    then show ?thesis using assms(1,4) by (auto simp: GuestSpeakers r)
  next
    case (GuestOwner g mode code i own js)
    obtain r m1 where r: "guest_commit dc at g mode code i own js m = (r, m1)" by fastforce
    from guest_commit_effect [OF r] show ?thesis
    proof (elim disjE exE conjE)
      fix e assume "r = Some e" "at_token at \<notin> cleaned m \<longrightarrow>
         voice_of g m1 = voice_of g m - joined_ids js - (if snd own then {ownerBotID dc} else {})"
      then show ?thesis using assms(1,3,4) by (auto simp: GuestOwner r)
    next
      fix se assume "r = None" "committed g se m m1"
      then show ?thesis using assms(1,4) by (auto simp: GuestOwner r committed_def)
    qed
  qed (use assms(1) in simp_all)
qed

section \<open>Frames of the other steps\<close>

lemma session_of_upd_keeps:
  "(\<And>st. st_Session (f st) = st_Session st) \<Longrightarrow> session_of h (upd_status g f m) = session_of h m"
  by (simp add: session_of_upd_status) (simp add: session_of_def split: option.split)

lemma do_speaker_frame:
  "session_of h (do_speaker S dc op m) = session_of h m" "activeRouters (do_speaker S dc op m) = activeRouters m"
  "starting (do_speaker S dc op m) = starting m" "cleaned (do_speaker S dc op m) = cleaned m"
  "voice_of h (do_speaker S dc op m) = voice_of h m"
proof -
  have "session_of h (snd (ToggleSpeaker S g b on m)) = session_of h m \<and>
      activeRouters (snd (ToggleSpeaker S g b on m)) = activeRouters m \<and>
      starting (snd (ToggleSpeaker S g b on m)) = starting m \<and> cleaned (snd (ToggleSpeaker S g b on m)) = cleaned m \<and>
      voice_of h (snd (ToggleSpeaker S g b on m)) = voice_of h m" for g b on
    by (auto simp: ToggleSpeaker_def session_of_def voice_of_def split: option.splits)
  moreover have "session_of h (TrySeedMember S dc g b m) = session_of h m \<and>
      activeRouters (TrySeedMember S dc g b m) = activeRouters m \<and>
      starting (TrySeedMember S dc g b m) = starting m \<and> cleaned (TrySeedMember S dc g b m) = cleaned m \<and>
      voice_of h (TrySeedMember S dc g b m) = voice_of h m" for g b
    by (auto simp: TrySeedMember_def intro!: session_of_upd_keeps split: sum.splits option.splits)
  ultimately show "session_of h (do_speaker S dc op m) = session_of h m"
    "activeRouters (do_speaker S dc op m) = activeRouters m"
    "starting (do_speaker S dc op m) = starting m" "cleaned (do_speaker S dc op m) = cleaned m"
    "voice_of h (do_speaker S dc op m) = voice_of h m"
    by (cases op; simp add: RemoveSpeaker_def session_of_upd_keeps)+
qed

lemma stop_take_cases:
  assumes "stop_take g want m = (r, m')"
  obtains se where "r = Taken se" "session_of g m = Some se"
      "m' = clearActiveRouter g (upd_status g (\<lambda>st. st\<lparr>st_Session := None\<rparr>) m)"
  | "\<forall>se. r \<noteq> Taken se" "m' = m \<or> (\<exists>t. m' = m\<lparr>cancelled := insert t (cancelled m)\<rparr>)"
  using assms by (auto simp: stop_take_def session_of_def [symmetric] guard_cancel_def
      split: option.splits if_splits prod.splits)

lemma session_of_clear:
  "session_of h (clearActiveRouter g (upd_status g (\<lambda>st. st\<lparr>st_Session := None\<rparr>) m)) =
     (if h = g then None else session_of h m)"
  by (auto simp: session_of_upd_status split: option.split)

lemma stop_finish_frame:
  "session_of h (stop_finish dc g se m) = session_of h m" "activeRouters (stop_finish dc g se m) = activeRouters m"
  "starting (stop_finish dc g se m) = starting m" "cleaned (stop_finish dc g se m) = insert (gs_token se) (cleaned m)"
  "voice_of h (stop_finish dc g se m) = (if h = g then voice_of g m - session_bots dc (cleaned m) se else voice_of h m)"
  by (auto simp: stop_finish_def session_cleanup_def Let_def cleaned_run_cleanup session_bots_def)

lemma guest_teardown_frame:
  "session_of h (guest_teardown dc t g i js own m) = session_of h m"
  "activeRouters (guest_teardown dc t g i js own m) = activeRouters m"
  "starting (guest_teardown dc t g i js own m) = starting m"
  "cleaned (guest_teardown dc t g i js own m) = insert t (cleaned m)"
  "voice_of h (guest_teardown dc t g i js own m) =
     (if h = g then voice_of g m - task_bots dc (t \<in> cleaned m) (GuestClosing g i js own) else voice_of h m)"
  by (auto simp: guest_teardown_def guestCleanupOwner_def cleaned_run_cleanup)

lemma guest_end_frame:
  "session_of h (guest_end g m) = (if h = g then None else session_of h m)"
  "activeRouters (guest_end g m) = (activeRouters m)(g := None)" "starting (guest_end g m) = starting m"
  "cleaned (guest_end g m) = cleaned m" "voice_of h (guest_end g m) = voice_of h m"
  using session_of_clear [of h g m] by (simp_all add: guest_end_def) (simp add: clearActiveRouter_def)

lemma forget_status_frame:
  "session_of h (forget_status g m) = (if h = g then None else session_of h m)"
  "activeRouters (forget_status g m) = activeRouters m" "starting (forget_status g m) = starting m"
  "cleaned (forget_status g m) = cleaned m" "voice_of h (forget_status g m) = voice_of h m"
  by (simp_all add: forget_status_def session_of_def)

lemma guard_end_starting: "starting (guard_end g m) = (starting m)(g := None)"
  by (simp add: guard_end_def)

section \<open>The start guard\<close>

text \<open>The guard of a guild holds the token of its one start that is still running.\<close>

definition guard_inv :: "'s raid_world \<Rightarrow> bool" where
  "guard_inv w \<longleftrightarrow>
     (\<forall>g t. starting (rw_svc w) g = Some t \<longleftrightarrow> (\<exists>k. rw_tasks w t = Some k \<and> in_flight k \<and> task_guild k = g)) \<and>
     (\<forall>t k. rw_tasks w t = Some k \<longrightarrow> t < rw_next w)"

lemma guard_inv_same:
  assumes "guard_inv w" and "starting (rw_svc w') = starting (rw_svc w)" and "rw_next w' = rw_next w"
    and "\<And>t k. rw_tasks w' t = Some k \<Longrightarrow> in_flight k \<Longrightarrow> rw_tasks w t = Some k"
    and "\<And>t k. rw_tasks w t = Some k \<Longrightarrow> in_flight k \<Longrightarrow> rw_tasks w' t = Some k"
    and "dom (rw_tasks w') \<subseteq> dom (rw_tasks w)"
  shows "guard_inv w'"
  unfolding guard_inv_def
proof (intro conjI allI)
  fix g t
  have "starting (rw_svc w') g = Some t \<longleftrightarrow> (\<exists>k. rw_tasks w t = Some k \<and> in_flight k \<and> task_guild k = g)"
    using assms(1,2) by (simp add: guard_inv_def)
  then show "starting (rw_svc w') g = Some t \<longleftrightarrow> (\<exists>k. rw_tasks w' t = Some k \<and> in_flight k \<and> task_guild k = g)"
    using assms(4,5) by blast
next
  fix t k
  show "rw_tasks w' t = Some k \<longrightarrow> t < rw_next w'"
    using assms(1,3,6) unfolding guard_inv_def by (metis domD domI subsetD)
qed

lemma guard_inv_ended:
  assumes "guard_inv w" and "rw_tasks w t = Some k" and "in_flight k" and "task_guild k = g"
    and "starting (rw_svc w') = (starting (rw_svc w))(g := None)" and "rw_next w' = rw_next w"
    and "rw_tasks w' = (rw_tasks w)(t := k')" and "\<And>k2. k' = Some k2 \<Longrightarrow> \<not> in_flight k2"
  shows "guard_inv w'"
proof -
  have g: "starting (rw_svc w) h = Some u \<longleftrightarrow> (\<exists>k. rw_tasks w u = Some k \<and> in_flight k \<and> task_guild k = h)" for h u
    using assms(1) by (simp add: guard_inv_def)
  have t: "starting (rw_svc w) g = Some t" using g assms(2-4) by blast
  have "u = t" if "rw_tasks w u = Some k2" "in_flight k2" "task_guild k2 = g" for u k2
  proof -
    have "starting (rw_svc w) g = Some u" using g that by blast
    with t show ?thesis by simp
  qed
  then show ?thesis
    using assms(1) g assms(5-8) assms(2,4) unfolding guard_inv_def by (auto split: if_splits)
qed

lemma raid_step_guard:
  assumes "raid_step orderly S dc w w'" and inv: "guard_inv w"
  shows "guard_inv w'"
  using assms(1)
proof cases
  case (begin_start g m k mode code)
  have m: "starting (rw_svc w) g = None" "starting m = (starting (rw_svc w))(g \<mapsto> rw_next w)"
    using begin_start(2) by (auto simp: tryBegin_def split: if_splits)
  have k: "in_flight k" "task_guild k = g" using begin_start(3) by auto
  have g: "starting (rw_svc w) h = Some u \<longleftrightarrow> (\<exists>k. rw_tasks w u = Some k \<and> in_flight k \<and> task_guild k = h)"
    and lt: "rw_tasks w u = Some k2 \<Longrightarrow> u < rw_next w" for h u k2
    using inv by (simp_all add: guard_inv_def)
  have none: "rw_tasks w (rw_next w) = None" using lt by (metis less_irrefl not_None_eq)
  have nog: "\<not> (rw_tasks w u = Some k2 \<and> in_flight k2 \<and> task_guild k2 = g)" for u k2
    using g [of g u] m(1) by auto
  show ?thesis unfolding guard_inv_def
  proof (intro conjI allI)
    fix h u
    show "starting (rw_svc w') h = Some u \<longleftrightarrow> (\<exists>k. rw_tasks w' u = Some k \<and> in_flight k \<and> task_guild k = h)"
      using begin_start(1) m k nog none g [of h u] by auto
  next
    fix u k2
    show "rw_tasks w' u = Some k2 \<longrightarrow> u < rw_next w'"
      using begin_start(1) lt by (auto simp: less_SucI)
  qed
next
  case (phase t k "at" k' m)
  have fl: "in_flight k" using phase(5) by (cases k) auto
  from advance_fate [OF phase(5)] show ?thesis
  proof (elim disjE exE)
    assume a: "goes_on (task_guild k) k' (rw_svc w) m"
    then obtain k2 where k2: "k' = Some k2" "in_flight k2" "task_guild k2 = task_guild k" and s: "starting m = starting (rw_svc w)"
      by (auto simp: goes_on_def quiet_def)
    show ?thesis using inv phase(1,2) fl k2 s unfolding guard_inv_def by auto
  next
    assume "gives_up (at_token at) (task_guild k) k' (rw_svc w) m"
    then show ?thesis using guard_inv_ended [OF inv phase(2) fl refl, of w' k'] phase(1)
      by (auto simp: gives_up_def guard_end_starting quiet_def)
  next
    fix se assume "commits (at_token at) (task_guild k) k' (rw_svc w) m se"
    then show ?thesis using guard_inv_ended [OF inv phase(2) fl refl, of w' k'] phase(1)
      by (auto simp: commits_def guard_end_starting committed_def)
  qed
next
  case (stop_begins g want r m)
  have "starting m = starting (rw_svc w)" using stop_begins(2) by (rule stop_take_cases) auto
  then show ?thesis using stop_begins(1) by (intro guard_inv_same [OF inv]) auto
next
  case (stop_ends xs g se ys)
  then show ?thesis by (intro guard_inv_same [OF inv]) (auto simp: stop_finish_frame)
next
  case (guest_ends t g i js own)
  then show ?thesis by (intro guard_inv_same [OF inv]) (auto simp: guest_end_frame split: if_splits)
next
  case (guest_closes t g i js own)
  then show ?thesis by (intro guard_inv_same [OF inv]) (auto simp: guest_teardown_frame split: if_splits)
next
  case (forgotten g)
  then show ?thesis by (intro guard_inv_same [OF inv]) (auto simp: forget_status_frame)
next
  case (speaker_command op)
  then show ?thesis by (intro guard_inv_same [OF inv]) (auto simp: do_speaker_frame)
next
  case (store_command s)
  then show ?thesis by (intro guard_inv_same [OF inv]) auto
qed

lemma raid_reach_guard:
  "raid_reach orderly S dc w0 w \<Longrightarrow> guard_inv w0 \<Longrightarrow> guard_inv w"
  by (induction rule: raid_reach.induct) (auto intro: raid_step_guard)

section \<open>Sessions and their tokens\<close>

lemma session_of_none:
  "session_of h (upd_status g (\<lambda>st. st\<lparr>st_Session := None\<rparr>) m) = (if h = g then None else session_of h m)"
  using session_of_clear [of h g m] by simp

text \<open>
  A session lives on as the session of its guild, as a stop in progress, and, for a guest, as its
  goroutine.  All of them agree on the guild, the speakers and the kind of session.
\<close>

definition holder :: "'s raid_world \<Rightarrow> nat \<Rightarrow> snowflake \<Rightarrow> snowflake set \<Rightarrow> bool \<Rightarrow> bool" where
  "holder w t g ids guest \<longleftrightarrow>
     (\<exists>i js own k. rw_tasks w t = Some k \<and> (k = GuestRunning g i js own \<or> k = GuestClosing g i js own) \<and>
        ids = joined_ids js \<and> guest) \<or>
     (\<exists>se. (session_of g (rw_svc w) = Some se \<or> (g, se) \<in> set (rw_stops w)) \<and>
        gs_token se = t \<and> ids = session_ids se \<and> guest = gs_IsGuest se)"

definition starting_task :: "'s raid_world \<Rightarrow> nat \<Rightarrow> bool" where
  "starting_task w t \<longleftrightarrow> (\<exists>k. rw_tasks w t = Some k \<and> in_flight k)"

definition token_inv :: "'s raid_world \<Rightarrow> bool" where
  "token_inv w \<longleftrightarrow>
     (\<forall>t g ids guest. holder w t g ids guest \<longrightarrow> t < rw_next w \<and> \<not> starting_task w t) \<and>
     (\<forall>t \<in> cleaned (rw_svc w). t < rw_next w \<and> \<not> starting_task w t) \<and>
     (\<forall>t k. rw_tasks w t = Some k \<longrightarrow> t < rw_next w) \<and>
     (\<forall>t g ids guest g' ids' guest'. holder w t g ids guest \<longrightarrow> holder w t g' ids' guest' \<longrightarrow>
        g = g' \<and> ids = ids' \<and> guest = guest')"

lemma token_invD:
  assumes "token_inv w"
  shows "holder w t g ids guest \<Longrightarrow> t < rw_next w \<and> \<not> starting_task w t"
    "t \<in> cleaned (rw_svc w) \<Longrightarrow> t < rw_next w \<and> \<not> starting_task w t"
    "rw_tasks w t = Some k \<Longrightarrow> t < rw_next w"
    "holder w t g ids guest \<Longrightarrow> holder w t g' ids' guest' \<Longrightarrow> g = g' \<and> ids = ids' \<and> guest = guest'"
proof -
  note d = assms [unfolded token_inv_def]
  show "holder w t g ids guest \<Longrightarrow> t < rw_next w \<and> \<not> starting_task w t" using conjunct1 [OF d] by blast
  show "t \<in> cleaned (rw_svc w) \<Longrightarrow> t < rw_next w \<and> \<not> starting_task w t"
    using conjunct1 [OF conjunct2 [OF d]] by blast
  show "rw_tasks w t = Some k \<Longrightarrow> t < rw_next w" using conjunct1 [OF conjunct2 [OF conjunct2 [OF d]]] by blast
  show "holder w t g ids guest \<Longrightarrow> holder w t g' ids' guest' \<Longrightarrow> g = g' \<and> ids = ids' \<and> guest = guest'"
    using conjunct2 [OF conjunct2 [OF conjunct2 [OF d]]] by blast
qed

text \<open>Nothing new: holders, started tasks and cleanups come from before.\<close>

lemma token_inv_shrinks:
  assumes inv: "token_inv w"
    and "\<And>t g ids guest. holder w' t g ids guest \<Longrightarrow> holder w t g ids guest"
    and "\<And>t. starting_task w' t \<Longrightarrow> starting_task w t"
    and "\<And>t. t \<in> cleaned (rw_svc w') \<Longrightarrow> t \<in> cleaned (rw_svc w) \<or> t < rw_next w \<and> \<not> starting_task w' t"
    and "dom (rw_tasks w') \<subseteq> dom (rw_tasks w)" and "rw_next w' = rw_next w"
  shows "token_inv w'"
  unfolding token_inv_def
proof (intro conjI allI impI ballI)
  fix t g ids guest assume "holder w' t g ids guest"
  from token_invD(1) [OF inv assms(2) [OF this]] show "t < rw_next w'" "\<not> starting_task w' t"
    using assms(3,6) by auto
next
  fix t assume "t \<in> cleaned (rw_svc w')"
  from assms(4) [OF this] show "t < rw_next w'" "\<not> starting_task w' t"
    using token_invD(2) [OF inv, of t] assms(3,6) by auto
next
  fix t k assume "rw_tasks w' t = Some k"
  then obtain k' where "rw_tasks w t = Some k'" using assms(5) by blast
  then show "t < rw_next w'" using token_invD(3) [OF inv] assms(6) by auto
next
  fix t g ids guest g' ids' guest' assume "holder w' t g ids guest" "holder w' t g' ids' guest'"
  from token_invD(4) [OF inv assms(2) [OF this(1)] assms(2) [OF this(2)]]
  show "g = g'" "ids = ids'" "guest = guest'" by auto
qed

lemma holder_task:
  "holder (w\<lparr>rw_svc := m, rw_tasks := (rw_tasks w)(t := k')\<rparr>) u g ids guest \<Longrightarrow>
   (\<And>h. session_of h m = session_of h (rw_svc w)) \<Longrightarrow> (\<And>k. k' = Some k \<Longrightarrow> in_flight k) \<Longrightarrow> holder w u g ids guest"
  by (auto simp: holder_def split: if_splits)

lemma holder_commit:
  assumes "holder (w\<lparr>rw_svc := m, rw_tasks := (rw_tasks w)(t := k')\<rparr>) u g ids guest"
    and "commits t g0 k' (rw_svc w) m se"
  shows "holder w u g ids guest \<or> u = t \<and> g = g0 \<and> ids = session_ids se \<and> guest = gs_IsGuest se"
proof -
  have s: "session_of h m = (if h = g0 then Some se else session_of h (rw_svc w))" for h
    using assms(2) by (auto simp: commits_def committed_def)
  show ?thesis
    using assms unfolding holder_def commits_def by (auto simp: s split: if_splits)
qed

lemma raid_step_tokens:
  assumes "raid_step orderly S dc w w'" and inv: "token_inv w"
  shows "token_inv w'"
  using assms(1)
proof cases
  case (begin_start g m k mode code)
  have m: "m = (rw_svc w)\<lparr>starting := (starting (rw_svc w))(g \<mapsto> rw_next w)\<rparr>"
    using begin_start(2) by (auto simp: tryBegin_def split: if_splits)
  have k: "in_flight k" using begin_start(3) by auto
  have h: "holder w' t g ids guest \<Longrightarrow> holder w t g ids guest" for t g ids guest
    using begin_start(3) by (auto simp: begin_start(1) m holder_def split: if_splits)
  have st: "starting_task w' t \<Longrightarrow> starting_task w t \<or> t = rw_next w" for t
    by (auto simp: begin_start(1) starting_task_def split: if_splits)
  have nx: "rw_next w' = Suc (rw_next w)" and cl: "cleaned (rw_svc w') = cleaned (rw_svc w)"
    by (simp_all add: begin_start(1) m)
  show ?thesis unfolding token_inv_def
  proof (intro conjI allI impI ballI)
    fix t g ids guest assume "holder w' t g ids guest"
    from token_invD(1) [OF inv h [OF this]] show "t < rw_next w'" "\<not> starting_task w' t" using st [of t] nx by auto
  next
    fix t assume "t \<in> cleaned (rw_svc w')"
    then show "t < rw_next w'" "\<not> starting_task w' t" using token_invD(2) [OF inv, of t] st [of t] nx cl by auto
  next
    fix t k assume "rw_tasks w' t = Some k"
    then show "t < rw_next w'" using token_invD(3) [OF inv] by (auto simp: begin_start(1) less_SucI split: if_splits)
  next
    fix t g ids guest g' ids' guest' assume "holder w' t g ids guest" "holder w' t g' ids' guest'"
    from token_invD(4) [OF inv h [OF this(1)] h [OF this(2)]] show "g = g'" "ids = ids'" "guest = guest'" by auto
  qed
next
  case (phase t k "at" k' m)
  have fl: "in_flight k" using phase(5) by (cases k) auto
  have stt: "starting_task w t" using fl phase(2) by (auto simp: starting_task_def)
  have tn: "t < rw_next w" by (rule token_invD(3) [OF inv phase(2)])
  from advance_fate [OF phase(5)] show ?thesis
  proof (elim disjE exE)
    assume a: "goes_on (task_guild k) k' (rw_svc w) m"
    have s: "session_of h m = session_of h (rw_svc w)" "cleaned m = cleaned (rw_svc w)" for h
      using a by (auto simp: goes_on_def quiet_def)
    have k': "\<And>k. k' = Some k \<Longrightarrow> in_flight k" "\<exists>k. k' = Some k" using a by (auto simp: goes_on_def)
    show ?thesis
    proof (rule token_inv_shrinks [OF inv])
      show "holder w u g ids guest" if "holder w' u g ids guest" for u g ids guest
        using that [unfolded phase(1)] by (rule holder_task) (use s k' in auto)
      show "starting_task w' u \<Longrightarrow> starting_task w u" for u
        using stt by (cases "u = t") (auto simp: phase(1) starting_task_def)
      show "u \<in> cleaned (rw_svc w') \<Longrightarrow> u \<in> cleaned (rw_svc w) \<or> u < rw_next w \<and> \<not> starting_task w' u" for u
        by (simp add: phase(1) s(2))
      show "dom (rw_tasks w') \<subseteq> dom (rw_tasks w)" using phase(2) k'(2) by (auto simp: phase(1))
      show "rw_next w' = rw_next w" by (simp add: phase(1))
    qed
  next
    assume a: "gives_up (at_token at) (task_guild k) k' (rw_svc w) m"
    then obtain m0 where m: "m = guard_end (task_guild k) m0" "quiet (task_guild k) (rw_svc w) m0"
      and cl0: "cleaned m0 = cleaned (rw_svc w) \<or> cleaned m0 = insert t (cleaned (rw_svc w))" and k': "k' = None"
      unfolding gives_up_def phase(3) by blast
    have s: "session_of h m = session_of h (rw_svc w)" for h using m by (simp add: quiet_def)
    have cl: "cleaned m \<subseteq> insert t (cleaned (rw_svc w))" using cl0 m(1) by auto
    show ?thesis
    proof (rule token_inv_shrinks [OF inv])
      show "holder w u g ids guest" if "holder w' u g ids guest" for u g ids guest
        using that [unfolded phase(1)] by (rule holder_task) (use s k' in auto)
      show "starting_task w' u \<Longrightarrow> starting_task w u" for u
        by (auto simp: phase(1) starting_task_def k' split: if_splits)
      show "u \<in> cleaned (rw_svc w') \<Longrightarrow> u \<in> cleaned (rw_svc w) \<or> u < rw_next w \<and> \<not> starting_task w' u" for u
        using cl tn by (auto simp: phase(1) starting_task_def k')
    qed (auto simp: phase(1) k' split: if_splits)
  next
    fix se assume c: "commits (at_token at) (task_guild k) k' (rw_svc w) m se"
    note c' = c [unfolded phase(3)]
    have cl: "cleaned m = cleaned (rw_svc w)" and k': "\<And>k. k' = Some k \<Longrightarrow> \<not> in_flight k"
      using c by (auto simp: commits_def committed_def)
    have st: "starting_task w' u \<Longrightarrow> starting_task w u \<and> u \<noteq> t" for u
      using k' by (auto simp: phase(1) starting_task_def split: if_splits)
    have h: "holder w u g ids guest \<or> u = t \<and> g = task_guild k \<and> ids = session_ids se \<and> guest = gs_IsGuest se"
      if "holder w' u g ids guest" for u g ids guest
      using that unfolding phase(1) by (rule holder_commit [OF _ c'])
    have not_t: "\<not> holder w t g ids guest" for g ids guest using token_invD(1) [OF inv] stt by blast
    show ?thesis unfolding token_inv_def
    proof (intro conjI allI impI ballI)
      fix u g ids guest assume "holder w' u g ids guest"
      from h [OF this] show "u < rw_next w'" "\<not> starting_task w' u"
        using token_invD(1) [OF inv, of u] st [of u] tn by (auto simp: phase(1))
    next
      fix u assume "u \<in> cleaned (rw_svc w')"
      then show "u < rw_next w'" "\<not> starting_task w' u"
        using token_invD(2) [OF inv, of u] st [of u] by (auto simp: phase(1) cl)
    next
      fix u k assume "rw_tasks w' u = Some k"
      then show "u < rw_next w'" using token_invD(3) [OF inv] tn by (auto simp: phase(1) split: if_splits)
    next
      fix u g ids guest g' ids' guest' assume "holder w' u g ids guest" "holder w' u g' ids' guest'"
      from h [OF this(1)] h [OF this(2)] show "g = g'" "ids = ids'" "guest = guest'"
        using token_invD(4) [OF inv, of u] not_t by blast+
    qed
  qed
next
  case (stop_begins g want r m)
  from stop_begins(2) show ?thesis
  proof (cases rule: stop_take_cases)
    case (1 se)
    have "holder w' u g' ids guest \<Longrightarrow> holder w u g' ids guest" for u g' ids guest
      using 1 by (auto simp: stop_begins(1) holder_def session_of_none split: if_splits)
    then show ?thesis by (rule token_inv_shrinks [OF inv]) (use 1 in \<open>auto simp: stop_begins(1) starting_task_def\<close>)
  next
    case 2
    have st: "rw_stops w' = rw_stops w" "rw_tasks w' = rw_tasks w" "rw_next w' = rw_next w"
      using 2(1) by (auto simp: stop_begins(1) split: stop_result.split)
    have "session_of h (rw_svc w') = session_of h (rw_svc w)" "cleaned (rw_svc w') = cleaned (rw_svc w)" for h
      using 2(2) by (auto simp: stop_begins(1))
    then show ?thesis by (intro token_inv_shrinks [OF inv]) (auto simp: holder_def starting_task_def st)
  qed
next
  case (stop_ends xs g se ys)
  have "holder w (gs_token se) g (session_ids se) (gs_IsGuest se)"
    using stop_ends(2) by (auto simp: holder_def)
  note t = token_invD(1) [OF inv this]
  have "holder w' u g' ids guest \<Longrightarrow> holder w u g' ids guest" for u g' ids guest
    using stop_ends(2) by (auto simp: stop_ends(1) holder_def stop_finish_frame)
  then show ?thesis
    by (rule token_inv_shrinks [OF inv]) (use t in \<open>auto simp: stop_ends(1) starting_task_def stop_finish_frame\<close>)
next
  case (guest_ends t g i js own)
  have "holder w' u g' ids guest \<Longrightarrow> holder w u g' ids guest" for u g' ids guest
    using guest_ends(2) by (auto simp: guest_ends(1) holder_def guest_end_frame split: if_splits)
  then show ?thesis
    by (rule token_inv_shrinks [OF inv])
      (use guest_ends(2) in \<open>auto simp: guest_ends(1) starting_task_def guest_end_frame split: if_splits\<close>)
next
  case (guest_closes t g i js own)
  have "t < rw_next w" by (rule token_invD(3) [OF inv guest_closes(2)])
  moreover have "holder w' u g' ids guest \<Longrightarrow> holder w u g' ids guest" for u g' ids guest
    using guest_closes(2) by (auto simp: guest_closes(1) holder_def guest_teardown_frame split: if_splits)
  ultimately show ?thesis
    by (intro token_inv_shrinks [OF inv]) (auto simp: guest_closes(1) starting_task_def guest_teardown_frame split: if_splits)
next
  case (forgotten g)
  have "holder w' u g' ids guest \<Longrightarrow> holder w u g' ids guest" for u g' ids guest
    by (auto simp: forgotten(1) holder_def forget_status_frame split: if_splits)
  then show ?thesis
    by (rule token_inv_shrinks [OF inv]) (simp_all add: forgotten(1) starting_task_def forget_status_frame)
next
  case (speaker_command op)
  then show ?thesis
    by (intro token_inv_shrinks [OF inv]) (auto simp: holder_def starting_task_def do_speaker_frame)
next
  case (store_command s)
  then show ?thesis
    by (intro token_inv_shrinks [OF inv]) (auto simp: holder_def starting_task_def)
qed

lemma raid_reach_tokens:
  "raid_reach orderly S dc w0 w \<Longrightarrow> token_inv w0 \<Longrightarrow> token_inv w"
  by (induction rule: raid_reach.induct) (auto intro: raid_step_tokens)

section \<open>Routers and bots of an orderly run\<close>

definition router_inv :: "'s raid_world \<Rightarrow> bool" where
  "router_inv w \<longleftrightarrow> (\<forall>g. activeRouters (rw_svc w) g =
     (case session_of g (rw_svc w) of None \<Rightarrow> None | Some se \<Rightarrow> gs_AutoRouter se))"

text \<open>Somebody will make the bot leave: a start, the session of the guild, a stop or a guest's goroutine.\<close>

definition answered :: "discord \<Rightarrow> 's raid_world \<Rightarrow> snowflake \<Rightarrow> snowflake \<Rightarrow> bool" where
  "answered dc w g b \<longleftrightarrow>
     (\<exists>t k. rw_tasks w t = Some k \<and> task_guild k = g \<and> b \<in> task_bots dc (t \<in> cleaned (rw_svc w)) k) \<or>
     (\<exists>se. (session_of g (rw_svc w) = Some se \<or> (g, se) \<in> set (rw_stops w)) \<and>
        b \<in> session_bots dc (cleaned (rw_svc w)) se)"

definition voice_inv :: "discord \<Rightarrow> 's raid_world \<Rightarrow> bool" where
  "voice_inv dc w \<longleftrightarrow> (\<forall>g. \<forall>b \<in> voice_of g (rw_svc w). answered dc w g b)"

lemma raid_step_routers:
  assumes "raid_step True S dc w w'" and inv: "router_inv w"
  shows "router_inv w'"
  using assms(1)
proof cases
  case (begin_start g m k mode code)
  then show ?thesis using inv by (auto simp: router_inv_def tryBegin_def split: if_splits)
next
  case (phase t k "at" k' m)
  from advance_fate [OF phase(5)] show ?thesis
  proof (elim disjE exE)
    assume "goes_on (task_guild k) k' (rw_svc w) m"
    then show ?thesis using inv by (simp add: phase(1) router_inv_def goes_on_def quiet_def)
  next
    assume "gives_up (at_token at) (task_guild k) k' (rw_svc w) m"
    then obtain m0 where "m = guard_end (task_guild k) m0" "quiet (task_guild k) (rw_svc w) m0"
      unfolding gives_up_def by blast
    then show ?thesis using inv by (simp add: phase(1) router_inv_def quiet_def)
  next
    fix se assume "commits (at_token at) (task_guild k) k' (rw_svc w) m se"
    then obtain m0 where "m = guard_end (task_guild k) m0" "committed (task_guild k) se (rw_svc w) m0"
      unfolding commits_def by blast
    then show ?thesis using inv by (auto simp: phase(1) router_inv_def committed_def)
  qed
next
  case (stop_begins g want r m)
  from stop_begins(2) show ?thesis
  proof (cases rule: stop_take_cases)
    case (1 se)
    then show ?thesis using inv
      by (simp add: stop_begins(1) router_inv_def session_of_none) (simp add: clearActiveRouter_def)
  next
    case 2
    then show ?thesis using inv by (auto simp: stop_begins(1) router_inv_def)
  qed
next
  case (forgotten g)
  then have "session_of g (rw_svc w) = None" by simp
  then show ?thesis using inv by (simp add: forgotten(1) router_inv_def forget_status_frame)
qed (use inv in \<open>simp_all add: router_inv_def stop_finish_frame guest_end_frame guest_teardown_frame do_speaker_frame\<close>)

lemma answered_session:
  "session_of g (rw_svc w) = Some se \<or> (g, se) \<in> set (rw_stops w) \<Longrightarrow>
   b \<in> session_bots dc (cleaned (rw_svc w)) se \<Longrightarrow> answered dc w g b"
  by (auto simp: answered_def)

lemma answered_task:
  "rw_tasks w t = Some k \<Longrightarrow> task_guild k = g \<Longrightarrow> b \<in> task_bots dc (t \<in> cleaned (rw_svc w)) k \<Longrightarrow> answered dc w g b"
  by (auto simp: answered_def)

text \<open>If sessions, stops and tasks stay and only started tasks are cleaned up, everybody else still is answered for.\<close>

lemma answered_stays:
  assumes "answered dc w g b"
    and "\<And>se. session_of g (rw_svc w) = Some se \<Longrightarrow> session_of g (rw_svc w') = Some se"
    and "rw_stops w' = rw_stops w"
    and "\<And>t k. rw_tasks w t = Some k \<Longrightarrow> task_guild k = g \<Longrightarrow> b \<in> task_bots dc (t \<in> cleaned (rw_svc w)) k \<Longrightarrow>
      rw_tasks w' t = Some k"
    and "\<And>t. t \<in> cleaned (rw_svc w') \<Longrightarrow> t \<in> cleaned (rw_svc w) \<or> starting_task w t"
    and tok: "token_inv w"
  shows "answered dc w' g b"
proof -
  have cl: "u \<in> cleaned (rw_svc w') \<Longrightarrow> u \<in> cleaned (rw_svc w)" if "holder w u g' ids guest" for u g' ids guest
    using assms(5) [of u] token_invD(1) [OF tok that] by blast
  from assms(1) show ?thesis unfolding answered_def [of dc w]
  proof (elim disjE exE conjE)
    fix t k assume k: "rw_tasks w t = Some k" "task_guild k = g" "b \<in> task_bots dc (t \<in> cleaned (rw_svc w)) k"
    have "b \<in> task_bots dc (t \<in> cleaned (rw_svc w')) k"
    proof (cases "in_flight k")
      case True
      then show ?thesis using k(3) by (cases k) auto
    next
      case False
      then obtain i js own where "k = GuestRunning g i js own \<or> k = GuestClosing g i js own"
        using k(2) by (cases k) auto
      then have "holder w t g (joined_ids js) True" using k(1) unfolding holder_def by blast
      from cl [OF this] show ?thesis using k(3) False by (cases k) (auto split: if_splits)
    qed
    then show ?thesis by (rule answered_task [OF assms(4) [OF k] k(2)])
  next
    fix se assume se: "session_of g (rw_svc w) = Some se" "b \<in> session_bots dc (cleaned (rw_svc w)) se"
    have "holder w (gs_token se) g (session_ids se) (gs_IsGuest se)" using se(1) by (auto simp: holder_def)
    from cl [OF this] have "b \<in> session_bots dc (cleaned (rw_svc w')) se" using se(2) by (auto simp: session_bots_def split: if_splits)
    then show ?thesis using assms(2) [OF se(1)] by (auto intro: answered_session)
  next
    fix se assume se: "(g, se) \<in> set (rw_stops w)" "b \<in> session_bots dc (cleaned (rw_svc w)) se"
    have "holder w (gs_token se) g (session_ids se) (gs_IsGuest se)" using se(1) by (auto simp: holder_def)
    from cl [OF this] have "b \<in> session_bots dc (cleaned (rw_svc w')) se" using se(2) by (auto simp: session_bots_def split: if_splits)
    then show ?thesis using se(1) assms(3) by (auto intro: answered_session)
  qed
qed

text \<open>A finished session's cleanup takes its own bots away and leaves everybody else answered for.\<close>

lemma answered_cleanup:
  assumes ans: "answered dc w g b" and tok: "token_inv w" and hold: "holder w t0 g0 ids0 guest0"
    and gone: "g = g0 \<Longrightarrow> t0 \<notin> cleaned (rw_svc w) \<Longrightarrow> b \<notin> ids0"
    and ses: "\<And>se. session_of g (rw_svc w) = Some se \<Longrightarrow> session_of g (rw_svc w') = Some se"
    and stops: "\<And>se. (g, se) \<in> set (rw_stops w) \<Longrightarrow> b \<in> session_bots dc (cleaned (rw_svc w)) se \<Longrightarrow> (g, se) \<in> set (rw_stops w')"
    and tasks: "\<And>t k. rw_tasks w t = Some k \<Longrightarrow> task_guild k = g \<Longrightarrow> b \<in> task_bots dc (t \<in> cleaned (rw_svc w)) k \<Longrightarrow>
      rw_tasks w' t = Some k"
    and cl: "cleaned (rw_svc w') = insert t0 (cleaned (rw_svc w))"
  shows "answered dc w' g b"
proof -
  have others: "u \<noteq> t0 \<or> g = g0 \<and> ids = ids0" if "holder w u g ids guest" for u ids guest
    using token_invD(4) [OF tok hold] that by blast
  have session: "b \<in> session_bots dc (cleaned (rw_svc w')) se"
    if "session_of g (rw_svc w) = Some se \<or> (g, se) \<in> set (rw_stops w)" "b \<in> session_bots dc (cleaned (rw_svc w)) se" for se
  proof -
    have "holder w (gs_token se) g (session_ids se) (gs_IsGuest se)" using that(1) by (auto simp: holder_def)
    from others [OF this] show ?thesis using that(2) gone by (auto simp: session_bots_def cl split: if_splits)
  qed
  from ans show ?thesis unfolding answered_def [of dc w]
  proof (elim disjE exE conjE)
    fix t k assume k: "rw_tasks w t = Some k" "task_guild k = g" "b \<in> task_bots dc (t \<in> cleaned (rw_svc w)) k"
    have "b \<in> task_bots dc (t \<in> cleaned (rw_svc w')) k"
    proof (cases "in_flight k")
      case True
      then show ?thesis using k(3) by (cases k) auto
    next
      case False
      then obtain i js own where r: "k = GuestRunning g i js own \<or> k = GuestClosing g i js own"
        using k(2) by (cases k) auto
      then have "holder w t g (joined_ids js) True" using k(1) unfolding holder_def by blast
      from others [OF this] show ?thesis using k(3) r gone by (auto simp: cl split: if_splits)
    qed
    then show ?thesis by (rule answered_task [OF tasks [OF k] k(2)])
  next
    fix se assume se: "session_of g (rw_svc w) = Some se" "b \<in> session_bots dc (cleaned (rw_svc w)) se"
    then show ?thesis using session [of se] ses [OF se(1)] by (auto intro: answered_session)
  next
    fix se assume se: "(g, se) \<in> set (rw_stops w)" "b \<in> session_bots dc (cleaned (rw_svc w)) se"
    then show ?thesis using session [of se] stops [OF se] by (auto intro: answered_session)
  qed
qed

lemma phase_voice:
  assumes step: "rw_tasks w t = Some k" "at_token at = t" "kind_world dc at (rw_svc w)"
      "advance S dc at k (rw_svc w) = Some (k', m)"
    and inv: "voice_inv dc w" and tok: "token_inv w"
  shows "voice_inv dc (w\<lparr>rw_svc := m, rw_tasks := (rw_tasks w)(t := k')\<rparr>)"
  unfolding voice_inv_def
proof (intro allI ballI)
  let ?w = "w\<lparr>rw_svc := m, rw_tasks := (rw_tasks w)(t := k')\<rparr>"
  fix g b assume b: "b \<in> voice_of g (rw_svc ?w)"
  have fl: "in_flight k" using step(4) by (cases k) auto
  then have stt: "starting_task w t" using step(1) by (auto simp: starting_task_def)
  have tcl: "t \<notin> cleaned (rw_svc w)" using token_invD(2) [OF tok, of t] stt by blast
  note fate = advance_fate [OF step(4), unfolded step(2)]
  have cl: "cleaned m \<subseteq> insert t (cleaned (rw_svc w))"
    using fate unfolding goes_on_def gives_up_def commits_def committed_def by fastforce
  have ses: "session_of h m = Some se" if "session_of h (rw_svc w) = Some se" for h se
    using fate that unfolding goes_on_def gives_up_def commits_def committed_def quiet_def by fastforce
  have stays: "answered dc ?w g b"
    if "b \<in> voice_of g (rw_svc w)" "g = task_guild k \<Longrightarrow> b \<notin> task_bots dc False k"
  proof (rule answered_stays [OF _ _ _ _ _ tok])
    show "answered dc w g b" using inv that(1) by (simp add: voice_inv_def)
    show "rw_tasks ?w u = Some k2"
      if "rw_tasks w u = Some k2" "task_guild k2 = g" "b \<in> task_bots dc (u \<in> cleaned (rw_svc w)) k2" for u k2
    proof (cases "u = t")
      case True
      then have "k2 = k" "b \<in> task_bots dc False k" using that step(1) tcl by simp_all
      then show ?thesis using that(2) \<open>g = task_guild k \<Longrightarrow> b \<notin> task_bots dc False k\<close> by simp
    qed (use that in simp)
  qed (use ses cl stt in auto)
  show "answered dc ?w g b"
  proof (cases "g = task_guild k")
    case False
    then have "voice_of g m = voice_of g (rw_svc w)"
      using fate unfolding goes_on_def gives_up_def commits_def committed_def quiet_def by auto
    then show ?thesis using stays b False by simp
  next
    case True
    have tcl': "t \<notin> cleaned m" if "k' = Some k2" for k2
      using fate that tcl unfolding goes_on_def gives_up_def commits_def committed_def by auto
    have guild: "task_guild k2 = g" if "k' = Some k2" for k2
      using fate that True unfolding goes_on_def gives_up_def commits_def by auto
    have "at_token at \<notin> cleaned (rw_svc w)" "b \<in> voice_of (task_guild k) m" using tcl step(2) b True by simp_all
    from advance_voice [OF step(4,3) this, of False] show ?thesis
    proof (elim disjE exE conjE)
      assume "b \<in> voice_of (task_guild k) (rw_svc w)" "b \<notin> task_bots dc False k"
      then show ?thesis using stays True by simp
    next
      fix k2 assume k2: "k' = Some k2" "b \<in> task_bots dc False k2"
      show ?thesis
        by (rule answered_task [of _ t k2]) (use k2 guild [OF k2(1)] tcl' [OF k2(1)] in simp_all)
    next
      fix se assume "session_of (task_guild k) m = Some se" "b \<in> session_bots dc (cleaned m) se"
      then show ?thesis using True by (intro answered_session) simp_all
    qed
  qed
qed

lemma raid_step_voice:
  assumes "raid_step True S dc w w'" and inv: "voice_inv dc w" and tok: "token_inv w"
  shows "voice_inv dc w'"
  using assms(1)
proof cases
  case (begin_start g m k mode code)
  have m: "m = (rw_svc w)\<lparr>starting := (starting (rw_svc w))(g \<mapsto> rw_next w)\<rparr>"
    using begin_start(2) by (auto simp: tryBegin_def split: if_splits)
  have "rw_tasks w' t = Some k2" if "rw_tasks w t = Some k2" for t k2
    using token_invD(3) [OF tok that] that by (simp add: begin_start(1))
  note tasks = this
  show ?thesis unfolding voice_inv_def
  proof (intro allI ballI)
    fix h b assume "b \<in> voice_of h (rw_svc w')"
    then have "answered dc w h b" using inv by (simp add: begin_start(1) m voice_inv_def)
    then show "answered dc w' h b"
      by (rule answered_stays [OF _ _ _ _ _ tok]) (use tasks in \<open>simp_all add: begin_start(1) m\<close>)
  qed
next
  case (phase t k "at" k' m)
  then show ?thesis using phase_voice [OF phase(2,3) _ phase(5) inv tok] by simp
next
  case (stop_begins g want r m)
  from stop_begins(2) show ?thesis
  proof (cases rule: stop_take_cases)
    case (1 se)
    have "answered dc w' h b" if "answered dc w h b" for h b
      using that 1 by (auto simp: answered_def stop_begins(1) session_of_none)
    then show ?thesis using inv 1 by (simp add: voice_inv_def stop_begins(1))
  next
    case 2
    have st: "rw_stops w' = rw_stops w" "rw_tasks w' = rw_tasks w"
      using 2(1) by (auto simp: stop_begins(1) split: stop_result.split)
    have "answered dc w' h b" if "answered dc w h b" for h b
      using that 2(2) by (auto simp: answered_def st) (auto simp: stop_begins(1))
    then show ?thesis using inv 2(2) by (auto simp: voice_inv_def stop_begins(1))
  qed
next
  case (stop_ends xs g se ys)
  have hold: "holder w (gs_token se) g (session_ids se) (gs_IsGuest se)"
    using stop_ends(2) by (auto simp: holder_def)
  show ?thesis unfolding voice_inv_def
  proof (intro allI ballI)
    fix h b assume b: "b \<in> voice_of h (rw_svc w')"
    have bw: "b \<in> voice_of h (rw_svc w)" "h = g \<Longrightarrow> b \<notin> session_bots dc (cleaned (rw_svc w)) se"
      using b by (auto simp: stop_ends(1) stop_finish_frame split: if_splits)
    show "answered dc w' h b"
      by (rule answered_cleanup [OF _ tok hold])
        (use inv bw stop_ends(2) in \<open>auto simp: voice_inv_def stop_ends(1) stop_finish_frame session_bots_def\<close>)
  qed
next
  case (guest_ends t g i js own)
  have hold: "holder w t g (joined_ids js) True" using guest_ends(2) by (auto simp: holder_def)
  have "answered dc w' h b" if "answered dc w h b" for h b
    using that unfolding answered_def [of dc w]
  proof (elim disjE exE conjE)
    fix u k assume u: "rw_tasks w u = Some k" "task_guild k = h" "b \<in> task_bots dc (u \<in> cleaned (rw_svc w)) k"
    show ?thesis
    proof (cases "u = t")
      case True
      then show ?thesis using u guest_ends(2)
        by (intro answered_task [of _ t "GuestClosing g i js own"]) (auto simp: guest_ends(1) guest_end_frame split: if_splits)
    next
      case False
      then show ?thesis using u by (intro answered_task [of _ u k]) (auto simp: guest_ends(1) guest_end_frame)
    qed
  next
    fix se assume se: "session_of h (rw_svc w) = Some se" "b \<in> session_bots dc (cleaned (rw_svc w)) se"
    show ?thesis
    proof (cases "h = g")
      case False
      then show ?thesis using se by (intro answered_session [of _ _ se]) (auto simp: guest_ends(1) guest_end_frame)
    next
      case True
      then have t: "gs_token se = t" using guest_ends(4) se(1) by (simp add: own_session_def)
      then have "holder w t g (session_ids se) (gs_IsGuest se)" using se(1) True by (auto simp: holder_def)
      from token_invD(4) [OF tok hold this] have "session_ids se = joined_ids js" "gs_IsGuest se" by simp_all
      then show ?thesis using se(2) t True
        by (intro answered_task [of _ t "GuestClosing g i js own"])
          (auto simp: guest_ends(1) guest_end_frame session_bots_def split: if_splits)
    qed
  next
    fix se assume "(h, se) \<in> set (rw_stops w)" "b \<in> session_bots dc (cleaned (rw_svc w)) se"
    then show ?thesis by (intro answered_session [of _ _ se]) (auto simp: guest_ends(1) guest_end_frame)
  qed
  then show ?thesis using inv by (simp add: voice_inv_def guest_ends(1) guest_end_frame)
next
  case (guest_closes t g i js own)
  have hold: "holder w t g (joined_ids js) True" using guest_closes(2) by (auto simp: holder_def)
  show ?thesis unfolding voice_inv_def
  proof (intro allI ballI)
    fix h b assume b: "b \<in> voice_of h (rw_svc w')"
    have bw: "b \<in> voice_of h (rw_svc w)"
      "h = g \<Longrightarrow> b \<notin> task_bots dc (t \<in> cleaned (rw_svc w)) (GuestClosing g i js own)"
      using b by (auto simp: guest_closes(1) guest_teardown_frame split: if_splits)
    show "answered dc w' h b"
      by (rule answered_cleanup [OF _ tok hold])
        (use inv bw guest_closes(2) in \<open>auto simp: voice_inv_def guest_closes(1) guest_teardown_frame\<close>)
  qed
next
  case (forgotten g)
  then have "session_of g (rw_svc w) = None" by simp
  then have "answered dc w' h b \<longleftrightarrow> answered dc w h b" for h b
    by (auto simp: forgotten(1) answered_def forget_status_frame)
  then show ?thesis using inv by (simp add: voice_inv_def forgotten(1) forget_status_frame)
next
  case (speaker_command op)
  have "answered dc w' h b \<longleftrightarrow> answered dc w h b" for h b
    by (simp add: speaker_command answered_def do_speaker_frame)
  then show ?thesis using inv by (simp add: voice_inv_def speaker_command do_speaker_frame)
next
  case (store_command s)
  have "answered dc w' h b \<longleftrightarrow> answered dc w h b" for h b
    by (simp add: store_command answered_def)
  then show ?thesis using inv by (simp add: voice_inv_def store_command)
qed

section \<open>What a run guarantees\<close>

text \<open>The service as it is created: nothing runs.\<close>

lemma world0_invs:
  "guard_inv (raid_world0 (new_service s h))" "token_inv (raid_world0 (new_service s h))"
  "router_inv (raid_world0 (new_service s h))" "voice_inv dc (raid_world0 (new_service s h))"
  by (simp_all add: raid_world0_def new_service_def guard_inv_def token_inv_def router_inv_def voice_inv_def
      holder_def session_of_def voice_of_def)

text \<open>
  C1. At most one start per guild: however starts, stops and teardowns interleave, two starts of
  one guild are never in flight together, and the guard holds exactly the start that is, from its
  admission until it has returned.
\<close>

theorem one_start_per_guild:
  assumes "raid_reach orderly S dc (raid_world0 (new_service s h)) w"
  shows "(starting (rw_svc w) g = Some t \<longleftrightarrow>
       (\<exists>k. rw_tasks w t = Some k \<and> in_flight k \<and> task_guild k = g)) \<and>
    (rw_tasks w t = Some k \<and> in_flight k \<and> rw_tasks w t' = Some k' \<and> in_flight k' \<and> task_guild k = task_guild k' \<longrightarrow> t = t')"
proof -
  have g: "starting (rw_svc w) h = Some u \<longleftrightarrow> (\<exists>k. rw_tasks w u = Some k \<and> in_flight k \<and> task_guild k = h)" for h u
    using raid_reach_guard [OF assms world0_invs(1)] by (simp add: guard_inv_def)
  have "t = t'" if "rw_tasks w t = Some k" "in_flight k" "rw_tasks w t' = Some k'" "in_flight k'" "task_guild k = task_guild k'"
  proof -
    have "starting (rw_svc w) (task_guild k) = Some t" "starting (rw_svc w) (task_guild k) = Some t'"
      using g that by auto
    then show ?thesis by simp
  qed
  with g show ?thesis by blast
qed

lemma raid_reach_invs:
  "raid_reach True S dc w0 w \<Longrightarrow> token_inv w0 \<Longrightarrow> router_inv w0 \<Longrightarrow> voice_inv dc w0 \<Longrightarrow>
   token_inv w \<and> router_inv w \<and> voice_inv dc w"
  by (induction rule: raid_reach.induct) (blast intro: raid_step_tokens raid_step_routers raid_step_voice)+

text \<open>
  C29. The published routers are those of the committed sessions: in an orderly run, voice events of a
  guild reach exactly the router of its session, and no router without a session.
\<close>

theorem routers_mirror_sessions:
  assumes "raid_reach True S dc (raid_world0 (new_service s h)) w"
  shows "AutoRoute g (rw_svc w) = (case session_of g (rw_svc w) of None \<Rightarrow> None | Some se \<Rightarrow> gs_AutoRouter se)"
  using raid_reach_invs [OF assms world0_invs(2,3,4)] by (simp add: router_inv_def AutoRoute_def)


section \<open>A run\<close>

text \<open>One raid, started and stopped; the next phase of task 0 is \<open>demo_phase\<close>.\<close>

definition kind_attempt :: attempt where
  "kind_attempt = (good_attempt 0)\<lparr>at_dead_leave := (\<lambda>_. True)\<rparr>"

definition demo_phase :: "InMemoryStore raid_world \<Rightarrow> InMemoryStore raid_world" where
  "demo_phase w = (case rw_tasks w 0 of None \<Rightarrow> w | Some k \<Rightarrow>
     (case advance memory_store small_world kind_attempt k (rw_svc w) of None \<Rightarrow> w
      | Some (k', m) \<Rightarrow> w\<lparr>rw_svc := m, rw_tasks := (rw_tasks w)(0 := k')\<rparr>))"

definition demo_admitted :: "InMemoryStore raid_world" where
  "demo_admitted = (let w = raid_world0 (new_service raid_store (\<lambda>_. newSession [] 0 []))
     in w\<lparr>rw_svc := (rw_svc w)\<lparr>starting := (starting (rw_svc w))(9 \<mapsto> 0)\<rparr>,
          rw_tasks := (rw_tasks w)(0 \<mapsto> HostAdmitted 9 RaidModeOneCaller), rw_next := 1\<rparr>)"

definition demo_up :: "InMemoryStore raid_world" where
  "demo_up = demo_phase (demo_phase (demo_phase demo_admitted))"

definition demo_taken :: "InMemoryStore raid_world" where
  "demo_taken = (case stop_take 9 None (rw_svc demo_up) of
     (Taken se, m) \<Rightarrow> demo_up\<lparr>rw_svc := m, rw_stops := (9, se) # rw_stops demo_up\<rparr> | (r, m) \<Rightarrow> demo_up)"

definition demo_down :: "InMemoryStore raid_world" where
  "demo_down = (case rw_stops demo_taken of [] \<Rightarrow> demo_taken
     | x # xs \<Rightarrow> demo_taken\<lparr>rw_svc := stop_finish small_world (fst x) (snd x) (rw_svc demo_taken), rw_stops := xs\<rparr>)"

lemma demo_phase_reach:
  assumes "raid_reach True memory_store small_world w0 w"
  shows "raid_reach True memory_store small_world w0 (demo_phase w)"
proof (cases "rw_tasks w 0")
  case None
  then show ?thesis using assms by (simp add: demo_phase_def)
next
  case (Some k)
  have kind: "kind_world small_world kind_attempt (rw_svc w)" "at_token kind_attempt = 0"
    by (simp_all add: kind_world_def leaves_work_def kind_attempt_def good_attempt_def)
  show ?thesis
  proof (cases "advance memory_store small_world kind_attempt k (rw_svc w)")
    case None
    then show ?thesis using assms Some by (simp add: demo_phase_def)
  next
    case adv: (Some km)
    then have "advance memory_store small_world kind_attempt k (rw_svc w) = Some (fst km, snd km)" by simp
    from reach_step [OF assms phase [OF Some kind(2) _ this]] show ?thesis
      using kind(1) Some adv by (simp add: demo_phase_def split_def)
  qed
qed

lemma demo_admitted_reach:
  "raid_reach orderly memory_store small_world (raid_world0 (new_service raid_store (\<lambda>_. newSession [] 0 []))) demo_admitted"
proof -
  let ?w0 = "raid_world0 (new_service raid_store (\<lambda>_. newSession [] 0 []))"
  have t: "tryBegin 9 (rw_next ?w0) (rw_svc ?w0) = Some ((rw_svc ?w0)\<lparr>starting := (starting (rw_svc ?w0))(9 \<mapsto> 0)\<rparr>)"
    by (simp add: tryBegin_def raid_world0_def new_service_def)
  have n: "rw_next ?w0 = 0" by (simp add: raid_world0_def)
  from reach_step [OF reach_start begin_start [OF t, of "HostAdmitted 9 RaidModeOneCaller" RaidModeOneCaller "[]"]]
  show ?thesis by (simp add: demo_admitted_def Let_def n)
qed

lemma demo_reach:
  "raid_reach True memory_store small_world (raid_world0 (new_service raid_store (\<lambda>_. newSession [] 0 []))) demo_up"
  "raid_reach True memory_store small_world (raid_world0 (new_service raid_store (\<lambda>_. newSession [] 0 []))) demo_down"
proof -
  let ?w0 = "raid_world0 (new_service raid_store (\<lambda>_. newSession [] 0 []))"
  show u: "raid_reach True memory_store small_world ?w0 demo_up"
    unfolding demo_up_def by (intro demo_phase_reach demo_admitted_reach)
  have tk: "raid_reach True memory_store small_world ?w0 demo_taken"
  proof (cases "\<exists>se m. stop_take 9 None (rw_svc demo_up) = (Taken se, m)")
    case True
    then obtain se m where st: "stop_take 9 None (rw_svc demo_up) = (Taken se, m)" by blast
    from reach_step [OF u stop_begins [OF st]] show ?thesis by (simp add: demo_taken_def st)
  next
    case False
    then have "demo_taken = demo_up" by (auto simp: demo_taken_def split: prod.split stop_result.split)
    then show ?thesis using u by simp
  qed
  show "raid_reach True memory_store small_world ?w0 demo_down"
  proof (cases "rw_stops demo_taken")
    case Nil
    then show ?thesis using tk by (simp add: demo_down_def)
  next
    case (Cons x xs)
    then have "rw_stops demo_taken = [] @ (fst x, snd x) # xs" by simp
    from reach_step [OF tk stop_ends [OF this]] show ?thesis using Cons by (simp add: demo_down_def)
  qed
qed

lemma one_start_per_guild_witness:
  "starting (rw_svc demo_admitted) 9 = Some 0"
proof -
  have "rw_tasks demo_admitted 0 = Some (HostAdmitted 9 RaidModeOneCaller)"
    by (simp add: demo_admitted_def Let_def)
  then show ?thesis using one_start_per_guild [OF demo_admitted_reach [of False], of 9 0] by auto
qed

lemma routers_mirror_sessions_witness: "AutoRoute 9 (rw_svc demo_up) = Some 0"
proof -
  have "map_option gs_AutoRouter (session_of 9 (rw_svc demo_up)) = Some (Some 0)" by code_simp
  then show ?thesis using routers_mirror_sessions [OF demo_reach(1), of 9] by (auto split: option.splits)
qed


section \<open>A stop that overlaps the next start\<close>

lemma start_commits_session:
  assumes "StartVoiceRaid S dc at g mode m = Some (Inr code, m')"
  shows "\<exists>i. session_of g m' \<noteq> None \<and> byGuild (sv_sessions m') g = Some i \<and>
    s_Code (session_heap (sv_sessions m') i) = code"
  using assms
proof (cases rule: StartVoiceRaid_cases)
  case (4 js m2 c m3 m4)
  from 4(5) show ?thesis
  proof (cases rule: host_commit_cases)
    case 1
    then show ?thesis by auto
  next
    case (2 s' code' am i b m5)
    let ?se = "built_session (at_token at) code' i js b"
    have "committed g ?se (m3\<lparr>sv_store := s', sv_sessions := am\<rparr>) m5" by (rule commitSession_committed [OF 2(6)])
    then have ses: "session_of g m' = Some ?se" by (simp add: committed_def 4(2) 2(7))
    have "sv_sessions m5 = am" using 2(6) by (auto simp: commitSession_Inr Let_def)
    then have reg: "byGuild (sv_sessions m') g = Some i" "s_Code (session_heap (sv_sessions m') i) = code"
      using Create_frame [OF 2(2)] 2(3)
      by (simp_all add: 4(2) 2(7) run_start_heap start_relay_ops_identity newSession_def)
    show ?thesis using ses reg by blast
  qed
qed simp_all

text \<open>
  C37. A stop does its slow part after it has given the session up, and holds no guard meanwhile: a
  start admitted then can commit first.  The stop then ends what the new raid uses as well:
  the guild has a session, but the owner bot and the shared speakers are out of voice, the relay
  code leads nowhere, and no bot can be reconnected with audio.
\<close>

theorem stop_overlapping_start_kills_it:
  assumes "raid_up dc g se m" and "stop_take g None m = (Taken se, m1)"
    and "StartVoiceRaid S dc at g mode m1 = Some (Inr code, m2)" and "gs_token se \<notin> cleaned m2"
  shows "session_of g (stop_finish dc g se m2) \<noteq> None \<and>
    voice_of g (stop_finish dc g se m2) \<inter> insert (ownerBotID dc) (session_ids se) = {} \<and>
    GetByGuild g (sv_sessions (stop_finish dc g se m2)) = None \<and>
    sessions (sv_sessions (stop_finish dc g se m2)) code = None \<and>
    (\<forall>b \<in> set (all_bots dc). (g, b) \<notin> appliers (stop_finish dc g se m2))"
proof -
  let ?m = "stop_finish dc g se m2" and ?c = "session_cleanup g se (m2\<lparr>cancelled := insert (gs_token se) (cancelled m2)\<rparr>)"
  have host: "\<not> gs_IsGuest se" using assms(1) by (simp add: raid_up_def)
  obtain i where i: "session_of g m2 \<noteq> None" "byGuild (sv_sessions m2) g = Some i"
    "s_Code (session_heap (sv_sessions m2) i) = code"
    using start_commits_session [OF assms(3)] by blast
  have reg: "byGuild (sv_sessions ?c) g = Some i" "s_Code (session_heap (sv_sessions ?c) i) = code"
    using i by (auto simp: session_cleanup_def on_registry_def on_session_def RemoveGuild_def Let_def)
  have am: "sv_sessions ?m = RemoveHost g (sv_sessions ?c)"
    using host by (simp add: stop_finish_def) (simp add: on_registry_def)
  have "voice_of g ?m = voice_of g m2 - insert (ownerBotID dc) (session_ids se)"
    using host assms(4) by (auto simp: stop_finish_frame session_bots_def)
  moreover have "\<forall>b \<in> set (all_bots dc). (g, b) \<notin> appliers ?m"
    by (simp add: stop_finish_def clearReconnectState_def Let_def)
  ultimately show ?thesis
    using i(1) RemoveHost_effect [OF reg(1)] reg(2) by (auto simp: am GetByGuild_def stop_finish_frame)
qed

lemma stop_overlapping_start_kills_it_witness:
  "\<exists>m :: InMemoryStore Service. session_of 9 m \<noteq> None \<and> voice_of 9 m \<inter> {30} = {} \<and> GetByGuild 9 (sv_sessions m) = None"
proof -
  obtain m where m: "StartVoiceRaid memory_store small_world (good_attempt 1) 9 RaidModeOneCaller raid_ready =
      Some (Inr ''ABCD2345'', m)" using good_start by (auto simp: outcome_def)
  from start_brings_raid_up [OF m raid_ready_facts(1,2,3)] raid_ready_speakers
  obtain se where up: "raid_up small_world 9 se m" and tok: "gs_token se = 1"
    by (auto simp: raid_ready_facts(6) good_attempt_def)
  obtain m1 where t: "stop_take 9 None m = (Taken se, m1)"
    using up stop_take_active [of 9 m se None] by (auto simp: raid_up_def)
  have "(case StartVoiceRaid memory_store small_world (good_attempt 1) 9 RaidModeOneCaller raid_ready of
      Some (Inr c, m) \<Rightarrow> (case StartVoiceRaid memory_store small_world (good_attempt 2) 9 RaidModeOneCaller (snd (stop_take 9 None m)) of
        Some (Inr code, m2) \<Rightarrow> Some (code, 1 \<in> cleaned m2) | _ \<Rightarrow> None) | _ \<Rightarrow> None) = Some (''ABCD2345'', False)"
    by code_simp
  then obtain m2 where m2: "StartVoiceRaid memory_store small_world (good_attempt 2) 9 RaidModeOneCaller m1 =
      Some (Inr ''ABCD2345'', m2)" "1 \<notin> cleaned m2"
    by (auto simp: m t simp del: One_nat_def split: option.splits sum.splits prod.splits)
  from stop_overlapping_start_kills_it [OF up t m2(1)] m2(2) tok show ?thesis
    by (intro exI [of _ "stop_finish small_world 9 se m2"]) (auto simp: small_world_def)
qed

end
