(* ===== verification/Reconnect.thy ===== *)
theory Reconnect
  imports RaidRun
begin

text \<open>
  Repairing a raid's voice connections: \<^verbatim>\<open>internal/manager/voice_reconnect.go\<close>,
  \<^verbatim>\<open>voice_raid_reconnect.go\<close>, \<^verbatim>\<open>voice_conn_setup.go\<close> and \<^verbatim>\<open>voice_ready_watch.go\<close>.

  A rejoin leaves, joins again (once more after a pause if that fails) and puts the bot's audio back on the
  new connection; it is cut into phases at the points where it waits, under a lock of its bot.  The
  pause of \<^verbatim>\<open>waitSpeakerConnDrained\<close> has no effect on the state and is left out, and a connection
  is identified by its guild and bot.
\<close>

section \<open>Stalled encryptors\<close>

definition stallRejoinBackoffMin :: duration where "stallRejoinBackoffMin = 30 * Second"
definition stallRejoinBackoffMax :: duration where "stallRejoinBackoffMax = 5 * Minute"

record stallRejoin =
  lastReport :: instant
  nextRejoin :: instant
  sr_delay :: duration

type_synonym bot_key = "snowflake \<times> snowflake"
type_synonym stallBackoff = "bot_key \<rightharpoonup> stallRejoin"

definition stall_due :: "bot_key \<Rightarrow> instant \<Rightarrow> stallBackoff \<Rightarrow> stallBackoff \<times> bool" where
  "stall_due k now b =
     (let fresh = \<lparr>lastReport = zero_time, nextRejoin = zero_time, sr_delay = stallRejoinBackoffMin\<rparr>;
          r = (case b k of
                 None \<Rightarrow> fresh
               | Some r \<Rightarrow> if now - lastReport r \<ge> stallRejoinBackoffMax then fresh else r)\<lparr>lastReport := now\<rparr>;
          isdue = (\<not> now < nextRejoin r)
      in (b(k \<mapsto> if isdue then r\<lparr>nextRejoin := now + sr_delay r, sr_delay := min (2 * sr_delay r) stallRejoinBackoffMax\<rparr>
                  else r), isdue))"

text \<open>The answers to a series of reports of one bot.\<close>

fun stall_reports :: "bot_key \<Rightarrow> instant list \<Rightarrow> stallBackoff \<Rightarrow> bool list" where
  "stall_reports k [] b = []"
| "stall_reports k (t # ts) b = (let (b', d) = stall_due k t b in d # stall_reports k ts b')"

lemma length_stall_reports [simp]: "length (stall_reports k ts b) = length ts"
  by (induction ts arbitrary: b) (simp_all add: stall_due_def Let_def)

text \<open>A delay stays between the two bounds.\<close>

definition stalls_ok :: "stallBackoff \<Rightarrow> bool" where
  "stalls_ok b \<longleftrightarrow> (\<forall>k r. b k = Some r \<longrightarrow> stallRejoinBackoffMin \<le> sr_delay r \<and> sr_delay r \<le> stallRejoinBackoffMax)"

lemma backoff_bounds [simp]:
  "stallRejoinBackoffMin \<le> stallRejoinBackoffMax" "0 < stallRejoinBackoffMin"
  by (simp_all add: stallRejoinBackoffMin_def stallRejoinBackoffMax_def duration_defs)

lemma stalls_okD:
  "stalls_ok b \<Longrightarrow> b k = Some r \<Longrightarrow> stallRejoinBackoffMin \<le> sr_delay r \<and> sr_delay r \<le> stallRejoinBackoffMax"
  unfolding stalls_ok_def by blast

lemma min_backoff_pos: "0 \<le> stallRejoinBackoffMin" "0 \<le> stallRejoinBackoffMax"
  by (simp_all add: stallRejoinBackoffMin_def stallRejoinBackoffMax_def duration_defs)

lemma stall_due_ok: "stalls_ok b \<Longrightarrow> stall_due k t b = (b', d) \<Longrightarrow> stalls_ok b'"
  using min_backoff_pos
  by (fastforce simp: stalls_ok_def stall_due_def Let_def split: option.splits if_splits)

text \<open>After a rejoin at \<open>T\<close>: no other one for half a minute, but one within five.\<close>

definition backing_off :: "bot_key \<Rightarrow> instant \<Rightarrow> stallBackoff \<Rightarrow> bool" where
  "backing_off k T b \<longleftrightarrow>
     (\<exists>r. b k = Some r \<and> T \<le> lastReport r \<and>
        T + stallRejoinBackoffMin \<le> nextRejoin r \<and> nextRejoin r \<le> T + stallRejoinBackoffMax)"

lemma due_backs_off: "stalls_ok b \<Longrightarrow> stall_due k t b = (b', True) \<Longrightarrow> backing_off k t b'"
  by (auto simp: stall_due_def Let_def backing_off_def dest: stalls_okD split: option.splits if_splits)

lemma backing_off_due:
  assumes "backing_off k T b" and "stall_due k t b = (b', d)" and "zero_time \<le> t" and "T \<le> t"
  shows "(d \<longrightarrow> T + stallRejoinBackoffMin \<le> t) \<and> (\<not> d \<longrightarrow> backing_off k T b' \<and> t < T + stallRejoinBackoffMax)"
  using assms
  by (auto simp: stall_due_def Let_def backing_off_def split: option.splits if_splits)

lemma first_rejoin_after:
  assumes "backing_off k T b" and "sorted ts" and "\<forall>t \<in> set ts. T \<le> t \<and> zero_time \<le> t"
    and "j < length ts" and "\<forall>l < j. \<not> stall_reports k ts b ! l"
  shows "(stall_reports k ts b ! j \<longrightarrow> T + stallRejoinBackoffMin \<le> ts ! j) \<and>
    (T + stallRejoinBackoffMax \<le> ts ! j \<longrightarrow> stall_reports k ts b ! j)"
  using assms
proof (induction ts arbitrary: b j)
  case (Cons t ts)
  obtain b' d where due: "stall_due k t b = (b', d)" by fastforce
  note one = backing_off_due [OF Cons.prems(1) due]
  show ?case
  proof (cases j)
    case 0
    then show ?thesis using one Cons.prems(3) due by auto
  next
    case (Suc i)
    then have "\<not> d" using Cons.prems(5) due by auto
    then have "backing_off k T b'" using one Cons.prems(3) by simp
    then show ?thesis
      using Cons.IH [of b' i] Cons.prems Suc due by fastforce
  qed
qed simp

lemma stall_rejoins_pair:
  assumes "stalls_ok b" and "sorted ts" and "\<forall>t \<in> set ts. zero_time \<le> t"
    and "i < j" and "j < length ts" and "stall_reports k ts b ! i"
  shows "(stall_reports k ts b ! j \<longrightarrow> stallRejoinBackoffMin \<le> ts ! j - ts ! i) \<and>
    (stallRejoinBackoffMax \<le> ts ! j - ts ! i \<longrightarrow> (\<exists>l. i < l \<and> l \<le> j \<and> stall_reports k ts b ! l))"
  using assms
proof (induction ts arbitrary: b i j)
  case (Cons t ts)
  obtain b' d where due: "stall_due k t b = (b', d)" by fastforce
  obtain j' where j: "j = Suc j'" using Cons.prems(4) by (cases j) auto
  have ok: "stalls_ok b'" by (rule stall_due_ok [OF Cons.prems(1) due])
  show ?case
  proof (cases i)
    case (Suc i')
    have "(stall_reports k ts b' ! j' \<longrightarrow> stallRejoinBackoffMin \<le> ts ! j' - ts ! i') \<and>
      (stallRejoinBackoffMax \<le> ts ! j' - ts ! i' \<longrightarrow> (\<exists>l. i' < l \<and> l \<le> j' \<and> stall_reports k ts b' ! l))"
      using Cons.prems Suc due j by (intro Cons.IH ok) auto
    then show ?thesis using due j Suc by (auto intro: exI [of _ "Suc _"])
  next
    case 0
    let ?rs = "stall_reports k ts b'"
    have "d" using Cons.prems(6) 0 due by simp
    then have bo: "backing_off k t b'" using due_backs_off [OF Cons.prems(1)] due by simp
    have first: "(?rs ! l \<longrightarrow> t + stallRejoinBackoffMin \<le> ts ! l) \<and> (t + stallRejoinBackoffMax \<le> ts ! l \<longrightarrow> ?rs ! l)"
      if "l \<le> j'" "\<forall>l' < l. \<not> ?rs ! l'" for l
      using first_rejoin_after [OF bo, of ts l] that Cons.prems j by auto
    show ?thesis
    proof (cases "\<exists>l \<le> j'. ?rs ! l")
      case False
      then show ?thesis using first [of j'] 0 j due by fastforce
    next
      case True
      then obtain l where l: "l \<le> j'" "?rs ! l" "\<forall>l' < l. \<not> ?rs ! l'"
        using exists_least_iff [of "\<lambda>l. l \<le> j' \<and> ?rs ! l"] by (metis less_le_trans less_imp_le_nat)
      then have "t + stallRejoinBackoffMin \<le> ts ! l" using first by blast
      also have "ts ! l \<le> ts ! j'" using Cons.prems(2,5) l(1) j by (simp add: sorted_nth_mono)
      finally show ?thesis using 0 j due l by (auto intro!: exI [of _ "Suc l"])
    qed
  qed
qed simp

text \<open>
  C26. Rejoining a stalled bot is paced: whenever the reports of a bot arrive, two rejoins are at
  least half a minute apart, and a bot that still stalls five minutes after a rejoin has been rejoined
  again meanwhile.
\<close>

theorem stall_rejoins_paced:
  assumes "sorted ts" and "\<forall>t \<in> set ts. zero_time \<le> t" and "i < j" and "j < length ts"
    and "stall_reports k ts Map.empty ! i"
  shows "(stall_reports k ts Map.empty ! j \<longrightarrow> 30 * Second \<le> ts ! j - ts ! i) \<and>
    (5 * Minute \<le> ts ! j - ts ! i \<longrightarrow> (\<exists>l. i < l \<and> l \<le> j \<and> stall_reports k ts Map.empty ! l))"
  using stall_rejoins_pair [of Map.empty ts i j k] assms
  by (simp add: stalls_ok_def stallRejoinBackoffMin_def stallRejoinBackoffMax_def)

text \<open>A report every ten seconds: rejoins at 0, 30 and 90 s.\<close>

lemma stall_rejoins_paced_witness:
  "stall_reports (9, 31) (map (\<lambda>i. 10 * Second * i) [0, 1, 2, 3, 4, 5, 6, 7, 8, 9]) Map.empty =
     [True, False, False, True, False, False, False, False, False, True] \<and>
   30 * Second \<le> (90::int) * Second - 30 * Second"
proof -
  let ?ts = "map (\<lambda>i. 10 * Second * i) [0, 1, 2, 3, 4, 5, 6, 7, 8, 9]"
  have r: "stall_reports (9, 31) ?ts Map.empty =
     [True, False, False, True, False, False, False, False, False, True]"
    by code_simp
  have "30 * Second \<le> ?ts ! 9 - ?ts ! 3"
    using stall_rejoins_paced [of ?ts 3 9 "(9, 31)"] r by (simp add: duration_defs zero_time_def)
  then show ?thesis using r by simp
qed

section \<open>Voice connections\<close>

text \<open>
  The ends of a bot's connection: what it plays (\<open>None\<close>: a nil channel), the fanout its receiver
  feeds, whether a re-identified gateway is noticed, and whether the pair has been closed.
\<close>

datatype provider = EmptyProvider | ChanProvider "nat option"
datatype receiver = EmptyReceiver | HandleReceiver nat

record conn_ends =
  ce_provider :: provider
  ce_receiver :: receiver
  ce_watched :: bool
  ce_closed :: bool

definition bare_conn :: conn_ends where
  "bare_conn = \<lparr>ce_provider = EmptyProvider, ce_receiver = EmptyReceiver, ce_watched = False, ce_closed = False\<rparr>"

record VoiceConnSetup =
  vs_provider :: bool
  vs_receiver :: bool

definition NewVoiceConnSetup :: VoiceConnSetup where
  "NewVoiceConnSetup = \<lparr>vs_provider = False, vs_receiver = False\<rparr>"

definition WithVoiceProvider :: "VoiceConnSetup \<Rightarrow> VoiceConnSetup" where
  "WithVoiceProvider v = v\<lparr>vs_provider := True\<rparr>"

definition WithVoiceReceiver :: "VoiceConnSetup \<Rightarrow> VoiceConnSetup" where
  "WithVoiceReceiver v = v\<lparr>vs_receiver := True\<rparr>"

text \<open>\<open>h\<close> is the handle a receiver would be given, \<open>speaking\<close> whether the speaking flag could be set.\<close>

definition Apply :: "VoiceConnSetup \<Rightarrow> bool \<Rightarrow> nat option \<Rightarrow> nat \<Rightarrow> conn_ends \<Rightarrow> (string + nat option) \<times> conn_ends" where
  "Apply v speaking chOut h c =
     (let c' = c\<lparr>ce_provider := (if vs_provider v then ChanProvider chOut else EmptyProvider),
                 ce_receiver := (if vs_receiver v then HandleReceiver h else EmptyReceiver)\<rparr>
      in if \<not> speaking then (Inl ''set speaking flag'', c'\<lparr>ce_closed := True\<rparr>)
         else (Inr (if vs_receiver v then Some h else None), c'))"

definition buildApplier :: "nat option \<Rightarrow> nat option \<Rightarrow> conn_ends \<Rightarrow> conn_ends" where
  "buildApplier chOut handle c =
     c\<lparr>ce_provider := (case chOut of None \<Rightarrow> EmptyProvider | Some ch \<Rightarrow> ChanProvider (Some ch)),
       ce_receiver := (case handle of None \<Rightarrow> EmptyReceiver | Some h \<Rightarrow> HandleReceiver h),
       ce_watched := True\<rparr>"

text \<open>
  The applier a start stores puts on a fresh connection exactly what the start had put on the first
  one, for each kind of bot: a speaker plays and captures if the mode does, a host's
  owner captures and plays if the mode does, a guest's owner plays and captures if the mode does.
\<close>

lemma buildApplier_matches_setup:
  assumes "Apply v True chOut h bare_conn = (Inr handle, c)" and "vs_provider v \<longleftrightarrow> chOut \<noteq> None"
  shows "buildApplier chOut handle bare_conn = c\<lparr>ce_watched := True\<rparr>"
  using assms by (auto simp: Apply_def buildApplier_def bare_conn_def Let_def split: option.splits if_splits)

section \<open>Rejoining\<close>

text \<open>
  \<open>conn_of\<close> holds the connection of a bot in a guild, if there is one.  What the stored applier of a bot
  installs is the argument \<open>ap\<close>.
\<close>

record 's rc_world =
  rc_svc :: "'s Service"
  inFlight :: "bot_key set"
  stalls :: stallBackoff
  conn_of :: "bot_key \<rightharpoonup> conn_ends"

definition tryLock :: "bot_key \<Rightarrow> 's rc_world \<Rightarrow> 's rc_world option" where
  "tryLock k w = (if k \<in> inFlight w then None else Some (w\<lparr>inFlight := insert k (inFlight w)\<rparr>))"

definition unlock :: "bot_key \<Rightarrow> 's rc_world \<Rightarrow> 's rc_world" where
  "unlock k w = w\<lparr>inFlight := inFlight w - {k}\<rparr>"

definition rc_leave :: "bot_key \<Rightarrow> 's rc_world \<Rightarrow> 's rc_world" where
  "rc_leave k w = w\<lparr>rc_svc := voice_leave (fst k) (snd k) (rc_svc w), conn_of := (conn_of w)(k := None)\<rparr>"

definition rc_join :: "bot_key \<Rightarrow> 's rc_world \<Rightarrow> 's rc_world" where
  "rc_join k w = w\<lparr>rc_svc := voice_join (fst k) (snd k) (rc_svc w), conn_of := (conn_of w)(k \<mapsto> bare_conn)\<rparr>"

definition rc_apply :: "(bot_key \<Rightarrow> conn_ends \<Rightarrow> conn_ends) \<Rightarrow> bot_key \<Rightarrow> 's rc_world \<Rightarrow> 's rc_world" where
  "rc_apply ap k w =
     (if k \<in> appliers (rc_svc w) then w\<lparr>conn_of := (conn_of w)(k := map_option (ap k) (conn_of w k))\<rparr> else w)"

text \<open>
  A rejoin in its phases, cut where it waits: \<open>RcCheck\<close> holds the lock, \<open>RcRetry\<close> is past the backoff.
  \<open>RcReapply\<close> is \<^verbatim>\<open>reapplyAfterVoiceReady\<close>, which shares the lock.  The outcomes: does the first join
  succeed, is the budget spent when the backoff ends, does the second join succeed.
\<close>

datatype rc_phase = RcCheck | RcClose | RcJoin | RcRetry | RcApply | RcReapply

record rc_outcome =
  ro_join :: bool
  ro_expired :: bool
  ro_retry :: bool

definition can_rejoin :: "'s Store \<Rightarrow> discord \<Rightarrow> bot_key \<Rightarrow> 's Service \<Rightarrow> bool" where
  "can_rejoin S dc k m \<longleftrightarrow> HasActiveSession (fst k) m \<and> liveBoundChannel S dc (fst k) (snd k) (sv_store m) \<noteq> None \<and>
     (snd k = ownerBotID dc \<or> SelfUser dc (snd k) \<noteq> None)"

fun rc_advance ::
  "'s Store \<Rightarrow> discord \<Rightarrow> (bot_key \<Rightarrow> conn_ends \<Rightarrow> conn_ends) \<Rightarrow> rc_outcome \<Rightarrow> bot_key \<Rightarrow> rc_phase \<Rightarrow> 's rc_world \<Rightarrow>
   rc_phase option \<times> 's rc_world" where
  "rc_advance S dc ap ro k RcCheck w = (if can_rejoin S dc k (rc_svc w) then (Some RcClose, w) else (None, unlock k w))"
| "rc_advance S dc ap ro k RcClose w =
     (if HasActiveSession (fst k) (rc_svc w) then (Some RcJoin, rc_leave k w) else (None, unlock k (rc_leave k w)))"
| "rc_advance S dc ap ro k RcJoin w = (if ro_join ro then (Some RcApply, rc_join k w) else (Some RcRetry, rc_leave k w))"
| "rc_advance S dc ap ro k RcRetry w =
     (if ro_expired ro \<or> \<not> HasActiveSession (fst k) (rc_svc w) then (None, unlock k w)
      else if ro_retry ro then (Some RcApply, rc_join k w) else (None, unlock k (rc_leave k w)))"
| "rc_advance S dc ap ro k RcApply w = (None, unlock k (rc_apply ap k w))"
| "rc_advance S dc ap ro k RcReapply w =
     (None, unlock k (if HasActiveSession (fst k) (rc_svc w) then rc_apply ap k w else w))"

fun rc_rank :: "rc_phase \<Rightarrow> nat" where
  "rc_rank RcCheck = 4" | "rc_rank RcClose = 3" | "rc_rank RcJoin = 2" | "rc_rank RcRetry = 1"
| "rc_rank RcApply = 0" | "rc_rank RcReapply = 0"

lemma rc_advance_rank: "rc_advance S dc ap ro k ph w = (Some ph', w') \<Longrightarrow> rc_rank ph' < rc_rank ph"
  by (cases ph) (auto split: if_splits)

function rc_run ::
  "'s Store \<Rightarrow> discord \<Rightarrow> (bot_key \<Rightarrow> conn_ends \<Rightarrow> conn_ends) \<Rightarrow> rc_outcome \<Rightarrow> bot_key \<Rightarrow> rc_phase \<Rightarrow> 's rc_world \<Rightarrow>
   's rc_world" where
  "rc_run S dc ap ro k ph w =
     (case rc_advance S dc ap ro k ph w of (None, w') \<Rightarrow> w' | (Some ph', w') \<Rightarrow> rc_run S dc ap ro k ph' w')"
  by pat_completeness auto
termination
  by (relation "measure (\<lambda>(S, dc, ap, ro, k, ph, w). rc_rank ph)") (auto dest: rc_advance_rank [OF sym])

declare rc_run.simps [simp del]

lemma rc_run_phases:
  "rc_run S dc ap ro k RcCheck w = (if can_rejoin S dc k (rc_svc w) then rc_run S dc ap ro k RcClose w else unlock k w)"
  "rc_run S dc ap ro k RcClose w =
     (if HasActiveSession (fst k) (rc_svc w) then rc_run S dc ap ro k RcJoin (rc_leave k w) else unlock k (rc_leave k w))"
  "rc_run S dc ap ro k RcJoin w =
     (if ro_join ro then rc_run S dc ap ro k RcApply (rc_join k w) else rc_run S dc ap ro k RcRetry (rc_leave k w))"
  "rc_run S dc ap ro k RcRetry w =
     (if ro_expired ro \<or> \<not> HasActiveSession (fst k) (rc_svc w) then unlock k w
      else if ro_retry ro then rc_run S dc ap ro k RcApply (rc_join k w) else unlock k (rc_leave k w))"
  "rc_run S dc ap ro k RcApply w = unlock k (rc_apply ap k w)"
  "rc_run S dc ap ro k RcReapply w = unlock k (if HasActiveSession (fst k) (rc_svc w) then rc_apply ap k w else w)"
  by (subst rc_run.simps, simp)+

definition ReconnectBotChannel ::
  "'s Store \<Rightarrow> discord \<Rightarrow> (bot_key \<Rightarrow> conn_ends \<Rightarrow> conn_ends) \<Rightarrow> rc_outcome \<Rightarrow> snowflake \<Rightarrow> snowflake \<Rightarrow> 's rc_world \<Rightarrow>
   's rc_world" where
  "ReconnectBotChannel S dc ap ro g b w =
     (case tryLock (g, b) w of None \<Rightarrow> w | Some w1 \<Rightarrow> rc_run S dc ap ro (g, b) RcCheck w1)"

definition reapplyAfterVoiceReady ::
  "'s Store \<Rightarrow> discord \<Rightarrow> (bot_key \<Rightarrow> conn_ends \<Rightarrow> conn_ends) \<Rightarrow> snowflake \<Rightarrow> snowflake \<Rightarrow> 's rc_world \<Rightarrow> 's rc_world" where
  "reapplyAfterVoiceReady S dc ap g b w =
     (case tryLock (g, b) w of
        None \<Rightarrow> w
      | Some w1 \<Rightarrow> rc_run S dc ap \<lparr>ro_join = True, ro_expired = False, ro_retry = True\<rparr> (g, b) RcReapply w1)"

definition OnBotVoiceMove ::
  "'s Store \<Rightarrow> discord \<Rightarrow> (bot_key \<Rightarrow> conn_ends \<Rightarrow> conn_ends) \<Rightarrow> rc_outcome \<Rightarrow> snowflake \<Rightarrow> snowflake \<Rightarrow>
   snowflake option \<Rightarrow> 's rc_world \<Rightarrow> 's rc_world" where
  "OnBotVoiceMove S dc ap ro g b current w =
     (if \<not> HasActiveSession g (rc_svc w) then w
      else case s_GetBoundChannel S g b (sv_store (rc_svc w)) of
          None \<Rightarrow> w
        | Some c \<Rightarrow> if current = Some c then w else ReconnectBotChannel S dc ap ro g b w)"

text \<open>A stall report: the guild of the connection, if it is one, and the user ID, if it parses.\<close>

definition encryptStallTarget :: "snowflake option \<Rightarrow> snowflake option \<Rightarrow> bot_key option" where
  "encryptStallTarget conn user =
     (case conn of None \<Rightarrow> None | Some g \<Rightarrow> (case user of None \<Rightarrow> None | Some b \<Rightarrow> Some (g, b)))"

definition OnEncryptStall ::
  "'s Store \<Rightarrow> discord \<Rightarrow> (bot_key \<Rightarrow> conn_ends \<Rightarrow> conn_ends) \<Rightarrow> rc_outcome \<Rightarrow> instant \<Rightarrow>
   snowflake option \<Rightarrow> snowflake option \<Rightarrow> 's rc_world \<Rightarrow> 's rc_world" where
  "OnEncryptStall S dc ap ro now conn user w =
     (case encryptStallTarget conn user of
        None \<Rightarrow> w
      | Some (g, b) \<Rightarrow>
          let (b', d) = stall_due (g, b) now (stalls w); w' = w\<lparr>stalls := b'\<rparr>
          in if d then ReconnectBotChannel S dc ap ro g b w' else w')"

text \<open>\<open>gs\<close> lists the guilds of \<^verbatim>\<open>activeSessionGuilds\<close>, in the order the runtime takes them.\<close>

definition activeSessionGuilds :: "'s Service \<Rightarrow> snowflake set" where
  "activeSessionGuilds m = {g. HasActiveSession g m}"

definition OnSpeakerFreshGateway ::
  "'s Store \<Rightarrow> discord \<Rightarrow> (bot_key \<Rightarrow> conn_ends \<Rightarrow> conn_ends) \<Rightarrow> (snowflake \<Rightarrow> rc_outcome) \<Rightarrow> snowflake list \<Rightarrow> snowflake \<Rightarrow>
   's rc_world \<Rightarrow> 's rc_world" where
  "OnSpeakerFreshGateway S dc ap ro gs b w = fold (\<lambda>g. ReconnectBotChannel S dc ap (ro g) g b) gs w"

definition clearGuild :: "discord \<Rightarrow> snowflake \<Rightarrow> 's rc_world \<Rightarrow> 's rc_world" where
  "clearGuild dc g w =
     w\<lparr>rc_svc := clearReconnectState dc g (rc_svc w),
       stalls := fold (\<lambda>b m. m((g, b) := None)) (GetIDs dc @ [ownerBotID dc]) (stalls w)\<rparr>"

section \<open>One rejoin of a bot at a time\<close>

text \<open>
  Rejoins and reapplications interleaved with each other and with everything else, which may change the
  service and the connections in any way.
\<close>

record 's rc_state =
  rs_world :: "'s rc_world"
  rs_tasks :: "nat \<rightharpoonup> bot_key \<times> rc_phase"

inductive rc_step ::
  "'s Store \<Rightarrow> discord \<Rightarrow> (bot_key \<Rightarrow> conn_ends \<Rightarrow> conn_ends) \<Rightarrow> 's rc_state \<Rightarrow> 's rc_state \<Rightarrow> bool"
  for S dc ap where
  enter: "rs_tasks s t = None \<Longrightarrow> tryLock k (rs_world s) = Some w \<Longrightarrow> ph = RcCheck \<or> ph = RcReapply \<Longrightarrow>
    rc_step S dc ap s (s\<lparr>rs_world := w, rs_tasks := (rs_tasks s)(t \<mapsto> (k, ph))\<rparr>)"
| run: "rs_tasks s t = Some (k, ph) \<Longrightarrow> rc_advance S dc ap ro k ph (rs_world s) = (next_ph, w) \<Longrightarrow>
    rc_step S dc ap s (s\<lparr>rs_world := w, rs_tasks := (rs_tasks s)(t := map_option (Pair k) next_ph)\<rparr>)"
| other: "rc_step S dc ap s (s\<lparr>rs_world := (rs_world s)\<lparr>rc_svc := m, stalls := b, conn_of := c\<rparr>\<rparr>)"

text \<open>The lock is held for exactly the bots that are being rejoined, each by one task.\<close>

definition locks_match :: "'k set \<Rightarrow> (nat \<rightharpoonup> 'k \<times> 'p) \<Rightarrow> bool" where
  "locks_match held ts \<longleftrightarrow>
     (\<forall>k. k \<in> held \<longleftrightarrow> (\<exists>t ph. ts t = Some (k, ph))) \<and>
     (\<forall>k t ph t' ph'. ts t = Some (k, ph) \<and> ts t' = Some (k, ph') \<longrightarrow> t = t')"

lemma locks_matchD:
  assumes "locks_match held ts"
  shows "k \<in> held \<longleftrightarrow> (\<exists>t ph. ts t = Some (k, ph))"
    "ts t = Some (k, ph) \<Longrightarrow> ts t' = Some (k, ph') \<Longrightarrow> t = t'"
  using assms unfolding locks_match_def by blast+

lemma locks_match_take:
  assumes "locks_match held ts" and "ts t = None" and "k \<notin> held"
  shows "locks_match (insert k held) (ts(t \<mapsto> (k, ph)))"
proof -
  have free: "ts t' \<noteq> Some (k, ph')" for t' ph'
    using assms(3) locks_matchD(1) [OF assms(1), of k] by blast
  have "k' \<in> insert k held \<longleftrightarrow> (\<exists>t' ph'. (ts(t \<mapsto> (k, ph))) t' = Some (k', ph'))" for k'
  proof (cases "k' = k")
    case False
    have "(ts(t \<mapsto> (k, ph))) t' = Some (k', p) \<longleftrightarrow> ts t' = Some (k', p)" for t' p
      using assms(2) False by (cases "t' = t") auto
    then show ?thesis using False locks_matchD(1) [OF assms(1), of k'] by simp
  qed auto
  moreover have "t1 = t2" if "(ts(t \<mapsto> (k, ph))) t1 = Some (k', p1)" "(ts(t \<mapsto> (k, ph))) t2 = Some (k', p2)"
    for k' t1 p1 t2 p2
    using that free locks_matchD(2) [OF assms(1)] by (auto split: if_splits)
  ultimately show ?thesis unfolding locks_match_def by blast
qed

lemma locks_match_move:
  assumes "locks_match held ts" and "ts t = Some (k, ph)"
  shows "locks_match held (ts(t \<mapsto> (k, ph')))"
proof -
  have "(\<exists>t' p. (ts(t \<mapsto> (k, ph'))) t' = Some (k', p)) \<longleftrightarrow> (\<exists>t' p. ts t' = Some (k', p))" for k'
  proof (cases "k' = k")
    case True
    have "(ts(t \<mapsto> (k, ph'))) t = Some (k, ph')" by simp
    then show ?thesis using assms(2) True by blast
  next
    case False
    then have "(ts(t \<mapsto> (k, ph'))) t' = Some (k', p) \<longleftrightarrow> ts t' = Some (k', p)" for t' p
      using assms(2) by (cases "t' = t") auto
    then show ?thesis by simp
  qed
  moreover have "t1 = t2" if "(ts(t \<mapsto> (k, ph'))) t1 = Some (k', p1)" "(ts(t \<mapsto> (k, ph'))) t2 = Some (k', p2)"
    for k' t1 p1 t2 p2
    using that assms(2) locks_matchD(2) [OF assms(1)] by (auto split: if_splits)
  ultimately show ?thesis using locks_matchD(1) [OF assms(1)] unfolding locks_match_def by blast
qed

lemma locks_match_drop:
  assumes "locks_match held ts" and "ts t = Some (k, ph)"
  shows "locks_match (held - {k}) (ts(t := None))"
proof -
  have own: "t' = t" if "ts t' = Some (k, p)" for t' p
    using locks_matchD(2) [OF assms(1) that assms(2)] .
  have "k' \<in> held - {k} \<longleftrightarrow> (\<exists>t' p. (ts(t := None)) t' = Some (k', p))" for k'
  proof (cases "k' = k")
    case True
    then show ?thesis using own by auto
  next
    case False
    have "(ts(t := None)) t' = Some (k', p) \<longleftrightarrow> ts t' = Some (k', p)" for t' p
      using assms(2) False by (cases "t' = t") auto
    then show ?thesis using False locks_matchD(1) [OF assms(1), of k'] by simp
  qed
  moreover have "t1 = t2" if "(ts(t := None)) t1 = Some (k', p1)" "(ts(t := None)) t2 = Some (k', p2)" for k' t1 p1 t2 p2
    using that locks_matchD(2) [OF assms(1)] by (auto split: if_splits)
  ultimately show ?thesis unfolding locks_match_def by blast
qed

definition rc_inv :: "'s rc_state \<Rightarrow> bool" where
  "rc_inv s \<longleftrightarrow> locks_match (inFlight (rs_world s)) (rs_tasks s)"

lemma inFlight_simps [simp]:
  "inFlight (unlock k w) = inFlight w - {k}" "inFlight (rc_leave k w) = inFlight w"
  "inFlight (rc_join k w) = inFlight w" "inFlight (rc_apply ap k w) = inFlight w"
  by (simp_all add: unlock_def rc_leave_def rc_join_def rc_apply_def)

lemma rc_advance_lock:
  "rc_advance S dc ap ro k ph w = (next_ph, w') \<Longrightarrow>
     inFlight w' = (if next_ph = None then inFlight w - {k} else inFlight w)"
  by (cases ph) (auto split: if_splits)

lemma tryLock_lock:
  "tryLock k w = Some w' \<longleftrightarrow> k \<notin> inFlight w \<and> w' = w\<lparr>inFlight := insert k (inFlight w)\<rparr>"
  by (auto simp: tryLock_def)

lemma rc_step_inv:
  assumes "rc_step S dc ap s s'" and "rc_inv s"
  shows "rc_inv s'"
  using assms(1)
proof (cases rule: rc_step.cases)
  case (enter t k w ph)
  then show ?thesis using locks_match_take assms(2) by (auto simp: rc_inv_def tryLock_lock)
next
  case (run t k ph ro next_ph w)
  note lock = rc_advance_lock [OF run(3)]
  then show ?thesis
    using run(1,2) assms(2) locks_match_move locks_match_drop by (cases next_ph) (auto simp: rc_inv_def)
next
  case (other m b c)
  then show ?thesis using assms(2) by (simp add: rc_inv_def)
qed

inductive rc_reach ::
  "'s Store \<Rightarrow> discord \<Rightarrow> (bot_key \<Rightarrow> conn_ends \<Rightarrow> conn_ends) \<Rightarrow> 's rc_state \<Rightarrow> 's rc_state \<Rightarrow> bool"
  for S dc ap s0 where
  start: "rc_reach S dc ap s0 s0"
| step: "rc_reach S dc ap s0 s \<Longrightarrow> rc_step S dc ap s s' \<Longrightarrow> rc_reach S dc ap s0 s'"

lemma rc_reach_inv: "rc_reach S dc ap s0 s \<Longrightarrow> rc_inv s0 \<Longrightarrow> rc_inv s"
  by (induction rule: rc_reach.induct) (auto intro: rc_step_inv)

definition idle_rc :: "'s Service \<Rightarrow> 's rc_state" where
  "idle_rc m = \<lparr>rs_world = \<lparr>rc_svc = m, inFlight = {}, stalls = Map.empty, conn_of = Map.empty\<rparr>, rs_tasks = Map.empty\<rparr>"

text \<open>
  C6. One rejoin per bot: however voice events, stall reports and re-identified gateways
  interleave with one another and with the rest of the service, no bot of a guild is ever
  rejoined or rewired by two at a time, and the lock of a bot is free again as soon as nobody does.
\<close>

theorem one_reconnect_per_bot:
  assumes "rc_reach S dc ap (idle_rc m) s"
  shows "(k \<in> inFlight (rs_world s) \<longleftrightarrow> (\<exists>t ph. rs_tasks s t = Some (k, ph))) \<and>
    (rs_tasks s t = Some (k, ph) \<and> rs_tasks s t' = Some (k, ph') \<longrightarrow> t = t')"
proof -
  have "rc_inv (idle_rc m)" by (simp add: rc_inv_def locks_match_def idle_rc_def)
  from rc_reach_inv [OF assms this] have l: "locks_match (inFlight (rs_world s)) (rs_tasks s)" by (simp only: rc_inv_def)
  show ?thesis using locks_matchD(1) [OF l, of k] locks_matchD(2) [OF l, of t k ph t' ph'] by (simp only: simp_thms) simp
qed

definition entered :: "'s Service \<Rightarrow> bot_key \<Rightarrow> 's rc_state" where
  "entered m k = \<lparr>rs_world = \<lparr>rc_svc = m, inFlight = {k}, stalls = Map.empty, conn_of = Map.empty\<rparr>,
     rs_tasks = [0 \<mapsto> (k, RcCheck)]\<rparr>"

lemma entered_reach: "rc_reach S dc ap (idle_rc m) (entered m k)"
proof -
  have "rs_tasks (idle_rc m) 0 = None" by (simp add: idle_rc_def)
  moreover have "tryLock k (rs_world (idle_rc m)) = Some (rs_world (entered m k))"
    by (simp add: tryLock_def idle_rc_def entered_def)
  ultimately have "rc_step S dc ap (idle_rc m)
      ((idle_rc m)\<lparr>rs_world := rs_world (entered m k), rs_tasks := (rs_tasks (idle_rc m))(0 \<mapsto> (k, RcCheck))\<rparr>)"
    by (rule rc_step.enter) simp
  moreover have "(idle_rc m)\<lparr>rs_world := rs_world (entered m k), rs_tasks := (rs_tasks (idle_rc m))(0 \<mapsto> (k, RcCheck))\<rparr>
      = entered m k"
    by (simp add: idle_rc_def entered_def)
  ultimately have "rc_step S dc ap (idle_rc m) (entered m k)" by (simp only:)
  then show ?thesis by (rule rc_reach.step [OF rc_reach.start])
qed

lemma one_reconnect_per_bot_witness:
  "rs_tasks (entered raid_ready (9, 31)) 0 = Some ((9, 31), RcCheck) \<and>
   (9, 31) \<in> inFlight (rs_world (entered raid_ready (9, 31)))"
proof -
  have t: "rs_tasks (entered m k) 0 = Some (k, RcCheck)" for m :: "InMemoryStore Service" and k by (simp add: entered_def)
  have "k \<in> inFlight (rs_world (entered m k))" for m :: "InMemoryStore Service" and k
    using one_reconnect_per_bot [OF entered_reach [where S = memory_store and dc = small_world and ap = "\<lambda>_ c. c"], of k m k] t [of m k]
    by blast
  with t show ?thesis by blast
qed

section \<open>What a rejoin achieves\<close>

lemma session_voice_ops [simp]:
  "session_of g (voice_join h b m) = session_of g m" "session_of g (voice_leave h b m) = session_of g m"
  by (simp_all add: session_of_def)

lemma HasActiveSession_voice_ops [simp]:
  "HasActiveSession g (voice_join h b m) = HasActiveSession g m"
  "HasActiveSession g (voice_leave h b m) = HasActiveSession g m"
  by (simp_all add: HasActiveSession_iff)

lemma rc_fields [simp]:
  "rc_svc (unlock k w) = rc_svc w" "conn_of (unlock k w) = conn_of w"
  "rc_svc (rc_apply ap k w) = rc_svc w"
  "rc_svc (rc_leave k w) = voice_leave (fst k) (snd k) (rc_svc w)" "conn_of (rc_leave k w) = (conn_of w)(k := None)"
  "rc_svc (rc_join k w) = voice_join (fst k) (snd k) (rc_svc w)" "conn_of (rc_join k w) = (conn_of w)(k \<mapsto> bare_conn)"
  by (simp_all add: unlock_def rc_apply_def rc_leave_def rc_join_def)

text \<open>
  A rejoin of a bot that no other one is rejoining: in a guild with a session, a bot with an
  existing bound channel ends up in voice with its stored audio on the new connection if one of the two
  joins succeeds in time, and out of voice with no connection otherwise; any other bot is left
  alone.  Nothing else of the service changes, and the lock is free again.
\<close>

theorem ReconnectBotChannel_outcome:
  assumes "(g, b) \<notin> inFlight w"
  shows "let w' = ReconnectBotChannel S dc ap ro g b w; m = rc_svc w; m' = rc_svc w' in
    inFlight w' = inFlight w \<and> session_of h m' = session_of h m \<and> appliers m' = appliers m \<and>
    (\<forall>k. k \<noteq> (g, b) \<longrightarrow> conn_of w' k = conn_of w k \<and> (k \<in> in_voice m' \<longleftrightarrow> k \<in> in_voice m)) \<and>
    (if \<not> can_rejoin S dc (g, b) m then conn_of w' = conn_of w \<and> m' = m
     else if ro_join ro \<or> \<not> ro_expired ro \<and> ro_retry ro
     then b \<in> voice_of g m' \<and>
       conn_of w' (g, b) = Some (if (g, b) \<in> appliers m then ap (g, b) bare_conn else bare_conn)
     else b \<notin> voice_of g m' \<and> conn_of w' (g, b) = None)"
proof -
  obtain w1 where w1: "tryLock (g, b) w = Some w1" "inFlight w1 = insert (g, b) (inFlight w)"
    "rc_svc w1 = rc_svc w" "conn_of w1 = conn_of w"
    using assms by (simp add: tryLock_def)
  have act: "can_rejoin S dc (g, b) m \<Longrightarrow> HasActiveSession g m" for m by (simp add: can_rejoin_def)
  have ap: "appliers (voice_join h c m) = appliers m" "appliers (voice_leave h c m) = appliers m" for h c and m :: "'a Service"
    by simp_all
  show ?thesis
    using assms w1 act [of "rc_svc w"]
    by (auto simp: ReconnectBotChannel_def rc_run_phases Let_def rc_apply_def unlock_def voice_of_def
        voice_join_def voice_leave_def session_of_def HasActiveSession_def rc_leave_def rc_join_def)
qed

text \<open>A raid in guild 9, of which speaker 32 is no part: it could not join.\<close>

definition part_attempt :: attempt where
  "part_attempt = (good_attempt 1)\<lparr>at_voice := (\<lambda>b. if b = 32 then OpenFails else Joins)\<rparr>"

definition part_raid :: "InMemoryStore Service" where
  "part_raid = (case StartVoiceRaid memory_store small_world part_attempt 9 RaidModeOneCaller raid_ready of
     Some (_, m) \<Rightarrow> m | None \<Rightarrow> raid_ready)"

lemma part_raid_facts:
  "map_option (\<lambda>se. (map spk_ID (gs_Speakers se), gs_IsGuest se)) (session_of 9 part_raid) = Some ([31], False) \<and>
   can_rejoin memory_store small_world (9, 31) part_raid \<and> can_rejoin memory_store small_world (9, 32) part_raid \<and>
   starting part_raid 9 = None \<and> (9, 31) \<in> appliers part_raid \<and> (9, 32) \<notin> appliers part_raid"
  by code_simp

definition part_world :: "InMemoryStore rc_world" where
  "part_world = \<lparr>rc_svc = part_raid, inFlight = {}, stalls = Map.empty, conn_of = Map.empty\<rparr>"

abbreviation second_join :: rc_outcome where
  "second_join \<equiv> \<lparr>ro_join = False, ro_expired = False, ro_retry = True\<rparr>"

lemma ReconnectBotChannel_outcome_witness:
  "31 \<in> voice_of 9 (rc_svc (ReconnectBotChannel memory_store small_world (\<lambda>_. buildApplier (Some 5) None) second_join 9 31 part_world))"
proof -
  have "(9, 31) \<notin> inFlight part_world" "can_rejoin memory_store small_world (9, 31) (rc_svc part_world)"
    using part_raid_facts by (simp_all add: part_world_def)
  then show ?thesis
    using ReconnectBotChannel_outcome [of 9 31 part_world memory_store small_world "\<lambda>_. buildApplier (Some 5) None" second_join 9]
    unfolding Let_def by simp
qed

section \<open>Bots that a stop does not reach\<close>

lemma stop_finish_keeps [simp]:
  "starting (stop_finish dc g se m) = starting m" "statuses (stop_finish dc g se m) = statuses m"
  by (simp_all add: stop_finish_def session_cleanup_def Let_def)

lemma session_of_stop_finish [simp]: "session_of h (stop_finish dc g se m) = session_of h m"
  by (simp add: session_of_def)

lemma voice_of_stop_finish:
  "b \<in> voice_of g m \<Longrightarrow> b \<notin> session_ids se \<Longrightarrow> b \<noteq> ownerBotID dc \<Longrightarrow> b \<in> voice_of g (stop_finish dc g se m)"
  by (simp add: stop_finish_def session_cleanup_def Let_def)

lemma StopVoiceRaid_active:
  assumes "session_of g m = Some se"
  shows "StopVoiceRaid dc g None m =
    (None, stop_finish dc g se (clearActiveRouter g (upd_status g (\<lambda>st. st\<lparr>st_Session := None\<rparr>) m)))"
  using stop_take_active [OF assms, of None] by (simp add: StopVoiceRaid_def)

lemma session_of_clearActiveRouter [simp]: "session_of h (clearActiveRouter g m) = session_of h m"
  by (simp add: session_of_def)

lemma StopVoiceRaid_after:
  assumes "session_of g m = Some se"
  shows "session_of g (snd (StopVoiceRaid dc g None m)) = None"
    "starting (snd (StopVoiceRaid dc g None m)) = starting m"
    "b \<in> voice_of g m \<Longrightarrow> b \<notin> session_ids se \<Longrightarrow> b \<noteq> ownerBotID dc \<Longrightarrow> b \<in> voice_of g (snd (StopVoiceRaid dc g None m))"
  by (simp_all add: StopVoiceRaid_active [OF assms] voice_of_stop_finish)

text \<open>A stop with nothing to stop changes nothing.\<close>

lemma StopVoiceRaid_idle:
  "starting m g = None \<Longrightarrow> session_of g m = None \<Longrightarrow> StopVoiceRaid dc g None m = (Some ErrNoActiveSession, m)"
  by (simp add: StopVoiceRaid_def stop_take_def guard_cancel_def session_of_def)

text \<open>
  C40. A rejoin checks for a session before it joins and not after: if the raid is stopped in between, the
  bot joins again once the stop has made it leave, and stays in voice with no session; another
  stop finds nothing to do.
\<close>

theorem rejoin_across_stop_strands_bot:
  assumes "session_of g (rc_svc w) = Some se" and "starting (rc_svc w) g = None"
    and "rc_advance S dc ap ro (g, b) RcClose w = (Some RcJoin, w1)"
    and "StopVoiceRaid dc g None (rc_svc w1) = (err, m)" and "ro_join ro"
  shows "let w' = rc_run S dc ap ro (g, b) RcJoin (w1\<lparr>rc_svc := m\<rparr>) in
    session_of g (rc_svc w') = None \<and> b \<in> voice_of g (rc_svc w') \<and>
    StopVoiceRaid dc g None (rc_svc w') = (Some ErrNoActiveSession, rc_svc w')"
proof -
  have w1: "w1 = rc_leave (g, b) w" using assms(3) by (simp split: if_splits)
  then have "session_of g (rc_svc w1) = Some se" using assms(1) by simp
  note after = StopVoiceRaid_after [OF this, where dc = dc]
  have "session_of g m = None" "starting m g = None" using after(1,2) assms(2,4) w1 by auto
  then show ?thesis
    using assms(5) by (simp add: rc_run_phases Let_def StopVoiceRaid_idle)
qed

lemma rejoin_across_stop_strands_bot_witness:
  "\<exists>w'. session_of 9 (rc_svc w') = None \<and> (31 :: snowflake) \<in> voice_of 9 (rc_svc (w' :: InMemoryStore rc_world))"
proof -
  obtain se where se: "session_of 9 (rc_svc part_world) = Some se"
    using part_raid_facts by (auto simp: part_world_def)
  have st: "starting (rc_svc part_world) 9 = None" using part_raid_facts by (simp add: part_world_def)
  have adv: "rc_advance memory_store small_world (\<lambda>_ c. c) \<lparr>ro_join = True, ro_expired = False, ro_retry = False\<rparr> (9, 31)
      RcClose part_world = (Some RcJoin, rc_leave (9, 31) part_world)"
    using se by (simp add: HasActiveSession_iff)
  obtain err m where "StopVoiceRaid small_world 9 None (rc_svc (rc_leave (9, 31) part_world)) = (err, m)" by fastforce
  from rejoin_across_stop_strands_bot [OF se st adv this] show ?thesis unfolding Let_def by auto
qed

text \<open>
  A speaker whose gateway starts a new session is rejoined in every guild with a raid and a binding for
  it, even where it is no part of the raid (disabled, or it failed to join): it joins without
  audio, and no stop makes it leave.
\<close>

theorem fresh_gateway_joins_outsider:
  assumes "session_of g (rc_svc w) = Some se" and "b \<notin> session_ids se" and "b \<noteq> ownerBotID dc"
    and "starting (rc_svc w) g = None" and "(g, b) \<notin> appliers (rc_svc w)"
    and "can_rejoin S dc (g, b) (rc_svc w)" and "(g, b) \<notin> inFlight w" and "ro_join (ro g)"
  shows "let w' = OnSpeakerFreshGateway S dc ap ro [g] b w; m = snd (StopVoiceRaid dc g None (rc_svc w')) in
    conn_of w' (g, b) = Some bare_conn \<and> session_of g m = None \<and> b \<in> voice_of g m \<and>
    StopVoiceRaid dc g None m = (Some ErrNoActiveSession, m)"
proof -
  let ?w = "OnSpeakerFreshGateway S dc ap ro [g] b w"
  note out = ReconnectBotChannel_outcome [OF assms(7), of S dc ap "ro g" g, unfolded Let_def]
  have w: "session_of g (rc_svc ?w) = Some se" "b \<in> voice_of g (rc_svc ?w)" "conn_of ?w (g, b) = Some bare_conn"
    using out assms(1,5,6,8) by (simp_all add: OnSpeakerFreshGateway_def)
  have "starting (rc_svc ?w) g = None"
    using assms(4,6,8) by (simp add: OnSpeakerFreshGateway_def ReconnectBotChannel_def tryLock_def assms(7)
        rc_run_phases can_rejoin_def)
  then show ?thesis
    using StopVoiceRaid_after [OF w(1), where dc = dc] w(2,3) assms(2,3) by (simp add: Let_def StopVoiceRaid_idle)
qed

lemma fresh_gateway_joins_outsider_witness:
  "32 \<in> voice_of 9 (snd (StopVoiceRaid small_world 9 None (rc_svc
     (OnSpeakerFreshGateway memory_store small_world (\<lambda>_ c. c) (\<lambda>_. \<lparr>ro_join = True, ro_expired = False, ro_retry = False\<rparr>)
        [9] 32 part_world))))"
proof -
  obtain se where se: "session_of 9 (rc_svc part_world) = Some se" "map spk_ID (gs_Speakers se) = [31]"
    using part_raid_facts by (auto simp: part_world_def)
  have "32 \<notin> session_ids se" using arg_cong [OF se(2), of set] by (simp add: session_ids_def)
  then show ?thesis
    using fresh_gateway_joins_outsider [OF se(1), of 32 small_world memory_store
        "\<lambda>_. \<lparr>ro_join = True, ro_expired = False, ro_retry = False\<rparr>" "\<lambda>_ c. c"] part_raid_facts
    by (simp add: part_world_def small_world_def Let_def)
qed

end
