(* ===== verification/Presence.thy ===== *)
theory Presence
  imports Raid
begin

text \<open>
  Who is in voice: \<^verbatim>\<open>internal/manager/allow_user.go\<close>, \<^verbatim>\<open>session_idle.go\<close>, the
  \<^verbatim>\<open>cacheVoiceProbe\<close> and the idle watcher of \<^verbatim>\<open>service.go\<close>, the owner bot's caches of
  \<^verbatim>\<open>internal/bot/owner_cache.go\<close> and the voice and member events of \<^verbatim>\<open>internal/bot/handlers.go\<close>.

  The caches are the voice states of each guild in the order they are ranged over and the known members.
  An allow filter memoises its decisions; the look-up and the store of a memo are two steps, since
  a member update can come between them.
\<close>

section \<open>Caches\<close>

record member =
  mb_bot :: bool
  mb_roles :: "snowflake list"

record caches =
  VoiceStates :: "snowflake \<Rightarrow> (snowflake \<times> snowflake option) list"
  members :: "(snowflake \<times> snowflake) \<rightharpoonup> member"

text \<open>\<open>ab\<close> is the \<^verbatim>\<open>AllowBots\<close> of the end-to-end tests.\<close>

definition IsBot :: "bool \<Rightarrow> member \<Rightarrow> bool" where
  "IsBot ab mb \<longleftrightarrow> mb_bot mb \<and> \<not> ab"

definition in_channel :: "snowflake \<Rightarrow> snowflake \<times> snowflake option \<Rightarrow> bool" where
  "in_channel c v \<longleftrightarrow> snd v = Some c"

definition probe_listeners :: "bool \<Rightarrow> caches \<Rightarrow> snowflake \<Rightarrow> snowflake \<Rightarrow> snowflake list" where
  "probe_listeners ab cs g c =
     map fst (filter (\<lambda>v. in_channel c v \<and> (case members cs (g, fst v) of None \<Rightarrow> False | Some mb \<Rightarrow> \<not> IsBot ab mb))
       (VoiceStates cs g))"

definition probe_callers :: "bool \<Rightarrow> caches \<Rightarrow> snowflake \<Rightarrow> snowflake \<Rightarrow> snowflake \<Rightarrow> snowflake list" where
  "probe_callers ab cs g role c =
     map fst (filter (\<lambda>v. in_channel c v \<and>
         (case members cs (g, fst v) of None \<Rightarrow> False | Some mb \<Rightarrow> \<not> IsBot ab mb \<and> role \<in> set (mb_roles mb)))
       (VoiceStates cs g))"

text \<open>What the router is given; \<open>feed\<close> is the relay's part.\<close>

definition cacheVoiceProbe :: "bool \<Rightarrow> caches \<Rightarrow> snowflake \<Rightarrow> snowflake \<Rightarrow> (snowflake \<Rightarrow> bool) \<Rightarrow> probe" where
  "cacheVoiceProbe ab cs g role feed =
     \<lparr>EnumerateCallers = probe_callers ab cs g role, HasListeners = (\<lambda>c. probe_listeners ab cs g c \<noteq> []), RelayFeed = feed\<rparr>"

definition evictVoiceLeaver :: "snowflake \<Rightarrow> snowflake \<Rightarrow> bool \<Rightarrow> caches \<Rightarrow> caches" where
  "evictVoiceLeaver g u is_bot cs = (if is_bot then cs else cs\<lparr>members := (members cs)((g, u) := None)\<rparr>)"

text \<open>The cache policy: a member is kept if it is a bot or in voice.  The cache applies it to every insertion.\<close>

definition keepMember :: "caches \<Rightarrow> snowflake \<Rightarrow> snowflake \<Rightarrow> member \<Rightarrow> bool" where
  "keepMember cs g u mb \<longleftrightarrow> mb_bot mb \<or> u \<in> fst ` set (VoiceStates cs g)"

definition AddMember :: "snowflake \<Rightarrow> snowflake \<Rightarrow> member \<Rightarrow> caches \<Rightarrow> caches" where
  "AddMember g u mb cs = (if keepMember cs g u mb then cs\<lparr>members := (members cs)((g, u) \<mapsto> mb)\<rparr> else cs)"

definition cacheVoiceMembers :: "snowflake \<Rightarrow> (snowflake \<times> member) list \<Rightarrow> caches \<Rightarrow> caches" where
  "cacheVoiceMembers g ms cs = fold (\<lambda>(u, mb). AddMember g u mb) ms cs"

section \<open>The allow filter\<close>

text \<open>\<open>af_role\<close> is \<open>None\<close> where \<^verbatim>\<open>RoleID\<close> is 0: no caller role is bound.\<close>

record AllowFilter =
  af_allowed :: "snowflake \<rightharpoonup> bool"
  af_role :: "snowflake option"

definition RoleID :: "AllowFilter \<Rightarrow> snowflake" where
  "RoleID f = (case af_role f of None \<Rightarrow> 0 | Some r \<Rightarrow> r)"

definition buildAllowUserFilter :: "'s Store \<Rightarrow> snowflake \<Rightarrow> 's \<Rightarrow> AllowFilter" where
  "buildAllowUserFilter S g s = \<lparr>af_allowed = Map.empty, af_role = s_GetBoundRole S g RoleTypeCaller s\<rparr>"

definition af_fallback :: "bool \<Rightarrow> caches \<Rightarrow> snowflake \<Rightarrow> snowflake option \<Rightarrow> snowflake \<Rightarrow> bool" where
  "af_fallback ab cs g role u =
     (case role of
        None \<Rightarrow> False
      | Some r \<Rightarrow> (case members cs (g, u) of None \<Rightarrow> False | Some mb \<Rightarrow> \<not> IsBot ab mb \<and> r \<in> set (mb_roles mb)))"

definition af_Set :: "snowflake \<Rightarrow> bool \<Rightarrow> AllowFilter \<Rightarrow> AllowFilter" where
  "af_Set u v f = f\<lparr>af_allowed := (af_allowed f)(u \<mapsto> v)\<rparr>"

text \<open>The first step of \<^verbatim>\<open>Check\<close>: the decision, and whether it is still to be memoised.\<close>

definition check_lookup :: "bool \<Rightarrow> caches \<Rightarrow> snowflake \<Rightarrow> snowflake \<Rightarrow> AllowFilter \<Rightarrow> bool \<times> bool" where
  "check_lookup ab cs g u f =
     (case af_allowed f u of Some v \<Rightarrow> (v, False) | None \<Rightarrow> (af_fallback ab cs g (af_role f) u, True))"

definition check_store :: "snowflake \<Rightarrow> bool \<times> bool \<Rightarrow> AllowFilter \<Rightarrow> AllowFilter" where
  "check_store u d f = (if snd d then af_Set u (fst d) f else f)"

definition af_Check :: "bool \<Rightarrow> caches \<Rightarrow> snowflake \<Rightarrow> snowflake \<Rightarrow> AllowFilter \<Rightarrow> bool \<times> AllowFilter" where
  "af_Check ab cs g u f = (let d = check_lookup ab cs g u f in (fst d, check_store u d f))"

text \<open>
  A member update of a guild with a session: the filter, and the channel whose routing is recomputed.
\<close>

definition NotifyMemberUpdate ::
  "'s Store \<Rightarrow> bool \<Rightarrow> caches \<Rightarrow> snowflake \<Rightarrow> snowflake \<Rightarrow> member \<Rightarrow> bool \<Rightarrow> 's \<Rightarrow> AllowFilter \<Rightarrow>
   AllowFilter \<times> snowflake option" where
  "NotifyMemberUpdate S ab cs g u mb routed s f =
     (af_Set u (\<not> IsBot ab mb \<and> HasCallerRole S g (mb_roles mb) s) f,
      if routed then Option.bind (find (\<lambda>v. fst v = u \<and> snd v \<noteq> None) (VoiceStates cs g)) snd else None)"

definition onGuildMemberUpdate ::
  "'s Store \<Rightarrow> bool \<Rightarrow> snowflake \<Rightarrow> snowflake \<Rightarrow> member \<Rightarrow> 's \<Rightarrow> caches \<times> AllowFilter \<Rightarrow> caches \<times> AllowFilter" where
  "onGuildMemberUpdate S ab g u mb s cf =
     (if IsBot ab mb then cf
      else let cs = AddMember g u mb (fst cf)
           in (cs, fst (NotifyMemberUpdate S ab cs g u mb False s (snd cf))))"

text \<open>
  A voice event of a human: who moved where, and the channels the auto-router is told of.  The member of a
  join is cached and judged afresh; the leave evicts it.
\<close>

definition move_user :: "snowflake \<Rightarrow> snowflake \<Rightarrow> snowflake option \<Rightarrow> caches \<Rightarrow> caches" where
  "move_user g u ch cs = cs\<lparr>VoiceStates := (VoiceStates cs)(g :=
     (case ch of None \<Rightarrow> [] | Some c \<Rightarrow> [(u, Some c)]) @ filter (\<lambda>v. fst v \<noteq> u) (VoiceStates cs g))\<rparr>"

datatype voice_event = VoiceJoin snowflake | VoiceLeave | VoiceMove snowflake

text \<open>The routers triggered: by a join the channel joined, by a leave the one left, by a move both.\<close>

definition auto_routes :: "snowflake option \<Rightarrow> voice_event \<Rightarrow> snowflake list" where
  "auto_routes old e =
     (case e of
        VoiceJoin c \<Rightarrow> [c]
      | VoiceLeave \<Rightarrow> (case old of None \<Rightarrow> [] | Some c \<Rightarrow> [c])
      | VoiceMove c \<Rightarrow> (case old of None \<Rightarrow> [] | Some c0 \<Rightarrow> [c0]) @ [c])"

definition onVoiceEvent ::
  "'s Store \<Rightarrow> bool \<Rightarrow> snowflake \<Rightarrow> snowflake \<Rightarrow> member \<Rightarrow> voice_event \<Rightarrow> 's \<Rightarrow> caches \<times> AllowFilter \<Rightarrow>
   caches \<times> AllowFilter" where
  "onVoiceEvent S ab g u mb e s cf =
     (case e of
        VoiceJoin c \<Rightarrow> onGuildMemberUpdate S ab g u mb s (move_user g u (Some c) (fst cf), snd cf)
      | VoiceMove c \<Rightarrow> (move_user g u (Some c) (fst cf), snd cf)
      | VoiceLeave \<Rightarrow> (evictVoiceLeaver g u (mb_bot mb) (move_user g u None (fst cf)), snd cf))"

section \<open>The filter and the router see the same callers\<close>

datatype member_op = OpVoice snowflake member voice_event | OpUpdate snowflake member | OpCheck snowflake

fun op_member :: "member_op \<Rightarrow> (snowflake \<times> member) option" where
  "op_member (OpVoice u mb e) = Some (u, mb)"
| "op_member (OpUpdate u mb) = Some (u, mb)"
| "op_member (OpCheck u) = None"

fun do_member_op :: "'s Store \<Rightarrow> bool \<Rightarrow> snowflake \<Rightarrow> 's \<Rightarrow> member_op \<Rightarrow> caches \<times> AllowFilter \<Rightarrow> caches \<times> AllowFilter" where
  "do_member_op S ab g s (OpVoice u mb e) cf = onVoiceEvent S ab g u mb e s cf"
| "do_member_op S ab g s (OpUpdate u mb) cf = onGuildMemberUpdate S ab g u mb s cf"
| "do_member_op S ab g s (OpCheck u) cf = (fst cf, snd (af_Check ab (fst cf) g u (snd cf)))"

text \<open>The cached members of a guild are its bots and the humans in voice.\<close>

definition members_ok :: "(snowflake \<Rightarrow> bool) \<Rightarrow> snowflake \<Rightarrow> caches \<Rightarrow> bool" where
  "members_ok is_bot g cs \<longleftrightarrow>
     (\<forall>u mb. members cs (g, u) = Some mb \<longrightarrow> mb_bot mb = is_bot u \<and> (is_bot u \<or> u \<in> fst ` set (VoiceStates cs g)))"

definition memos_ok :: "bool \<Rightarrow> snowflake \<Rightarrow> snowflake option \<Rightarrow> caches \<times> AllowFilter \<Rightarrow> bool" where
  "memos_ok ab g role cf \<longleftrightarrow> af_role (snd cf) = role \<and>
     (\<forall>u v. members (fst cf) (g, u) \<noteq> None \<and> af_allowed (snd cf) u = Some v \<longrightarrow> v = af_fallback ab (fst cf) g role u)"

definition op_ok :: "(snowflake \<Rightarrow> bool) \<Rightarrow> member_op \<Rightarrow> bool" where
  "op_ok is_bot op \<longleftrightarrow> (case op_member op of None \<Rightarrow> True | Some (u, mb) \<Rightarrow> mb_bot mb = is_bot u)"

lemma move_user_simps [simp]:
  "members (move_user g u ch cs) = members cs"
  "u' \<in> fst ` set (VoiceStates (move_user g u ch cs) g) \<longleftrightarrow>
     (if u' = u then ch \<noteq> None else u' \<in> fst ` set (VoiceStates cs g))"
  by (auto simp: move_user_def image_iff split: option.splits)

lemma AddMember_simps [simp]:
  "VoiceStates (AddMember g u mb cs) = VoiceStates cs"
  "members (AddMember g u mb cs) (g, u') = (if u' = u \<and> keepMember cs g u mb then Some mb else members cs (g, u'))"
  by (auto simp: AddMember_def)

lemma af_fallback_cong: "members cs (g, u) = members cs' (g, u) \<Longrightarrow> af_fallback ab cs g role u = af_fallback ab cs' g role u"
  by (cases role) (simp_all add: af_fallback_def)

lemma memos_ok_sub:
  assumes "memos_ok ab g role (cs, f)" and "\<And>u. members cs' (g, u) \<noteq> None \<Longrightarrow> members cs' (g, u) = members cs (g, u)"
  shows "memos_ok ab g role (cs', f)"
proof -
  have "v = af_fallback ab cs' g role u" if "members cs' (g, u) \<noteq> None" "af_allowed f u = Some v" for u v
    using assms that af_fallback_cong [OF assms(2) [OF that(1)]] by (auto simp: memos_ok_def)
  then show ?thesis using assms(1) by (simp add: memos_ok_def)
qed

lemma onGuildMemberUpdate_ok:
  assumes "mb_bot mb = is_bot u" and "members_ok is_bot g (fst cf)" and "memos_ok ab g role cf"
    and "role = s_GetBoundRole S g RoleTypeCaller s"
  shows "members_ok is_bot g (fst (onGuildMemberUpdate S ab g u mb s cf)) \<and> memos_ok ab g role (onGuildMemberUpdate S ab g u mb s cf)"
proof (cases "IsBot ab mb")
  case False
  let ?cs = "AddMember g u mb (fst cf)"
  have ok: "members_ok is_bot g ?cs"
    using assms(1,2) by (auto simp: members_ok_def keepMember_def)
  have memo: "v = af_fallback ab ?cs g role u'"
    if "members ?cs (g, u') \<noteq> None" "af_allowed (af_Set u (\<not> IsBot ab mb \<and> HasCallerRole S g (mb_roles mb) s) (snd cf)) u' = Some v"
    for u' v
  proof (cases "u' = u")
    case True
    have "keepMember (fst cf) g u mb"
      using that(1) True assms(1,2) by (auto simp: members_ok_def keepMember_def split: if_splits)
    then show ?thesis
      using that True assms(4) by (auto simp: af_Set_def af_fallback_def HasCallerRole_def split: option.splits)
  next
    case u': False
    then have "af_fallback ab ?cs g role u' = af_fallback ab (fst cf) g role u'" by (intro af_fallback_cong) simp
    then show ?thesis using that u' assms(3) by (auto simp: memos_ok_def af_Set_def)
  qed
  show ?thesis
    using False ok memo assms(3)
    by (auto simp: onGuildMemberUpdate_def NotifyMemberUpdate_def Let_def memos_ok_def af_Set_def)
qed (use assms in \<open>simp add: onGuildMemberUpdate_def\<close>)

lemma do_member_op_ok:
  assumes "op_ok is_bot op" and "members_ok is_bot g (fst cf)" and "memos_ok ab g role cf"
    and "role = s_GetBoundRole S g RoleTypeCaller s"
  shows "members_ok is_bot g (fst (do_member_op S ab g s op cf)) \<and> memos_ok ab g role (do_member_op S ab g s op cf)"
proof (cases op)
  case (OpUpdate u mb)
  then show ?thesis using assms onGuildMemberUpdate_ok [OF _ assms(2,3,4)] by (simp add: op_ok_def)
next
  case (OpCheck u)
  have "memos_ok ab g role (fst cf, snd (af_Check ab (fst cf) g u (snd cf)))"
    using assms(3) by (auto simp: memos_ok_def af_Check_def check_lookup_def check_store_def af_Set_def Let_def
        split: option.splits if_splits)
  then show ?thesis using OpCheck assms(2) by simp
next
  case (OpVoice u mb e)
  then have b: "mb_bot mb = is_bot u" using assms(1) by (simp add: op_ok_def)
  let ?moved = "\<lambda>ch. (move_user g u ch (fst cf), snd cf)"
  have m: "memos_ok ab g role (?moved ch)" for ch
    using assms(3) af_fallback_cong [of "move_user g u ch (fst cf)" g _ "fst cf"] by (simp add: memos_ok_def)
  have c: "members_ok is_bot g (move_user g u (Some c) (fst cf))" for c
    using assms(2) by (auto simp: members_ok_def)
  show ?thesis
  proof (cases e)
    case (VoiceJoin ch)
    show ?thesis
      using onGuildMemberUpdate_ok [of mb is_bot u g "?moved (Some ch)", OF b _ m assms(4)] c OpVoice VoiceJoin
      by (simp add: onVoiceEvent_def)
  next
    case (VoiceMove ch)
    then show ?thesis using OpVoice m c by (simp add: onVoiceEvent_def)
  next
    case VoiceLeave
    have mem: "members (evictVoiceLeaver g u b' cs) (g, u') = (if u' = u \<and> \<not> b' then None else members cs (g, u'))"
      "VoiceStates (evictVoiceLeaver g u b' cs) = VoiceStates cs" for b' cs u'
      by (simp_all add: evictVoiceLeaver_def)
    have "members_ok is_bot g (evictVoiceLeaver g u (mb_bot mb) (move_user g u None (fst cf)))"
      using assms(2) b by (auto simp: members_ok_def mem split: if_splits)
    moreover have "memos_ok ab g role (evictVoiceLeaver g u (mb_bot mb) (move_user g u None (fst cf)), snd cf)"
      by (rule memos_ok_sub [of ab g role "fst cf" "snd cf"]) (use assms(3) in \<open>auto simp: mem split: if_splits\<close>)
    ultimately show ?thesis using OpVoice VoiceLeave by (simp add: onVoiceEvent_def)
  qed
qed

lemma member_ops_ok:
  assumes "list_all (op_ok is_bot) ops" and "members_ok is_bot g cs" and "memos_ok ab g role (cs, f)"
    and "role = s_GetBoundRole S g RoleTypeCaller s"
  shows "members_ok is_bot g (fst (fold (do_member_op S ab g s) ops (cs, f))) \<and>
    memos_ok ab g role (fold (do_member_op S ab g s) ops (cs, f))"
  using assms
proof (induction ops arbitrary: cs f)
  case (Cons op ops)
  obtain cs1 f1 where one: "do_member_op S ab g s op (cs, f) = (cs1, f1)" by fastforce
  have "members_ok is_bot g cs1 \<and> memos_ok ab g role (cs1, f1)"
    using do_member_op_ok [of is_bot op g "(cs, f)" ab role S s] Cons.prems one by simp
  then show ?case using Cons.IH [of cs1 f1] Cons.prems one by simp
qed simp


text \<open>Guild 9 with role 7: user 1 joins with the role, speaks, and loses it; user 2 speaks.\<close>

definition demo_ops :: "member_op list" where
  "demo_ops = [OpVoice 1 \<lparr>mb_bot = False, mb_roles = [7]\<rparr> (VoiceJoin 21), OpCheck 1,
     OpVoice 2 \<lparr>mb_bot = False, mb_roles = [7]\<rparr> (VoiceJoin 21), OpUpdate 1 \<lparr>mb_bot = False, mb_roles = []\<rparr>, OpCheck 2]"

definition no_caches :: caches where
  "no_caches = \<lparr>VoiceStates = (\<lambda>_. []), members = Map.empty\<rparr>"

definition demo_members :: "caches \<times> AllowFilter" where
  "demo_members = fold (do_member_op memory_store False 9 raid_store) demo_ops (no_caches, buildAllowUserFilter memory_store 9 raid_store)"

lemma demo_members_facts:
  "s_GetBoundRole memory_store 9 RoleTypeCaller raid_store = Some 7 \<and>
   (1, Some 21) \<in> set (VoiceStates (fst demo_members) 9) \<and> members (fst demo_members) (9, 1) \<noteq> None \<and>
   (2, Some 21) \<in> set (VoiceStates (fst demo_members) 9) \<and> members (fst demo_members) (9, 2) \<noteq> None \<and>
   2 \<in> set (EnumerateCallers (cacheVoiceProbe False (fst demo_members) 9 (RoleID (snd demo_members)) (\<lambda>_. False)) 21)"
  by code_simp


text \<open>
  A memo made for want of a member is not made again when the member becomes known: a user whose first
  frame arrives before the owner bot has cached the member (the gateway was down when the user joined)
  stays inaudible after \<^verbatim>\<open>GUILD_CREATE\<close> has cached the member, while the router counts the same
  user as a caller.
\<close>

theorem missed_member_stays_muted:
  assumes "members cs (g, u) = None" and "af_allowed f u = None" and "af_role f = Some role"
    and "\<not> IsBot ab mb" and "role \<in> set (mb_roles mb)"
    and "u \<notin> fst ` set ms" and "(u, Some c) \<in> set (VoiceStates cs g)"
  shows "let f' = snd (af_Check ab cs g u f); cs' = cacheVoiceMembers g (ms @ [(u, mb)]) cs in
    \<not> fst (af_Check ab cs' g u f') \<and> af_fallback ab cs' g (af_role f') u \<and>
    u \<in> set (EnumerateCallers (cacheVoiceProbe ab cs' g (RoleID f') feed) c)"
proof -
  have vs: "VoiceStates (cacheVoiceMembers g xs cs) = VoiceStates cs" for xs
    unfolding cacheVoiceMembers_def by (rule fold_invariant) (auto split: prod.splits)
  have miss: "af_fallback ab cs g (af_role f) u = False" using assms(1,3) by (simp add: af_fallback_def)
  let ?f = "snd (af_Check ab cs g u f)" and ?cs = "cacheVoiceMembers g (ms @ [(u, mb)]) cs"
  have f: "af_allowed ?f u = Some False" "af_role ?f = Some role"
    using assms(2,3) miss by (simp_all add: af_Check_def check_lookup_def check_store_def af_Set_def Let_def)
  have "members ?cs (g, u) = Some mb"
    using assms(7) vs [of ms] by (force simp: cacheVoiceMembers_def keepMember_def)
  moreover have "(u, Some c) \<in> set (VoiceStates ?cs g)" using assms(7) vs by simp
  ultimately have "af_fallback ab ?cs g (af_role ?f) u"
    "u \<in> set (EnumerateCallers (cacheVoiceProbe ab ?cs g (RoleID ?f) feed) c)"
    using assms(4,5) f(2) by (force simp: af_fallback_def cacheVoiceProbe_def probe_callers_def RoleID_def in_channel_def)+
  then show ?thesis using f(1) by (simp add: af_Check_def check_lookup_def Let_def)
qed

lemma missed_member_stays_muted_witness:
  "\<not> fst (af_Check False (cacheVoiceMembers 9 [(1, \<lparr>mb_bot = False, mb_roles = [7]\<rparr>)] (no_caches\<lparr>VoiceStates := (\<lambda>_. [(1, Some 21)])\<rparr>)) 9 1
     (snd (af_Check False (no_caches\<lparr>VoiceStates := (\<lambda>_. [(1, Some 21)])\<rparr>) 9 1 (buildAllowUserFilter memory_store 9 raid_store))))"
  using missed_member_stays_muted [of "no_caches\<lparr>VoiceStates := (\<lambda>_. [(1, Some 21)])\<rparr>" 9 1
      "buildAllowUserFilter memory_store 9 raid_store" 7 False "\<lparr>mb_bot = False, mb_roles = [7]\<rparr>" "[]" 21 "\<lambda>_. False"]
    demo_members_facts
  by (simp add: no_caches_def buildAllowUserFilter_def IsBot_def Let_def)

text \<open>
  A member update between the two steps of a check is lost: the memo stored last is the decision from
  before the update.
\<close>

theorem late_memo_overwrites_update:
  assumes "af_allowed f u = None"
  shows "fst (af_Check ab cs' g u (check_store u (check_lookup ab cs g u f) (af_Set u new f))) =
    af_fallback ab cs g (af_role f) u"
  using assms by (simp add: check_lookup_def check_store_def af_Check_def af_Set_def Let_def)

section \<open>The idle watcher\<close>

definition sessionPresenceInterval :: duration where "sessionPresenceInterval = Minute"

record sessionPresenceWatcher =
  pw_channels :: "snowflake list"
  pw_callerRole :: snowflake
  pw_idleTimeout :: duration

definition hasCaller :: "sessionPresenceWatcher \<Rightarrow> probe \<Rightarrow> bool" where
  "hasCaller w p \<longleftrightarrow> list_ex (\<lambda>c. EnumerateCallers p c \<noteq> []) (pw_channels w)"

definition presence_interval :: "sessionPresenceWatcher \<Rightarrow> duration" where
  "presence_interval w = min sessionPresenceInterval (pw_idleTimeout w)"

text \<open>
  The ticks of a run, each with its time and whether a caller is there; the result is the tick at which the
  session is stopped, if it is.
\<close>

fun presence_run :: "duration \<Rightarrow> instant \<Rightarrow> (instant \<times> bool) list \<Rightarrow> nat option" where
  "presence_run idle since [] = None"
| "presence_run idle since ((now, has) # ticks) =
     (if has then map_option Suc (presence_run idle zero_time ticks)
      else if IsZero since then map_option Suc (presence_run idle now ticks)
      else if now - since \<ge> idle then Some 0
      else map_option Suc (presence_run idle since ticks))"

definition presence_Run :: "sessionPresenceWatcher \<Rightarrow> (instant \<times> probe) list \<Rightarrow> nat option" where
  "presence_Run w ticks =
     (if pw_idleTimeout w \<le> 0 \<or> pw_channels w = [] then None
      else presence_run (pw_idleTimeout w) zero_time (map (\<lambda>(t, p). (t, hasCaller w p)) ticks))"

text \<open>A stop has a stretch without callers of the full timeout before it.\<close>

lemma presence_run_sound:
  "presence_run idle since ticks = Some k \<Longrightarrow> k < length ticks \<and> \<not> snd (ticks ! k) \<and>
     ((\<exists>j < k. idle \<le> fst (ticks ! k) - fst (ticks ! j) \<and> (\<forall>i. j \<le> i \<and> i \<le> k \<longrightarrow> \<not> snd (ticks ! i))) \<or>
      \<not> IsZero since \<and> idle \<le> fst (ticks ! k) - since \<and> (\<forall>i \<le> k. \<not> snd (ticks ! i)))"
proof (induction idle since ticks arbitrary: k rule: presence_run.induct)
  case (2 idle since now has ticks)
  show ?case
  proof (cases "\<not> has \<and> \<not> IsZero since \<and> now - since \<ge> idle")
    case True
    then show ?thesis using "2.prems" by simp
  next
    case False
    define since' where "since' = (if has then zero_time else if IsZero since then now else since)"
    from False "2.prems" have "map_option Suc (presence_run idle since' ticks) = Some k"
      by (auto simp: since'_def split: if_splits)
    then obtain k' where k: "k = Suc k'" "presence_run idle since' ticks = Some k'" by auto
    have "k' < length ticks \<and> \<not> snd (ticks ! k') \<and>
     ((\<exists>j < k'. idle \<le> fst (ticks ! k') - fst (ticks ! j) \<and> (\<forall>i. j \<le> i \<and> i \<le> k' \<longrightarrow> \<not> snd (ticks ! i))) \<or>
      \<not> IsZero since' \<and> idle \<le> fst (ticks ! k') - since' \<and> (\<forall>i \<le> k'. \<not> snd (ticks ! i)))"
      using "2.IH" False k(2) by (auto simp: since'_def split: if_splits)
    then consider (late) j where "k' < length ticks" "\<not> snd (ticks ! k')" "j < k'" "idle \<le> fst (ticks ! k') - fst (ticks ! j)"
        "\<forall>i. j \<le> i \<and> i \<le> k' \<longrightarrow> \<not> snd (ticks ! i)"
      | (early) "k' < length ticks" "\<not> snd (ticks ! k')" "\<not> IsZero since'" "idle \<le> fst (ticks ! k') - since'"
        "\<forall>i \<le> k'. \<not> snd (ticks ! i)"
      by blast
    then show ?thesis
    proof cases
      case late
      have "idle \<le> fst (((now, has) # ticks) ! k) - fst (((now, has) # ticks) ! Suc j) \<and>
          (\<forall>i. Suc j \<le> i \<and> i \<le> k \<longrightarrow> \<not> snd (((now, has) # ticks) ! i))"
        using late k(1) by (auto simp: nth_Cons split: nat.split)
      then show ?thesis using late k(1) by (auto intro: exI [of _ "Suc j"])
    next
      case early
      have h: "\<not> has" using early(3) by (auto simp: since'_def IsZero_def)
      have all: "\<forall>i \<le> k. \<not> snd (((now, has) # ticks) ! i)" using early(5) h k(1) by (auto simp: nth_Cons split: nat.split)
      show ?thesis
      proof (cases "IsZero since")
        case True
        then have "idle \<le> fst (((now, has) # ticks) ! k) - fst (((now, has) # ticks) ! 0)"
          using early(4) h k(1) by (simp add: since'_def)
        then show ?thesis using all early k(1) by (auto intro!: disjI1 exI [of _ 0])
      next
        case False
        then show ?thesis using all early h k(1) by (simp add: since'_def)
      qed
    qed
  qed
qed simp

lemma presence_run_waiting:
  assumes "\<not> IsZero since" and "k < length ticks" and "\<forall>i \<le> k. \<not> snd (ticks ! i)" and "idle \<le> fst (ticks ! k) - since"
  shows "\<exists>m \<le> k. presence_run idle since ticks = Some m"
  using assms(2-4)
proof (induction ticks arbitrary: k)
  case (Cons tick ticks)
  obtain now has where tick: "tick = (now, has)" by fastforce
  have h: "\<not> has" using Cons.prems(2) tick by auto
  show ?case
  proof (cases "now - since \<ge> idle")
    case True
    then show ?thesis using tick h assms(1) by simp
  next
    case False
    then obtain k' where k: "k = Suc k'" using Cons.prems(3) tick by (cases k) auto
    have "\<exists>m \<le> k'. presence_run idle since ticks = Some m"
      using Cons.prems k tick by (intro Cons.IH) auto
    then show ?thesis using k tick h assms(1) False by auto
  qed
qed simp

lemma presence_run_complete:
  assumes "sorted (map fst ticks)" and "\<forall>t \<in> set ticks. zero_time < fst t" and "since = zero_time \<or> (\<forall>t \<in> set ticks. since \<le> fst t)"
    and "j \<le> k" and "k < length ticks" and "\<forall>i. j \<le> i \<and> i \<le> k \<longrightarrow> \<not> snd (ticks ! i)"
    and "idle \<le> fst (ticks ! k) - fst (ticks ! j)" and "0 < idle"
  shows "\<exists>m \<le> k. presence_run idle since ticks = Some m"
  using assms(1-7)
proof (induction ticks arbitrary: since j k)
  case (Cons tick ticks)
  obtain now has where tick: "tick = (now, has)" by fastforce
  have "j \<noteq> k" using Cons.prems(7) assms(8) by auto
  then obtain k' where k: "k = Suc k'" using Cons.prems(4) by (cases k) auto
  have nz: "\<not> IsZero now" using Cons.prems(2) tick by (auto simp: IsZero_def)
  have ge: "\<forall>t \<in> set ticks. now \<le> fst t" using Cons.prems(1) tick by auto
  show ?case
  proof (cases "\<not> has \<and> \<not> IsZero since \<and> now - since \<ge> idle")
    case True
    then show ?thesis using tick by simp
  next
    case False
    define since' where "since' = (if has then zero_time else if IsZero since then now else since)"
    have step: "presence_run idle since (tick # ticks) = map_option Suc (presence_run idle since' ticks)"
      using False tick by (auto simp: since'_def)
    have "\<exists>m \<le> k'. presence_run idle since' ticks = Some m"
    proof (cases j)
      case (Suc j')
      have "since' = zero_time \<or> (\<forall>t \<in> set ticks. since' \<le> fst t)"
        using Cons.prems(3) ge by (auto simp: since'_def IsZero_def)
      moreover have "\<not> snd (ticks ! i)" if "j' \<le> i" "i \<le> k'" for i
        using Cons.prems(6) [rule_format, of "Suc i"] that Suc k by simp
      ultimately show ?thesis
        using Cons.prems(1,2,4,5,7) Suc k by (intro Cons.IH [of since' j' k']) auto
    next
      case 0
      have h: "\<not> has" using Cons.prems(6) [rule_format, of 0] 0 tick by simp
      have "\<not> IsZero since' \<and> since' \<le> now"
        using Cons.prems(3) h nz tick by (auto simp: since'_def IsZero_def)
      moreover have "\<not> snd (ticks ! i)" if "i \<le> k'" for i
        using Cons.prems(6) [rule_format, of "Suc i"] that 0 k by simp
      ultimately show ?thesis
        using Cons.prems(5,7) 0 k tick by (intro presence_run_waiting) auto
    qed
    then show ?thesis using step k by auto
  qed
qed simp

text \<open>
  C28. The idle watcher stops a session for good reason and in time: at the tick at which it stops
  there has been no caller at any tick of a stretch that spans the timeout, and it has stopped by the end
  of any such stretch.
\<close>

theorem idle_watcher_exact:
  assumes "0 < idle" and "sorted (map fst ticks)" and "\<forall>t \<in> set ticks. zero_time < fst t"
  shows "(presence_run idle zero_time ticks = Some k \<longrightarrow>
      k < length ticks \<and> (\<exists>j < k. idle \<le> fst (ticks ! k) - fst (ticks ! j) \<and> (\<forall>i. j \<le> i \<and> i \<le> k \<longrightarrow> \<not> snd (ticks ! i)))) \<and>
    (j \<le> n \<and> n < length ticks \<and> idle \<le> fst (ticks ! n) - fst (ticks ! j) \<and> (\<forall>i. j \<le> i \<and> i \<le> n \<longrightarrow> \<not> snd (ticks ! i)) \<longrightarrow>
      (\<exists>m \<le> n. presence_run idle zero_time ticks = Some m))"
  using presence_run_sound [of idle zero_time ticks k] presence_run_complete [of ticks zero_time j n idle] assms
  by (auto simp: IsZero_def)

lemma idle_watcher_exact_witness:
  "presence_run (3 * Minute) zero_time (map (\<lambda>i. (Minute * i, i = 1)) [0, 1, 2, 3, 4, 5, 6]) = Some 5 \<and>
   (\<exists>j < 5. 3 * Minute \<le> Minute * 5 - fst (map (\<lambda>i. (Minute * i, i = 1)) [0, 1, 2, 3, 4, 5, 6] ! j))"
proof -
  let ?ticks = "map (\<lambda>i. (Minute * i, i = 1)) [0, 1, 2, 3, 4, 5, 6]"
  have r: "presence_run (3 * Minute) zero_time ?ticks = Some 5" by code_simp
  have "0 < 3 * Minute" "sorted (map fst ?ticks)" "\<forall>t \<in> set ?ticks. zero_time < fst t"
    by (simp_all add: duration_defs zero_time_def)
  from idle_watcher_exact [OF this, of 5 0 0] r show ?thesis by auto
qed

text \<open>Stopping the session that went idle, and no other.\<close>

definition stopIdleSession :: "discord \<Rightarrow> snowflake \<Rightarrow> nat \<Rightarrow> 's Service \<Rightarrow> 's Service" where
  "stopIdleSession dc g t m =
     (case StopVoiceRaid dc g (Some t) m of
        (Some err, m') \<Rightarrow> m'\<lparr>cancelled := insert t (cancelled m')\<rparr>
      | (None, m') \<Rightarrow> m')"

text \<open>
  An idle stop ends only the session it was started for: if another one (or none) is in its place, it
  cancels its own context and leaves session, router, bots, relay and start guard as they are.
\<close>

theorem stopIdleSession_only_own:
  assumes "case session_of g m of None \<Rightarrow> True | Some se \<Rightarrow> gs_token se \<noteq> t"
  shows "stopIdleSession dc g t m = m\<lparr>cancelled := insert t (cancelled m)\<rparr>"
  using assms by (auto simp: stopIdleSession_def StopVoiceRaid_def stop_take_def session_of_def split: option.splits)

lemma stopIdleSession_only_own_witness:
  "stopIdleSession small_world 9 5 raid_ready = raid_ready\<lparr>cancelled := insert 5 (cancelled raid_ready)\<rparr>"
  by (rule stopIdleSession_only_own) (simp add: raid_ready_facts)

end
