(* ===== verification/Bot.thy ===== *)
theory Bot
  imports Reconnect Presence "HOL-Library.List_Lexorder" "HOL-Library.Char_ord"
begin

text \<open>
  The bot's front end: \<^verbatim>\<open>internal/bot/ready_guard.go\<close>, the authorisation of \<^verbatim>\<open>middleware.go\<close>, the
  commands of \<^verbatim>\<open>handlers_voice.go\<close>, the speaker pages of \<^verbatim>\<open>setup_ui.go\<close> and the setup panel of
  \<^verbatim>\<open>handlers_setup.go\<close>.

  An answer is the list of the message keys it is put together from, with their arguments; the texts behind
  the keys are translations.
\<close>

section \<open>Repeated READYs\<close>

definition readyStormWindow :: duration where "readyStormWindow = 10 * Minute"
definition readyStormLimit :: nat where "readyStormLimit = 5"

record readyGuard =
  rg_window :: duration
  rg_limit :: nat
  rg_seen :: "instant list"
  rg_storm :: bool

definition newReadyGuard :: readyGuard where
  "newReadyGuard = \<lparr>rg_window = readyStormWindow, rg_limit = readyStormLimit, rg_seen = [], rg_storm = False\<rparr>"

text \<open>The result is whether the READY is allowed and whether it starts a storm.\<close>

definition admit :: "instant \<Rightarrow> readyGuard \<Rightarrow> readyGuard \<times> bool \<times> bool" where
  "admit now g =
     (let cutoff = now - rg_window g; g' = g\<lparr>rg_seen := filter (\<lambda>t. cutoff < t) (rg_seen g) @ [now]\<rparr>
      in if length (rg_seen g') \<le> rg_limit g' then (g'\<lparr>rg_storm := False\<rparr>, True, False)
         else (g'\<lparr>rg_storm := True\<rparr>, False, \<not> rg_storm g))"

fun admits :: "instant list \<Rightarrow> readyGuard \<Rightarrow> (bool \<times> bool) list" where
  "admits [] g = []"
| "admits (t # ts) g = (let (g', r) = admit t g in r # admits ts g')"

lemma length_admits [simp]: "length (admits ts g) = length ts"
  by (induction ts arbitrary: g) (simp_all add: split_beta)

text \<open>What the guard knows of the READYs so far.\<close>

definition guard_knows :: "instant list \<Rightarrow> instant \<Rightarrow> bool \<Rightarrow> readyGuard \<Rightarrow> bool" where
  "guard_knows past prev refused g \<longleftrightarrow>
     rg_seen g = filter (\<lambda>t. prev - rg_window g < t) past \<and> rg_storm g = refused"

lemma filter_after: "c \<le> c' \<Longrightarrow> filter (\<lambda>t. c' < t) (filter (\<lambda>t. c < t) xs) = filter (\<lambda>t. c' < (t :: int)) xs"
  by (induction xs) auto

lemma admit_knows:
  assumes "guard_knows past prev refused g" and "prev \<le> now" and "0 < rg_window g" and "admit now g = (g', allowed, tripped)"
  shows "(allowed \<longleftrightarrow> length (filter (\<lambda>t. now - rg_window g < t) (past @ [now])) \<le> rg_limit g) \<and>
    (tripped \<longleftrightarrow> \<not> allowed \<and> \<not> refused) \<and> guard_knows (past @ [now]) now (\<not> allowed) g' \<and>
    rg_window g' = rg_window g \<and> rg_limit g' = rg_limit g"
  using assms filter_after [of "prev - rg_window g" "now - rg_window g" past]
  by (auto simp: guard_knows_def admit_def Let_def split: if_splits)

lemma admits_exact:
  assumes "guard_knows past prev refused g" and "sorted ts" and "\<forall>t \<in> set ts. prev \<le> t" and "0 < rg_window g"
    and "i < length ts"
  shows "(fst (admits ts g ! i) \<longleftrightarrow>
      length (filter (\<lambda>t. ts ! i - rg_window g < t) (past @ take (Suc i) ts)) \<le> rg_limit g) \<and>
    (snd (admits ts g ! i) \<longleftrightarrow>
      \<not> fst (admits ts g ! i) \<and> (if i = 0 then \<not> refused else fst (admits ts g ! (i - 1))))"
  using assms
proof (induction ts arbitrary: past prev refused g i)
  case (Cons t ts)
  obtain g' allowed tripped where one: "admit t g = (g', allowed, tripped)" by (cases "admit t g") auto
  have "prev \<le> t" using Cons.prems(3) by simp
  note k = admit_knows [OF Cons.prems(1) this Cons.prems(4) one]
  show ?case
  proof (cases i)
    case 0
    then show ?thesis using k one by simp
  next
    case (Suc j)
    have "(fst (admits ts g' ! j) \<longleftrightarrow>
        length (filter (\<lambda>u. ts ! j - rg_window g' < u) ((past @ [t]) @ take (Suc j) ts)) \<le> rg_limit g') \<and>
      (snd (admits ts g' ! j) \<longleftrightarrow>
        \<not> fst (admits ts g' ! j) \<and> (if j = 0 then \<not> \<not> allowed else fst (admits ts g' ! (j - 1))))"
      using Cons.prems Suc k by (intro Cons.IH [of "past @ [t]" t "\<not> allowed" g' j]) auto
    then show ?thesis using k one Suc by (cases j) (auto simp: Let_def)
  qed
qed simp

text \<open>
  Seeding is bounded under a gateway that keeps identifying: a READY leads to a seeding exactly if
  it is one of at most five in the ten minutes up to it, and exactly the first refused one of each run of
  refusals is reported.
\<close>

theorem ready_guard_exact:
  assumes "sorted ts" and "i < length ts"
  shows "(fst (admits ts newReadyGuard ! i) \<longleftrightarrow>
      length (filter (\<lambda>t. ts ! i - 10 * Minute < t) (take (Suc i) ts)) \<le> 5) \<and>
    (snd (admits ts newReadyGuard ! i) \<longleftrightarrow>
      \<not> fst (admits ts newReadyGuard ! i) \<and> (i = 0 \<or> fst (admits ts newReadyGuard ! (i - 1))))"
proof -
  have "ts \<noteq> []" using assms(2) by auto
  then have "guard_knows [] (hd ts) False newReadyGuard" "\<forall>t \<in> set ts. hd ts \<le> t"
    using assms(1) by (cases ts, auto simp: guard_knows_def newReadyGuard_def)+
  from admits_exact [OF this(1) assms(1) this(2) _ assms(2)] show ?thesis
    by (simp add: newReadyGuard_def readyStormWindow_def readyStormLimit_def duration_defs)
qed

lemma ready_guard_exact_witness:
  "admits (map (\<lambda>i. Minute * i) [0, 1, 2, 3, 4, 5, 6, 13]) newReadyGuard =
     replicate 5 (True, False) @ [(False, True), (False, False), (True, False)] \<and>
   length (filter (\<lambda>t. Minute * 13 - 10 * Minute < t) (map (\<lambda>i. Minute * i) [0, 1, 2, 3, 4, 5, 6, 13])) \<le> 5"
proof -
  let ?ts = "map (\<lambda>i. Minute * i) [0, 1, 2, 3, 4, 5, 6, 13]"
  have r: "admits ?ts newReadyGuard = replicate 5 (True, False) @ [(False, True), (False, False), (True, False)]"
    by code_simp
  have "sorted ?ts" by (simp add: duration_defs)
  from ready_guard_exact [OF this, of 7] r show ?thesis by (simp add: numeral_eq_Suc)
qed

section \<open>Who may use a command\<close>

text \<open>The member of an interaction: the two permissions and the roles; \<open>None\<close> outside a guild.\<close>

record resolved_member =
  rm_administrator :: bool
  rm_manageGuild :: bool
  rm_roles :: "snowflake list"

definition isAdminAuthorized :: "'s Store \<Rightarrow> snowflake \<Rightarrow> resolved_member option \<Rightarrow> 's \<Rightarrow> bool" where
  "isAdminAuthorized S g mb s =
     (case mb of
        None \<Rightarrow> False
      | Some r \<Rightarrow> if rm_administrator r then True else HasManagerRole S g (rm_roles r) s)"

definition isManagerAuthorized :: "'s Store \<Rightarrow> snowflake \<Rightarrow> resolved_member option \<Rightarrow> 's \<Rightarrow> bool" where
  "isManagerAuthorized S g mb s =
     (case mb of
        None \<Rightarrow> False
      | Some r \<Rightarrow> if rm_manageGuild r then True else HasManagerRole S g (rm_roles r) s)"

section \<open>Answers\<close>

text \<open>
  Answers are kept as the keys of the catalogue and their arguments, so that every localizer renders them; an
  answer outside the catalogue has the empty key.
\<close>

datatype answer = Msg string "(string \<times> string) list" | AccessWarnings string "(snowflake \<times> snowflake) list"

text \<open>\<^verbatim>\<open>formatBotChannels\<close>: nothing without warnings.\<close>

definition formatBotChannels :: "string \<Rightarrow> (snowflake \<times> snowflake) list \<Rightarrow> answer list" where
  "formatBotChannels header ws = (if ws = [] then [] else [AccessWarnings header ws])"

text \<open>\<^verbatim>\<open>errors.Is\<close>: the error is the sentinel or wraps it.\<close>

definition errors_Is :: "string \<Rightarrow> string \<Rightarrow> bool" where
  "errors_Is e sentinel \<longleftrightarrow> e = sentinel \<or> e = ''join session: commit: '' @ sentinel"

definition start_failure :: "string \<Rightarrow> answer list \<Rightarrow> answer list" where
  "start_failure e skipped =
     (if errors_Is e ErrNoBoundSpeakers then [Msg ''raid.no_bound_speakers'' []]
      else if errors_Is e ErrSessionExists then [Msg ''raid.already_active'' []]
      else if errors_Is e ErrNoOwnerChannel then [Msg ''raid.no_owner_channel'' []]
      else if errors_Is e ErrNoCallerRole then [Msg ''raid.no_caller_role'' []]
      else if errors_Is e ErrNoDeafenPermission then [Msg ''raid.no_deafen_permission'' []]
      else Msg ''raid.start_failed'' [(''Err'', e)] # skipped)"

definition join_failure :: "Code \<Rightarrow> string \<Rightarrow> answer list \<Rightarrow> answer list" where
  "join_failure code e skipped =
     (if errors_Is e ErrNoBoundSpeakers then [Msg ''raid.no_bound_speakers'' []]
      else if errors_Is e ErrNoCallerRole then [Msg ''raid.no_caller_role'' []]
      else if errors_Is e ErrNoDeafenPermission then [Msg ''raid.no_deafen_permission'' []]
      else if errors_Is e ErrSessionExists then [Msg ''raid.already_active'' []]
      else Msg ''raid.join_failed'' [(''Code'', code), (''Err'', e)] # skipped)"

section \<open>Commands\<close>

text \<open>\<open>existing\<close>: the channels of a guild as fetched, if the fetch works.\<close>

definition EnsureGuildReady ::
  "'s Store \<Rightarrow> discord \<Rightarrow> (snowflake \<Rightarrow> snowflake list option) \<Rightarrow> snowflake \<Rightarrow> 's Service \<Rightarrow> 's Service" where
  "EnsureGuildReady S dc existing g m =
     (if statuses m g \<noteq> None then m
      else let m1 = seedGuildSpeakers S dc g m
           in case existing g of
                None \<Rightarrow> m1
              | Some chs \<Rightarrow> m1\<lparr>sv_store := drop_stale_bindings S dc g chs (sv_store m1)\<rparr>)"

text \<open>\<open>denied b c\<close>: the caches say that bot \<open>b\<close> lacks a permission in channel \<open>c\<close>.\<close>

definition CheckGuildChannelAccess ::
  "'s Store \<Rightarrow> discord \<Rightarrow> bool \<Rightarrow> (snowflake \<Rightarrow> snowflake \<Rightarrow> bool) \<Rightarrow> snowflake \<Rightarrow> 's Service \<Rightarrow> (snowflake \<times> snowflake) list" where
  "CheckGuildChannelAccess S dc ab denied g m =
     (if ab then []
      else case snapshotSpeakers g m of
          Inl e \<Rightarrow> []
        | Inr sps \<Rightarrow>
            let warn = (\<lambda>b. case s_GetBoundChannel S g b (sv_store m) of
                None \<Rightarrow> [] | Some c \<Rightarrow> if denied b c then [(b, c)] else [])
            in warn (ownerBotID dc) @ concat (map (\<lambda>sp. if Enabled sp then warn (spk_ID sp) else []) sps))"

definition cancel_ctx :: "nat \<Rightarrow> 's Service \<Rightarrow> 's Service" where
  "cancel_ctx t m = m\<lparr>cancelled := insert t (cancelled m)\<rparr>"

text \<open>\<open>blocked\<close>: the header of the warnings, \<open>permissions.warning_header\<close>, after the refusal.\<close>

definition access_refusal :: "string \<Rightarrow> (snowflake \<times> snowflake) list \<Rightarrow> answer list" where
  "access_refusal key ws = Msg key [] # formatBotChannels ''permissions.warning_header'' ws"

text \<open>
  The goroutine of \<^verbatim>\<open>/start\<close> without a code.  \<open>deaf_ok\<close> is \<^verbatim>\<open>CheckDeafenReadiness\<close> after the start.
\<close>

definition start_command ::
  "'s Store \<Rightarrow> discord \<Rightarrow> attempt \<Rightarrow> bool \<Rightarrow> (snowflake \<Rightarrow> snowflake \<Rightarrow> bool) \<Rightarrow> (snowflake \<Rightarrow> snowflake list option) \<Rightarrow>
   bool \<Rightarrow> snowflake \<Rightarrow> string \<Rightarrow> 's Service \<Rightarrow> (answer list \<times> 's Service) option" where
  "start_command S dc at ab denied existing deaf_ok g modeStr m =
     (let m1 = EnsureGuildReady S dc existing g m; ws = CheckGuildChannelAccess S dc ab denied g m1 in
      if ws \<noteq> [] then Some (access_refusal ''raid.start_blocked_permissions'' ws, cancel_ctx (at_token at) m1)
      else let skipped = formatBotChannels ''raid.skipped_missing_channel'' (SpeakersWithMissingChannel S dc g m1) in
        (case StartVoiceRaid S dc at g (host_mode_of modeStr) m1 of
           None \<Rightarrow> None
         | Some (Inl e, m2) \<Rightarrow> Some (start_failure e skipped, cancel_ctx (at_token at) m2)
         | Some (Inr code, m2) \<Rightarrow>
             Some ((if code \<noteq> [] then Msg ''raid.started_with_code'' [(''Code'', code)] else Msg ''raid.started'' []) #
                   (if deaf_ok then [] else [Msg ''raid.deafen_unavailable'' []]) @ skipped, m2)))"

text \<open>\<^verbatim>\<open>JoinSession\<close>: the phases of a join in sequence.\<close>

definition JoinSession ::
  "'s Store \<Rightarrow> discord \<Rightarrow> attempt \<Rightarrow> snowflake \<Rightarrow> RaidMode \<Rightarrow> Code \<Rightarrow> 's Service \<Rightarrow> (string + RaidMode) \<times> 's Service" where
  "JoinSession S dc at g mode code m =
     (case tryBegin g (at_token at) m of
        None \<Rightarrow> (Inl ErrSessionExists, m)
      | Some m1 \<Rightarrow>
          (case guest_enter S at g mode code m1 of
             (Inl e, m2) \<Rightarrow> (Inl e, guard_end g m2)
           | (Inr (mode', i), m2) \<Rightarrow>
               (case guest_setup S dc at g mode' m2 of
                  (Inl e, m3) \<Rightarrow> (Inl e, guard_end g m3)
                | (Inr js, m3) \<Rightarrow>
                    (case guest_owner S dc at g m3 of
                       (own, m4) \<Rightarrow>
                         (case guest_commit dc at g mode' code i own js m4 of
                            (Some e, m5) \<Rightarrow> (Inl e, guard_end g m5)
                          | (None, m5) \<Rightarrow> (Inr mode', guard_end g m5))))))"

text \<open>The goroutine of \<^verbatim>\<open>/start\<close> with a code.\<close>

definition join_command ::
  "'s Store \<Rightarrow> discord \<Rightarrow> attempt \<Rightarrow> bool \<Rightarrow> (snowflake \<Rightarrow> snowflake \<Rightarrow> bool) \<Rightarrow> (snowflake \<Rightarrow> snowflake list option) \<Rightarrow>
   snowflake \<Rightarrow> string \<Rightarrow> Code \<Rightarrow> 's Service \<Rightarrow> answer list \<times> 's Service" where
  "join_command S dc at ab denied existing g modeStr code m =
     (let m1 = EnsureGuildReady S dc existing g m; ws = CheckGuildChannelAccess S dc ab denied g m1 in
      if ws \<noteq> [] then (access_refusal ''raid.join_blocked_permissions'' ws, cancel_ctx (at_token at) m1)
      else let skipped = formatBotChannels ''raid.skipped_missing_channel'' (SpeakersWithMissingChannel S dc g m1) in
        (case JoinSession S dc at g (guest_mode_of modeStr) code m1 of
           (Inl e, m2) \<Rightarrow> (join_failure code e skipped, cancel_ctx (at_token at) m2)
         | (Inr mode, m2) \<Rightarrow> (Msg ''raid.joined'' [(''Code'', code), (''Mode'', Pretty mode (Some (\<lambda>key. key)))] # skipped, m2)))"

text \<open>\<^verbatim>\<open>/start\<close>: refused at once where a raid is active, else deferred to one of the two.\<close>

definition handleStartVoiceRaid ::
  "'s Store \<Rightarrow> discord \<Rightarrow> attempt \<Rightarrow> bool \<Rightarrow> (snowflake \<Rightarrow> snowflake \<Rightarrow> bool) \<Rightarrow> (snowflake \<Rightarrow> snowflake list option) \<Rightarrow>
   bool \<Rightarrow> snowflake \<Rightarrow> string \<Rightarrow> Code option \<Rightarrow> 's Service \<Rightarrow> (answer list \<times> 's Service) option" where
  "handleStartVoiceRaid S dc at ab denied existing deaf_ok g modeStr code m =
     (if HasActiveSession g m then Some ([Msg ''raid.already_active'' []], m)
      else case code of
          Some c \<Rightarrow> if c \<noteq> [] then Some (join_command S dc at ab denied existing g modeStr c m)
                    else start_command S dc at ab denied existing deaf_ok g modeStr m
        | None \<Rightarrow> start_command S dc at ab denied existing deaf_ok g modeStr m)"

definition handleStopVoiceRaid :: "discord \<Rightarrow> snowflake \<Rightarrow> 's Service \<Rightarrow> answer list \<times> 's Service" where
  "handleStopVoiceRaid dc g m =
     (case StopVoiceRaid dc g None m of
        (Some e, m') \<Rightarrow> (if errors_Is e ErrNoActiveSession then [Msg ''raid.none_active'' []]
                         else [Msg ''raid.stop_failed'' [(''Err'', e)]], m')
      | (None, m') \<Rightarrow> ([Msg ''raid.stopped'' []], m'))"

text \<open>A command behind its authorisation.\<close>

definition withManager ::
  "'s Store \<Rightarrow> snowflake \<Rightarrow> resolved_member option \<Rightarrow> ('s Service \<Rightarrow> (answer list \<times> 's Service) option) \<Rightarrow> 's Service \<Rightarrow>
   (answer list \<times> 's Service) option" where
  "withManager S g mb fn m =
     (if \<not> isManagerAuthorized S g mb (sv_store m) then Some ([Msg ''err.need_manager'' []], m) else fn m)"

definition withAdmin ::
  "'s Store \<Rightarrow> snowflake \<Rightarrow> resolved_member option \<Rightarrow> ('s Service \<Rightarrow> (answer list \<times> 's Service) option) \<Rightarrow> 's Service \<Rightarrow>
   (answer list \<times> 's Service) option" where
  "withAdmin S g mb fn m =
     (if \<not> isAdminAuthorized S g mb (sv_store m) then Some ([Msg ''err.need_admin'' []], m) else fn m)"

text \<open>\<^verbatim>\<open>/setup\<close> is refused while a raid is active; otherwise it opens the main page.\<close>

definition handleSetup ::
  "'s Store \<Rightarrow> discord \<Rightarrow> (snowflake \<Rightarrow> snowflake list option) \<Rightarrow> snowflake \<Rightarrow> 's Service \<Rightarrow> (answer list \<times> 's Service) option" where
  "handleSetup S dc existing g m =
     (if HasActiveSession g m then Some ([Msg ''setup.blocked_active_raid'' []], m)
      else Some ([Msg ''setup.main_title'' []], EnsureGuildReady S dc existing g m))"

section \<open>Answers tell the truth\<close>

lemma session_of_ensure [simp]: "session_of h (EnsureGuildReady S dc existing g m) = session_of h m"
  by (simp add: EnsureGuildReady_def Let_def session_of_def [of h "x\<lparr>sv_store := y\<rparr>" for x y]
      session_of_def [of h "seedGuildSpeakers S dc g m", symmetric] split: option.split)

lemma session_of_cancel_ctx [simp]: "session_of h (cancel_ctx t m) = session_of h m"
  by (simp add: cancel_ctx_def session_of_def)

lemma setupSpeakers_session:
  assumes "setupSpeakers S dc at g mode m = (r, m')"
  shows "session_of h m' = session_of h m"
proof (cases "session_of g m")
  case None
  from setupSpeakers_idle [OF None assms] obtain js where "only_voice g (maybe_seeded S dc g m) m'" by metis
  then show ?thesis by (simp add: only_voice_session maybe_seeded_def)
next
  case (Some se)
  then show ?thesis using assms by (simp add: setupSpeakers_active HasActiveSession_iff)
qed

lemma host_setup_session: "host_setup S dc at g mode m = (r, m') \<Longrightarrow> session_of h m' = session_of h m"
  by (auto simp: host_setup_def dest: setupSpeakers_session split: if_splits)

lemma host_owner_session: "host_owner S dc at g js m = (r, m') \<Longrightarrow> session_of h m' = session_of h m"
  by (auto simp: host_owner_def Let_def split: option.splits voice_outcome.splits)

lemma start_error_keeps_session:
  assumes "StartVoiceRaid S dc at g mode m = Some (Inl e, m')"
  shows "session_of h m' = session_of h m"
proof (cases "tryBegin g (at_token at) m")
  case None
  then show ?thesis using assms by (simp add: StartVoiceRaid_def)
next
  case (Some m1)
  then have m1: "session_of h m1 = session_of h m" by (auto simp: tryBegin_def split: if_splits)
  obtain r m2 where su: "host_setup S dc at g mode m1 = (r, m2)" by fastforce
  note m2 = host_setup_session [OF su, of h]
  show ?thesis
  proof (cases r)
    case (Inl e')
    then show ?thesis using assms Some su m1 m2 by (auto simp: StartVoiceRaid_def)
  next
    case (Inr js)
    obtain r' m3 where ow: "host_owner S dc at g js m2 = (r', m3)" by fastforce
    note m3 = host_owner_session [OF ow, of h]
    show ?thesis
    proof (cases r')
      case (Inl e')
      then show ?thesis using assms Some su ow Inr m1 m2 m3 by (auto simp: StartVoiceRaid_def)
    next
      case c: (Inr c)
      then obtain m4 where m4: "host_commit S dc at g mode c js m3 = Some (Inl e, m4)" "m' = guard_end g m4"
        using assms Some su ow Inr by (auto simp: StartVoiceRaid_def)
      from m4(1) have "session_of h m4 = session_of h m3"
        by (cases rule: host_commit_cases) (auto simp: host_errCleanup_def leave_with_def)
      then show ?thesis using m4(2) m1 m2 m3 by simp
    qed
  qed
qed

lemma guest_enter_session: "guest_enter S at g mode code m = (r, m') \<Longrightarrow> session_of h m' = session_of h m"
  by (auto simp: guest_enter_def Let_def split: if_splits prod.splits sum.splits)

lemma guest_setup_session: "guest_setup S dc at g mode m = (r, m') \<Longrightarrow> session_of h m' = session_of h m"
  by (auto simp: guest_setup_def dest: setupSpeakers_session split: prod.splits sum.splits)

lemma guest_owner_session: "guest_owner S dc at g m = (r, m') \<Longrightarrow> session_of h m' = session_of h m"
  by (auto simp: guest_owner_def Let_def split: option.splits voice_outcome.splits)

lemma session_of_run_start [simp]: "session_of h (run_start g r i ops m) = session_of h m"
  by (simp add: run_start_def)

lemma commitSession_session:
  "commitSession g se m = Inr m' \<Longrightarrow> session_of h m' = (if h = g then Some se else session_of h m)"
  by (auto simp: commitSession_def session_of_def Let_def split: option.splits if_splits)

lemmas commitSession_own = commitSession_session [where h = g and g = g for g, simplified]

lemma guest_commit_session:
  assumes "guest_commit dc at g mode code i own js m = (r, m')"
  shows "(r = None \<longrightarrow> session_of g m' \<noteq> None) \<and> (r \<noteq> None \<longrightarrow> session_of h m' = session_of h m)"
  using assms by (auto simp: guest_commit_def guest_undo_def guestCleanupOwner_def Let_def
      dest: commitSession_own split: sum.splits prod.splits)

text \<open>A join that fails commits nothing, one that returns a mode has committed a session.\<close>

lemma JoinSession_session:
  assumes "JoinSession S dc at g mode code m = (r, m')"
  shows "case r of Inl e \<Rightarrow> session_of g m' = session_of g m | Inr md \<Rightarrow> session_of g m' \<noteq> None"
proof (cases "tryBegin g (at_token at) m")
  case None
  then show ?thesis using assms by (auto simp: JoinSession_def)
next
  case (Some m1)
  then have m1: "session_of g m1 = session_of g m" by (auto simp: tryBegin_def split: if_splits)
  obtain r2 m2 where en: "guest_enter S at g mode code m1 = (r2, m2)" by fastforce
  note m2 = guest_enter_session [OF en, of g]
  show ?thesis
  proof (cases r2)
    case (Inl e)
    then show ?thesis using assms Some en m1 m2 by (auto simp: JoinSession_def)
  next
    case (Inr p)
    obtain md i where p: "p = (md, i)" by fastforce
    obtain r3 m3 where su: "guest_setup S dc at g md m2 = (r3, m3)" by fastforce
    note m3 = guest_setup_session [OF su, of g]
    show ?thesis
    proof (cases r3)
      case (Inl e)
      then show ?thesis using assms Some en su Inr p m1 m2 m3 by (auto simp: JoinSession_def)
    next
      case js: (Inr js)
      obtain own m4 where ow: "guest_owner S dc at g m3 = (own, m4)" by fastforce
      obtain r5 m5 where co: "guest_commit dc at g md code i own js m4 = (r5, m5)" by fastforce
      show ?thesis
        using assms Some en su Inr p js ow co m1 m2 m3 guest_owner_session [OF ow, of g] guest_commit_session [OF co, of g]
        by (cases r5) (auto simp: JoinSession_def)
    qed
  qed
qed

definition success_keys :: "string list" where
  "success_keys = [''raid.started_with_code'', ''raid.started'', ''raid.joined'']"

definition says_success :: "answer list \<Rightarrow> bool" where
  "says_success ans \<longleftrightarrow> (case ans of Msg key ps # rest \<Rightarrow> key \<in> set success_keys | _ \<Rightarrow> False)"

lemma failures_are_no_success [simp]:
  "\<not> says_success (start_failure e skipped)" "\<not> says_success (join_failure code e skipped)"
  by (simp_all add: start_failure_def join_failure_def says_success_def success_keys_def)

lemma refusals_are_no_success [simp]:
  "\<not> says_success (access_refusal ''raid.start_blocked_permissions'' ws)"
  "\<not> says_success (access_refusal ''raid.join_blocked_permissions'' ws)"
  by (simp_all add: access_refusal_def says_success_def success_keys_def)

lemma cancel_ctx_cancels [simp]: "t \<in> cancelled (cancel_ctx t m)"
  by (simp add: cancel_ctx_def)

text \<open>
  C12. The answer of a start is the truth: in a server without a raid, the operator is told that the raid
  started (or was joined) exactly if a session has been committed, and whenever the answer is anything else
  the context of the start has been cancelled.
\<close>

theorem start_answer_truthful:
  assumes "handleStartVoiceRaid S dc at ab denied existing deaf_ok g modeStr code m = Some (ans, m')"
    and "session_of g m = None"
  shows "(says_success ans \<longleftrightarrow> session_of g m' \<noteq> None) \<and> (\<not> says_success ans \<longrightarrow> at_token at \<in> cancelled m')"
proof -
  have ok: "says_success (Msg ''raid.started_with_code'' ps # r)" "says_success (Msg ''raid.started'' ps # r)"
    "says_success (Msg ''raid.joined'' ps # r)" for ps r
    by (simp_all add: says_success_def success_keys_def)
  let ?m1 = "EnsureGuildReady S dc existing g m"
  have start: ?thesis if st: "start_command S dc at ab denied existing deaf_ok g modeStr m = Some (ans, m')"
  proof (cases "CheckGuildChannelAccess S dc ab denied g ?m1 = []")
    case False
    then show ?thesis using st assms(2) by (auto simp: start_command_def Let_def)
  next
    case True
    then obtain r m2 where r: "StartVoiceRaid S dc at g (host_mode_of modeStr) ?m1 = Some (r, m2)"
      using st by (auto simp: start_command_def Let_def split: option.splits)
    show ?thesis
    proof (cases r)
      case (Inl e)
      then have "session_of g m2 = None" using start_error_keeps_session [of S dc at g _ ?m1 e m2 g] r assms(2) by simp
      then show ?thesis using st True r Inl by (auto simp: start_command_def Let_def)
    next
      case (Inr c)
      then have "session_of g m2 \<noteq> None" using start_commits_session [of S dc at g _ ?m1 c m2] r by auto
      then show ?thesis using st True r Inr by (cases "c = []") (auto simp: start_command_def Let_def ok)
    qed
  qed
  have join: ?thesis if "join_command S dc at ab denied existing g modeStr c m = (ans, m')" for c
  proof (cases "CheckGuildChannelAccess S dc ab denied g ?m1 = []")
    case False
    then show ?thesis using that assms(2) by (auto simp: join_command_def Let_def)
  next
    case True
    obtain r m2 where r: "JoinSession S dc at g (guest_mode_of modeStr) c ?m1 = (r, m2)" by fastforce
    show ?thesis
      using that True r JoinSession_session [OF r] assms(2) by (cases r) (auto simp: join_command_def Let_def ok)
  qed
  show ?thesis
    using assms start join by (auto simp: handleStartVoiceRaid_def HasActiveSession_iff split: option.splits if_splits)
qed

lemma start_answer_truthful_witness:
  "\<exists>ans m'. handleStartVoiceRaid memory_store small_world (good_attempt 1) False (\<lambda>_ _. False) (\<lambda>_. None) True 9 ''one'' None raid_ready
     = Some (ans, m') \<and> says_success ans \<and> session_of 9 m' \<noteq> None"
proof -
  have "map_option (\<lambda>(ans, m'). says_success ans) (handleStartVoiceRaid memory_store small_world (good_attempt 1) False
      (\<lambda>_ _. False) (\<lambda>_. None) True 9 ''one'' None raid_ready) = Some True"
    by code_simp
  then obtain ans m' where r: "handleStartVoiceRaid memory_store small_world (good_attempt 1) False
      (\<lambda>_ _. False) (\<lambda>_. None) True 9 ''one'' None raid_ready = Some (ans, m')" "says_success ans"
    by auto
  from start_answer_truthful [OF r(1) raid_ready_facts(4)] r show ?thesis by blast
qed

text \<open>
  After \<^verbatim>\<open>/stop\<close> the server has no raid, whatever was there, and the operator is told that none
  was active exactly if there was neither a raid nor a start in flight.
\<close>

theorem stop_answer_truthful:
  assumes "handleStopVoiceRaid dc g m = (ans, m')"
  shows "session_of g m' = None \<and> (ans = [Msg ''raid.none_active'' []] \<longleftrightarrow> session_of g m = None \<and> starting m g = None) \<and>
    (ans = [Msg ''raid.stopped'' []] \<or> ans = [Msg ''raid.none_active'' []])"
proof (cases "session_of g m")
  case None
  then show ?thesis using assms
    by (cases "starting m g") (auto simp: handleStopVoiceRaid_def StopVoiceRaid_def stop_take_def guard_cancel_def
        session_of_def errors_Is_def)
next
  case (Some se)
  then show ?thesis using assms StopVoiceRaid_active [OF Some, of dc] StopVoiceRaid_after(1) [OF Some, of dc]
    by (auto simp: handleStopVoiceRaid_def)
qed

lemma stop_answer_truthful_witness:
  "handleStopVoiceRaid small_world 9 raid_ready = ([Msg ''raid.none_active'' []], raid_ready) \<and>
   starting raid_ready 9 = None"
proof -
  have st: "starting raid_ready 9 = None" by code_simp
  obtain ans m' where r: "handleStopVoiceRaid small_world 9 raid_ready = (ans, m')" by fastforce
  have "StopVoiceRaid small_world 9 None raid_ready = (Some ErrNoActiveSession, raid_ready)"
    using st raid_ready_facts(4) by (rule StopVoiceRaid_idle)
  then have "m' = raid_ready" using r by (simp add: handleStopVoiceRaid_def)
  with stop_answer_truthful [OF r] st raid_ready_facts(4) r show ?thesis by simp
qed

section \<open>The speaker pages\<close>

definition speakersPerPage :: int where "speakersPerPage = 3"
definition maxPageBtns :: int where "maxPageBtns = 4"

definition GetSortedSpeakers :: "Status \<Rightarrow> Speaker list" where
  "GetSortedSpeakers st = sort_key Username (map snd (Speakers st))"

definition totalPages :: "Speaker list \<Rightarrow> int" where
  "totalPages sps = max ((int (length sps) + speakersPerPage - 1) div speakersPerPage) 1"

definition clamp_page :: "Speaker list \<Rightarrow> int \<Rightarrow> int" where
  "clamp_page sps page = min (max page 0) (totalPages sps - 1)"

text \<open>The speakers on a page (already clamped).\<close>

definition pageSpeakers :: "Speaker list \<Rightarrow> int \<Rightarrow> Speaker list" where
  "pageSpeakers sps page =
     (let first = page * speakersPerPage; stop = min (first + speakersPerPage) (int (length sps))
      in take (nat (stop - first)) (drop (nat first) sps))"

text \<open>The pages the navigation row offers, from the first one up to, and without, the second.\<close>

definition page_window :: "Speaker list \<Rightarrow> int \<Rightarrow> int \<times> int" where
  "page_window sps page =
     (if totalPages sps > maxPageBtns then
        let start0 = page - maxPageBtns div 2; end0 = start0 + maxPageBtns;
            (start1, end1) = (if start0 < 0 then (0, maxPageBtns) else (start0, end0))
        in if end1 > totalPages sps then (totalPages sps - maxPageBtns, totalPages sps) else (start1, end1)
      else (0, totalPages sps))"

text \<open>The range of speakers a button is labelled with.\<close>

definition page_label :: "Speaker list \<Rightarrow> int \<Rightarrow> int \<times> int" where
  "page_label sps p = (p * speakersPerPage + 1, min ((p + 1) * speakersPerPage) (int (length sps)))"

text \<open>
  A page: its toggle buttons, its channel menus, its navigation buttons after the one to the main menu (a
  page and whether it is the current one, which is disabled), and the page and total in its title.
\<close>

record speakers_page =
  sp_toggles :: "(snowflake \<times> bool) list"
  sp_menus :: "(snowflake \<times> snowflake option) list"
  sp_nav :: "(int \<times> bool) list"
  sp_title :: "int \<times> int"

definition buildSpeakersPage :: "(snowflake \<Rightarrow> snowflake option) \<Rightarrow> Status \<Rightarrow> int \<Rightarrow> speakers_page" where
  "buildSpeakersPage bound st pg =
     (let sps = GetSortedSpeakers st; page = clamp_page sps pg; shown = pageSpeakers sps page; (a, b) = page_window sps page
      in \<lparr>sp_toggles = map (\<lambda>sp. (spk_ID sp, Enabled sp)) shown,
          sp_menus = map (\<lambda>sp. (spk_ID sp, bound (spk_ID sp))) shown,
          sp_nav = map (\<lambda>p. (p, p = page)) [a..b - 1], sp_title = (page + 1, totalPages sps)\<rparr>)"

text \<open>Rows of a page: toggles, if any, one menu for each speaker, the navigation.\<close>

definition page_rows :: "speakers_page \<Rightarrow> nat" where
  "page_rows pg = (if sp_toggles pg = [] then 0 else 1) + length (sp_menus pg) + 1"

lemma totalPages_bounds:
  "1 \<le> totalPages sps" "int (length sps) \<le> totalPages sps * 3" "sps \<noteq> [] \<Longrightarrow> (totalPages sps - 1) * 3 < int (length sps)"
  by (auto simp: totalPages_def speakersPerPage_def max_def split: if_splits)

lemma clamp_page_range: "0 \<le> clamp_page sps p" "clamp_page sps p < totalPages sps"
  using totalPages_bounds(1) [of sps] by (auto simp: clamp_page_def)

lemma clamp_page_id: "0 \<le> p \<Longrightarrow> p < totalPages sps \<Longrightarrow> clamp_page sps p = p"
  by (simp add: clamp_page_def)

lemma pageSpeakers_nat: "pageSpeakers sps (int p) = take 3 (drop (3 * p) sps)"
proof -
  have "nat (int p * 3) = 3 * p" by linarith
  moreover have "take (nat (min (int p * 3 + 3) (int (length sps)) - int p * 3)) (drop (3 * p) sps) = take 3 (drop (3 * p) sps)"
    by (cases "3 * p + 3 \<le> length sps") (auto simp: min_def)
  ultimately show ?thesis by (simp add: pageSpeakers_def speakersPerPage_def Let_def)
qed

lemma concat_pages: "concat (map (\<lambda>p. take 3 (drop (3 * p) xs)) [0..<n]) = take (3 * n) xs"
proof (induction n)
  case (Suc n)
  have "take (3 * Suc n) xs = take (3 * n) xs @ take 3 (drop (3 * n) xs)" by (simp add: take_add [symmetric] add.commute)
  then show ?case using Suc.IH by simp
qed simp

lemma page_window_range:
  assumes "0 \<le> p" and "p < totalPages sps" and "page_window sps p = (a, b)"
  shows "0 \<le> a \<and> a \<le> p \<and> p < b \<and> b \<le> totalPages sps \<and> b - a = min 4 (totalPages sps)"
  using assms by (auto simp: page_window_def maxPageBtns_def Let_def split: if_splits)

text \<open>
  The pages show every speaker once: put one after another they are the sorted list, whatever page
  number a button carries; a page has at most the five rows Discord allows, and its
  navigation offers existing pages only, at most four of them, the current one among them.
\<close>

theorem speaker_pages_partition:
  "concat (map (\<lambda>p. map fst (sp_menus (buildSpeakersPage bound st (int p)))) [0..<nat (totalPages (GetSortedSpeakers st))]) =
     map spk_ID (GetSortedSpeakers st) \<and>
   page_rows (buildSpeakersPage bound st n) \<le> 5 \<and> length (sp_nav (buildSpeakersPage bound st n)) \<le> 4 \<and>
   (\<forall>b \<in> set (sp_nav (buildSpeakersPage bound st n)). 0 \<le> fst b \<and> fst b < totalPages (GetSortedSpeakers st)) \<and>
   (clamp_page (GetSortedSpeakers st) n, True) \<in> set (sp_nav (buildSpeakersPage bound st n))"
proof -
  let ?sps = "GetSortedSpeakers st" and ?p = "clamp_page (GetSortedSpeakers st) n"
  have page: "map fst (sp_menus (buildSpeakersPage bound st (int p))) = map spk_ID (take 3 (drop (3 * p) ?sps))"
    if "p < nat (totalPages ?sps)" for p
    using clamp_page_id [of "int p" ?sps] that
    by (simp add: buildSpeakersPage_def Let_def split_beta pageSpeakers_nat comp_def)
  have "concat (map (\<lambda>p. map fst (sp_menus (buildSpeakersPage bound st (int p)))) [0..<nat (totalPages ?sps)]) =
      concat (map (\<lambda>p. map spk_ID (take 3 (drop (3 * p) ?sps))) [0..<nat (totalPages ?sps)])"
    by (rule arg_cong [where f = concat], rule map_cong) (simp_all add: page)
  also have "\<dots> = map spk_ID (concat (map (\<lambda>p. take 3 (drop (3 * p) ?sps)) [0..<nat (totalPages ?sps)]))"
    by (simp add: map_concat comp_def)
  also have "\<dots> = map spk_ID (take (3 * nat (totalPages ?sps)) ?sps)" by (simp only: concat_pages)
  also have "\<dots> = map spk_ID ?sps" using totalPages_bounds(2) [of ?sps] by simp
  finally have all: "concat (map (\<lambda>p. map fst (sp_menus (buildSpeakersPage bound st (int p)))) [0..<nat (totalPages ?sps)]) =
      map spk_ID ?sps" .
  obtain a b where w: "page_window ?sps ?p = (a, b)" by fastforce
  note range = page_window_range [OF clamp_page_range w]
  have shown: "length (pageSpeakers ?sps ?p) \<le> 3"
    using pageSpeakers_nat [of ?sps "nat ?p"] clamp_page_range(1) [of ?sps n] by simp
  have nav: "sp_nav (buildSpeakersPage bound st n) = map (\<lambda>p. (p, p = ?p)) [a..b - 1]"
    by (simp add: buildSpeakersPage_def Let_def w)
  have "page_rows (buildSpeakersPage bound st n) \<le> 5"
    using shown by (simp add: page_rows_def buildSpeakersPage_def Let_def w)
  then show ?thesis using all range nav by (auto simp: image_iff)
qed

section \<open>The setup panel\<close>

text \<open>
  What a component of the panel carries: the values selected in a menu (\<open>None\<close>: data of another kind), or
  a speaker ID (\<open>None\<close>: it does not parse).
\<close>

datatype setup_click =
    ClickCallerRole "snowflake list option"
  | ClickManagerRole "snowflake list option"
  | ClickLocale "string list option"
  | ClickOwnerChannel "snowflake list option"
  | ClickSpeakerChannel "snowflake option" "snowflake list option"
  | ClickToggle "snowflake option"

definition localeAutoValue :: string where "localeAutoValue = ''auto''"

definition unexpected_data :: "answer list" where
  "unexpected_data = [Msg ''err.unexpected_data_type'' []]"

definition applyRoleMenuBinding ::
  "'s Store \<Rightarrow> snowflake \<Rightarrow> RoleType \<Rightarrow> snowflake list option \<Rightarrow> 's Service \<Rightarrow> answer list \<times> 's Service" where
  "applyRoleMenuBinding S g rt sel m =
     (case sel of
        None \<Rightarrow> (unexpected_data, m)
      | Some [] \<Rightarrow> ([Msg ''setup.roles_title'' []], m\<lparr>sv_store := s_UnbindRole S g rt (sv_store m)\<rparr>)
      | Some (r # _) \<Rightarrow> ([Msg ''setup.roles_title'' []], m\<lparr>sv_store := s_BindRole S g rt r (sv_store m)\<rparr>))"

definition handleBindRoleMenu ::
  "'s Store \<Rightarrow> snowflake \<Rightarrow> snowflake list option \<Rightarrow> 's Service \<Rightarrow> answer list \<times> 's Service" where
  "handleBindRoleMenu S g sel m =
     (if HasActiveSession g m then ([Msg ''setup.blocked_active_raid'' []], m)
      else applyRoleMenuBinding S g RoleTypeCaller sel m)"

definition handleBindManagerRoleMenu ::
  "'s Store \<Rightarrow> snowflake \<Rightarrow> snowflake list option \<Rightarrow> 's Service \<Rightarrow> answer list \<times> 's Service" where
  "handleBindManagerRoleMenu S g sel m = applyRoleMenuBinding S g RoleTypeManager sel m"

definition handleBindLocale ::
  "'s Store \<Rightarrow> snowflake \<Rightarrow> string list option \<Rightarrow> 's Service \<Rightarrow> answer list \<times> 's Service" where
  "handleBindLocale S g sel m =
     (case sel of
        None \<Rightarrow> (unexpected_data, m)
      | Some vs \<Rightarrow> ([Msg ''setup.main_title'' []],
          m\<lparr>sv_store := (if vs = [] \<or> hd vs = localeAutoValue then s_UnbindLocale S g (sv_store m)
                         else s_BindLocale S g (hd vs) (sv_store m))\<rparr>))"

definition bindChannelError :: "discord \<Rightarrow> snowflake \<Rightarrow> answer list" where
  "bindChannelError dc b = [Msg ''err.channel_taken'' [(''Bot'', ''<@'' @ showID dc b @ ''>'')]]"

text \<open>The common part of the two channel menus; \<open>page\<close> is what is redrawn.\<close>

definition bind_channel_menu ::
  "'s Store \<Rightarrow> discord \<Rightarrow> snowflake \<Rightarrow> snowflake \<Rightarrow> answer list \<Rightarrow> snowflake list option \<Rightarrow> 's Service \<Rightarrow>
   answer list \<times> 's Service" where
  "bind_channel_menu S dc g u page sel m =
     (case sel of
        None \<Rightarrow> (unexpected_data, m)
      | Some [] \<Rightarrow> (page, m\<lparr>sv_store := s_UnbindChannel S g u (sv_store m)\<rparr>)
      | Some (c # _) \<Rightarrow>
          (case M_BindChannel S dc g u c (sv_store m) of
             Inl b \<Rightarrow> (bindChannelError dc b, m)
           | Inr s' \<Rightarrow> (page, m\<lparr>sv_store := s'\<rparr>)))"

definition handleBindOwnerChannel ::
  "'s Store \<Rightarrow> discord \<Rightarrow> snowflake \<Rightarrow> snowflake list option \<Rightarrow> 's Service \<Rightarrow> answer list \<times> 's Service" where
  "handleBindOwnerChannel S dc g sel m =
     bind_channel_menu S dc g (ownerBotID dc) [Msg ''setup.main_title'' []] sel m"

definition handleBindChannel ::
  "'s Store \<Rightarrow> discord \<Rightarrow> snowflake \<Rightarrow> snowflake option \<Rightarrow> snowflake list option \<Rightarrow> 's Service \<Rightarrow> answer list \<times> 's Service" where
  "handleBindChannel S dc g sp sel m =
     (case sp of
        None \<Rightarrow> ([Msg ''err.invalid_speaker_id'' []], m)
      | Some u \<Rightarrow> bind_channel_menu S dc g u [Msg ''setup.speakers_title'' []] sel m)"

definition handleToggleSpeaker ::
  "'s Store \<Rightarrow> discord \<Rightarrow> snowflake \<Rightarrow> snowflake option \<Rightarrow> 's Service \<Rightarrow> answer list \<times> 's Service" where
  "handleToggleSpeaker S dc g sp m =
     (case sp of
        None \<Rightarrow> ([Msg ''err.invalid_speaker_id'' []], m)
      | Some u \<Rightarrow>
          (case map_of (Speakers (snapshotLocked dc g m)) u of
             None \<Rightarrow> ([Msg ''err.speaker_not_found'' []], m)
           | Some s \<Rightarrow>
               (case ToggleSpeaker S g u (\<not> Enabled s) m of
                  (Some e, m') \<Rightarrow> ([Msg [] [(''Err'', e)]], m')
                | (None, m') \<Rightarrow> ([Msg ''setup.speakers_title'' []], m'))))"

definition handleAddSpeakerButton :: "discord \<Rightarrow> snowflake \<Rightarrow> 's Service \<Rightarrow> (snowflake + answer list)" where
  "handleAddSpeakerButton dc g m =
     (case NextSpeakerID dc g m of None \<Rightarrow> Inr [Msg ''err.no_more_tokens'' []] | Some b \<Rightarrow> Inl b)"

fun handle_click :: "'s Store \<Rightarrow> discord \<Rightarrow> snowflake \<Rightarrow> setup_click \<Rightarrow> 's Service \<Rightarrow> answer list \<times> 's Service" where
  "handle_click S dc g (ClickCallerRole sel) m = handleBindRoleMenu S g sel m"
| "handle_click S dc g (ClickManagerRole sel) m = handleBindManagerRoleMenu S g sel m"
| "handle_click S dc g (ClickLocale sel) m = handleBindLocale S g sel m"
| "handle_click S dc g (ClickOwnerChannel sel) m = handleBindOwnerChannel S dc g sel m"
| "handle_click S dc g (ClickSpeakerChannel sp sel) m = handleBindChannel S dc g sp sel m"
| "handle_click S dc g (ClickToggle sp) m = handleToggleSpeaker S dc g sp m"

text \<open>\<^verbatim>\<open>withGuildSelectMenu\<close> and \<^verbatim>\<open>withGuildButton\<close>: outside a guild nothing happens.\<close>

definition withGuildComponent ::
  "'s Store \<Rightarrow> discord \<Rightarrow> (snowflake \<Rightarrow> snowflake list option) \<Rightarrow> snowflake option \<Rightarrow> setup_click \<Rightarrow> 's Service \<Rightarrow>
   answer list \<times> 's Service" where
  "withGuildComponent S dc existing guild click m =
     (case guild of
        None \<Rightarrow> ([Msg ''err.guild_only'' []], m)
      | Some g \<Rightarrow> handle_click S dc g click (EnsureGuildReady S dc existing g m))"

text \<open>The panel only names bots of the server.\<close>

fun click_ok :: "discord \<Rightarrow> setup_click \<Rightarrow> bool" where
  "click_ok dc (ClickSpeakerChannel (Some u) sel) \<longleftrightarrow> u \<in> set (all_bots dc)"
| "click_ok dc _ \<longleftrightarrow> True"

lemma service_synced_store:
  assumes "service_synced S m" and "\<And>g b. s_IsSpeakerEnabled S g b s' = s_IsSpeakerEnabled S g b (sv_store m)"
  shows "service_synced S (m\<lparr>sv_store := s'\<rparr>)"
  using assms by (simp add: service_synced_def speakers_synced_def)

context store_laws
begin

lemma enabled_after [simp]:
  "s_IsSpeakerEnabled S g b (s_BindChannel S h u c s) = s_IsSpeakerEnabled S g b s"
  "s_IsSpeakerEnabled S g b (s_UnbindChannel S h u s) = s_IsSpeakerEnabled S g b s"
  "s_IsSpeakerEnabled S g b (s_BindRole S h rt r s) = s_IsSpeakerEnabled S g b s"
  "s_IsSpeakerEnabled S g b (s_UnbindRole S h rt s) = s_IsSpeakerEnabled S g b s"
  "s_IsSpeakerEnabled S g b (s_BindLocale S h l s) = s_IsSpeakerEnabled S g b s"
  "s_IsSpeakerEnabled S g b (s_UnbindLocale S h s) = s_IsSpeakerEnabled S g b s"
  by (simp_all add: speaker_enabled mutators)

lemma channel_after [simp]:
  "s_GetBoundChannel S g b (s_BindRole S h rt r s) = s_GetBoundChannel S g b s"
  "s_GetBoundChannel S g b (s_UnbindRole S h rt s) = s_GetBoundChannel S g b s"
  "s_GetBoundChannel S g b (s_BindLocale S h l s) = s_GetBoundChannel S g b s"
  "s_GetBoundChannel S g b (s_UnbindLocale S h s) = s_GetBoundChannel S g b s"
  "s_GetBoundChannel S g b (s_SetSpeakerEnabled S h u on s) = s_GetBoundChannel S g b s"
  by (simp_all add: get_channel mutators)

lemma role_after [simp]:
  "s_GetBoundRole S g rt (s_BindChannel S h u c s) = s_GetBoundRole S g rt s"
  "s_GetBoundRole S g rt (s_UnbindChannel S h u s) = s_GetBoundRole S g rt s"
  "s_GetBoundRole S g rt (s_BindLocale S h l s) = s_GetBoundRole S g rt s"
  "s_GetBoundRole S g rt (s_UnbindLocale S h s) = s_GetBoundRole S g rt s"
  "s_GetBoundRole S g rt (s_SetSpeakerEnabled S h u on s) = s_GetBoundRole S g rt s"
  "s_GetBoundRole S g RoleTypeCaller (s_BindRole S h RoleTypeManager r s) = s_GetBoundRole S g RoleTypeCaller s"
  "s_GetBoundRole S g RoleTypeCaller (s_UnbindRole S h RoleTypeManager s) = s_GetBoundRole S g RoleTypeCaller s"
  by (simp_all add: get_role mutators RoleTypeCaller_def RoleTypeManager_def)

lemma exclusive_same_channels:
  assumes "one_bot_per_channel S dc s" and "\<And>g b. s_GetBoundChannel S g b s' = s_GetBoundChannel S g b s"
  shows "one_bot_per_channel S dc s'"
  using assms unfolding one_bot_per_channel_def by simp

lemma unbindChannels_keeps:
  "(\<forall>g b. s_IsSpeakerEnabled S g b (unbindChannels S dc h gone s) = s_IsSpeakerEnabled S g b s) \<and>
   (\<forall>g rt. s_GetBoundRole S g rt (unbindChannels S dc h gone s) = s_GetBoundRole S g rt s)"
  unfolding unbindChannels_def by (rule fold_invariant) (auto split: option.split)

lemma EnsureGuildReady_keeps:
  assumes "pool_keyed dc" and "one_bot_per_channel S dc (sv_store m)" and "service_synced S m"
  shows "one_bot_per_channel S dc (sv_store (EnsureGuildReady S dc ex g m)) \<and> service_synced S (EnsureGuildReady S dc ex g m) \<and>
    s_GetBoundRole S h RoleTypeCaller (sv_store (EnsureGuildReady S dc ex g m)) = s_GetBoundRole S h RoleTypeCaller (sv_store m)"
proof -
  have seeded: "service_synced S (seedGuildSpeakers S dc g m)"
    using do_speaker_synced [OF assms(1,3), of "SeedOp g"] by simp
  have "one_bot_per_channel S dc (drop_stale_bindings S dc g chs (sv_store m))" for chs
    using do_bind_exclusive [OF assms(2), of "WarmOp g chs"] by simp
  moreover have "service_synced S ((seedGuildSpeakers S dc g m)\<lparr>sv_store := drop_stale_bindings S dc g chs (sv_store m)\<rparr>)" for chs
    using unbindChannels_keeps by (intro service_synced_store seeded) (simp add: drop_stale_bindings_def)
  moreover have "s_GetBoundRole S h RoleTypeCaller (drop_stale_bindings S dc g chs (sv_store m)) =
      s_GetBoundRole S h RoleTypeCaller (sv_store m)" for chs
    using unbindChannels_keeps by (simp add: drop_stale_bindings_def)
  ultimately show ?thesis
    using assms(2,3) seeded by (auto simp: EnsureGuildReady_def Let_def split: option.split)
qed

lemma bind_channel_menu_keeps:
  assumes "one_bot_per_channel S dc (sv_store m)" and "service_synced S m" and "u \<in> set (all_bots dc)"
    and "bind_channel_menu S dc g u page sel m = (ans, m')"
  shows "one_bot_per_channel S dc (sv_store m') \<and> service_synced S m' \<and>
    s_GetBoundRole S h rt (sv_store m') = s_GetBoundRole S h rt (sv_store m) \<and> statuses m' = statuses m"
proof -
  define s' where "s' = sv_store m'"
  have m': "m' = m\<lparr>sv_store := s'\<rparr>"
    using assms(4) by (cases sel) (auto simp: bind_channel_menu_def s'_def split: list.splits sum.splits)
  have s': "s' = sv_store m \<or> s' = do_bind S dc (UnbindOp g u) (sv_store m) \<or> (\<exists>c. s' = do_bind S dc (BindOp g u c) (sv_store m))"
  proof (cases sel)
    case (Some cs)
    show ?thesis
    proof (cases cs)
      case (Cons c cs')
      then have "s' = do_bind S dc (BindOp g u c) (sv_store m)"
        using assms(4) Some by (auto simp: bind_channel_menu_def s'_def split: sum.splits)
      then show ?thesis by blast
    qed (use assms(4) Some in \<open>auto simp: bind_channel_menu_def s'_def\<close>)
  qed (use assms(4) in \<open>simp add: bind_channel_menu_def s'_def\<close>)
  have bound: "do_bind S dc (BindOp g u c) s = s \<or> do_bind S dc (BindOp g u c) s = s_BindChannel S g u c s" for c s
    by (simp add: M_BindChannel_def split: option.split)
  have "one_bot_per_channel S dc s'"
    using s' assms(1) do_bind_exclusive [OF assms(1), of "UnbindOp g u"] do_bind_exclusive [OF assms(1), of "BindOp g u c" for c]
      assms(3) by (auto simp del: do_bind.simps)
  moreover have "s' = sv_store m \<or> s' = s_UnbindChannel S g u (sv_store m) \<or> (\<exists>c. s' = s_BindChannel S g u c (sv_store m))"
    using s' bound by (metis do_bind.simps(2))
  then have keep: "s_GetBoundRole S h rt s' = s_GetBoundRole S h rt (sv_store m)"
    "\<And>g b. s_IsSpeakerEnabled S g b s' = s_IsSpeakerEnabled S g b (sv_store m)" by auto
  have "service_synced S (m\<lparr>sv_store := s'\<rparr>)" by (rule service_synced_store [OF assms(2) keep(2)])
  ultimately show ?thesis using m' keep(1) by simp
qed

lemma applyRoleMenuBinding_keeps:
  assumes "one_bot_per_channel S dc (sv_store m)" and "service_synced S m" and "applyRoleMenuBinding S g rt sel m = (ans, m')"
  shows "one_bot_per_channel S dc (sv_store m') \<and> service_synced S m' \<and> statuses m' = statuses m \<and>
    (rt = RoleTypeManager \<or> h \<noteq> g \<longrightarrow>
     s_GetBoundRole S h RoleTypeCaller (sv_store m') = s_GetBoundRole S h RoleTypeCaller (sv_store m))"
proof -
  define s' where "s' = sv_store m'"
  have m': "m' = m\<lparr>sv_store := s'\<rparr>"
    using assms(3) by (cases sel) (auto simp: applyRoleMenuBinding_def s'_def split: list.splits)
  have s': "s' = sv_store m \<or> s' = s_UnbindRole S g rt (sv_store m) \<or> (\<exists>r. s' = s_BindRole S g rt r (sv_store m))"
    using assms(3) by (cases sel) (auto simp: applyRoleMenuBinding_def s'_def split: list.splits)
  have "one_bot_per_channel S dc s'" by (rule exclusive_same_channels [OF assms(1)]) (use s' in auto)
  moreover have "service_synced S (m\<lparr>sv_store := s'\<rparr>)" by (rule service_synced_store [OF assms(2)]) (use s' in auto)
  moreover have "rt = RoleTypeManager \<or> h \<noteq> g \<longrightarrow>
      s_GetBoundRole S h RoleTypeCaller s' = s_GetBoundRole S h RoleTypeCaller (sv_store m)"
    using s' by (auto simp: get_role mutators RoleTypeCaller_def RoleTypeManager_def)
  ultimately show ?thesis using m' by simp
qed

lemma handle_click_keeps:
  assumes "pool_keyed dc" and "one_bot_per_channel S dc (sv_store m)" and "service_synced S m" and "click_ok dc c"
    and "handle_click S dc g c m = (ans, m')"
  shows "one_bot_per_channel S dc (sv_store m') \<and> service_synced S m' \<and> session_of h m' = session_of h m \<and>
    (HasActiveSession h m \<longrightarrow>
     s_GetBoundRole S h RoleTypeCaller (sv_store m') = s_GetBoundRole S h RoleTypeCaller (sv_store m))"
proof (cases c)
  case (ClickCallerRole sel)
  then show ?thesis
    using assms applyRoleMenuBinding_keeps [OF assms(2,3), of g RoleTypeCaller sel ans m' h]
    by (auto simp: handleBindRoleMenu_def session_of_def split: if_splits)
next
  case (ClickManagerRole sel)
  then show ?thesis
    using assms applyRoleMenuBinding_keeps [OF assms(2,3), of g RoleTypeManager sel ans m' h]
    by (auto simp: handleBindManagerRoleMenu_def session_of_def)
next
  case (ClickLocale sel)
  define s' where "s' = sv_store m'"
  have m': "m' = m\<lparr>sv_store := s'\<rparr>"
    using assms(5) ClickLocale by (cases sel) (auto simp: handleBindLocale_def s'_def)
  have s': "s' = sv_store m \<or> s' = s_UnbindLocale S g (sv_store m) \<or> (\<exists>l. s' = s_BindLocale S g l (sv_store m))"
    using assms(5) ClickLocale by (cases sel) (auto simp: handleBindLocale_def s'_def split: if_splits)
  have "one_bot_per_channel S dc s'" by (rule exclusive_same_channels [OF assms(2)]) (use s' in auto)
  moreover have "service_synced S (m\<lparr>sv_store := s'\<rparr>)" by (rule service_synced_store [OF assms(3)]) (use s' in auto)
  ultimately show ?thesis using m' s' by auto
next
  case (ClickOwnerChannel sel)
  then show ?thesis
    using assms bind_channel_menu_keeps [OF assms(2,3), of "ownerBotID dc" g _ sel ans m' h RoleTypeCaller]
    by (auto simp: handleBindOwnerChannel_def session_of_def all_bots_def)
next
  case (ClickSpeakerChannel sp sel)
  then show ?thesis
    using assms bind_channel_menu_keeps [OF assms(2,3), of "the sp" g _ sel ans m' h RoleTypeCaller]
    by (cases sp) (auto simp: handleBindChannel_def session_of_def)
next
  case (ClickToggle sp)
  have "m' = m \<or> (\<exists>b on. m' = snd (ToggleSpeaker S g b on m))"
    using ClickToggle assms(5)
    by (auto simp: handleToggleSpeaker_def split: option.splits prod.splits) (metis snd_conv)+
  then show ?thesis
  proof
    assume "\<exists>b on. m' = snd (ToggleSpeaker S g b on m)"
    then obtain b on where m': "m' = snd (ToggleSpeaker S g b on m)" by blast
    have "service_synced S m'" using do_speaker_synced [OF assms(1,3), of "ToggleOp g b on"] m' by simp
    moreover have "one_bot_per_channel S dc (sv_store m')"
      using assms(2) exclusive_same_channels [OF assms(2)] m' by (auto simp: ToggleSpeaker_def split: option.split)
    ultimately show ?thesis using m' by (auto simp: ToggleSpeaker_def session_of_def split: option.split)
  qed (use assms(2,3) in simp)
qed

lemma clicks_keep:
  assumes "pool_keyed dc" and "list_all (\<lambda>(ex, g, c). click_ok dc c) clicks"
    and "one_bot_per_channel S dc (sv_store m)" and "service_synced S m"
  shows "let m' = fold (\<lambda>(ex, g, c) m. snd (withGuildComponent S dc ex g c m)) clicks m in
    one_bot_per_channel S dc (sv_store m') \<and> service_synced S m' \<and> session_of h m' = session_of h m \<and>
    (HasActiveSession h m \<longrightarrow>
     s_GetBoundRole S h RoleTypeCaller (sv_store m') = s_GetBoundRole S h RoleTypeCaller (sv_store m))"
  using assms(2-4)
proof (induction clicks arbitrary: m)
  case (Cons click clicks)
  obtain ex g c where click: "click = (ex, g, c)" by (cases click)
  let ?m1 = "snd (withGuildComponent S dc ex g c m)"
  have one: "one_bot_per_channel S dc (sv_store ?m1) \<and> service_synced S ?m1 \<and> session_of h ?m1 = session_of h m \<and>
    (HasActiveSession h m \<longrightarrow>
     s_GetBoundRole S h RoleTypeCaller (sv_store ?m1) = s_GetBoundRole S h RoleTypeCaller (sv_store m))"
  proof (cases g)
    case None
    then show ?thesis using Cons.prems by (simp add: withGuildComponent_def)
  next
    case (Some g')
    let ?m0 = "EnsureGuildReady S dc ex g' m"
    obtain ans m1 where m1: "handle_click S dc g' c ?m0 = (ans, m1)" by fastforce
    note ready = EnsureGuildReady_keeps [OF assms(1) Cons.prems(2,3), of ex g' h]
    have "HasActiveSession h ?m0 = HasActiveSession h m" by (simp add: HasActiveSession_iff)
    then show ?thesis
      using handle_click_keeps [OF assms(1) _ _ _ m1, of h] ready Cons.prems(1) click Some m1
      by (simp add: withGuildComponent_def)
  qed
  then have "one_bot_per_channel S dc (sv_store ?m1)" "service_synced S ?m1" by auto
  from Cons.IH [OF _ this] one Cons.prems(1) click show ?case by (simp add: Let_def HasActiveSession_iff)
qed simp

end

text \<open>
  C18. Whatever is clicked in the setup panels, in whatever server and order: no two bots come to share a
  channel, the enabled flags stay those of the store, no session is touched, and the caller role of a server
  with a raid, which the raid's router and filter have captured, does not change.
\<close>

theorem setup_panel_keeps_contracts:
  assumes "pool_keyed dc" and "list_all (\<lambda>(ex, g, c). click_ok dc c) clicks"
    and "one_bot_per_channel yaml_store dc (sv_store m)" and "service_synced yaml_store m"
  shows "let m' = fold (\<lambda>(ex, g, c) m. snd (withGuildComponent yaml_store dc ex g c m)) clicks m in
    one_bot_per_channel yaml_store dc (sv_store m') \<and> service_synced yaml_store m' \<and> session_of h m' = session_of h m \<and>
    (HasActiveSession h m \<longrightarrow>
     s_GetBoundRole yaml_store h RoleTypeCaller (sv_store m') = s_GetBoundRole yaml_store h RoleTypeCaller (sv_store m))"
  using assms by (rule yaml.clicks_keep)

lemma setup_panel_keeps_contracts_witness:
  "service_synced yaml_store (fold (\<lambda>(ex, g, c) m. snd (withGuildComponent yaml_store small_world ex g c m))
     [(\<lambda>_. None, Some 9, ClickCallerRole (Some [7])), (\<lambda>_. None, Some 9, ClickToggle (Some 31)),
      (\<lambda>_. None, Some 9, ClickSpeakerChannel (Some 31) (Some [21]))] small_service)"
proof -
  have "service_synced yaml_store small_service" "pool_keyed small_world"
    by (simp_all add: service_synced_def new_service_def pool_keyed_def small_world_def)
  then show ?thesis
    using setup_panel_keeps_contracts [of small_world
        "[(\<lambda>_. None, Some 9, ClickCallerRole (Some [7])), (\<lambda>_. None, Some 9, ClickToggle (Some 31)),
          (\<lambda>_. None, Some 9, ClickSpeakerChannel (Some 31) (Some [21]))]" small_service]
      empty_store_exclusive
    by (simp add: Let_def all_bots_def small_world_def new_service_def)
qed

end
