(* ===== verification/Dave.thy ===== *)
theory Dave
  imports Prelude
begin

text \<open>
  The accounting of end-to-end encryption: \<^verbatim>\<open>internal/dave/session.go\<close> and
  \<^verbatim>\<open>internal/dave/stats.go\<close>.

  A counting session stands before a DAVE session of the library, whose answers are arguments: is it ready,
  what do its \<^verbatim>\<open>Decrypt\<close> and \<^verbatim>\<open>Encrypt\<close> return.  The counters are association lists in
  the order the series came up.
\<close>

section \<open>Series\<close>

record series =
  k_bot :: string
  k_user :: string
  k_outcome :: string
  k_reason :: string

record sender =
  u_bot :: string
  u_user :: string

record aggKey =
  a_bot :: string
  a_outcome :: string
  a_reason :: string

record posKey =
  p_bot :: string
  p_outcome :: string
  p_position :: string

definition outcomeSuccess :: string where "outcomeSuccess = ''success''"
definition outcomePassthrough :: string where "outcomePassthrough = ''passthrough''"
definition outcomeDropped :: string where "outcomeDropped = ''dropped''"
definition outcomeFailure :: string where "outcomeFailure = ''failure''"
definition outcomeUnsentAlone :: string where "outcomeUnsentAlone = ''unsent_alone''"
definition reasonNone :: string where "reasonNone = ''none''"

definition UnknownUserID :: string where "UnknownUserID = ''0''"

definition outcome :: "string option \<Rightarrow> string" where
  "outcome err = (if err \<noteq> None then outcomeFailure else outcomeSuccess)"

definition contains :: "string \<Rightarrow> string \<Rightarrow> bool" where
  "contains sub s \<longleftrightarrow> list_ex (\<lambda>n. take (length sub) (drop n s) = sub) [0..<Suc (length s)]"

definition reason_table :: "(string \<times> string) list" where
  "reason_table =
     [(''missing key ratchet'', ''missing_key_ratchet''), (''invalid nonce'', ''invalid_nonce''),
      (''missing cryptor'', ''missing_cryptor''), (''failed to decrypt frame'', ''decrypt_failure''),
      (''failed to encrypt frame'', ''encrypt_failure''), (''too many attempts'', ''too_many_attempts''),
      (''session not ready'', ''not_ready'')]"

definition reason :: "string option \<Rightarrow> string" where
  "reason err =
     (case err of
        None \<Rightarrow> reasonNone
      | Some msg \<Rightarrow> (case find (\<lambda>(sub, label). contains sub msg) reason_table of Some (_, label) \<Rightarrow> label | None \<Rightarrow> ''other''))"

section \<open>Counters\<close>

definition count_of :: "'k \<Rightarrow> ('k \<times> int) list \<Rightarrow> int" where
  "count_of k m = map_get 0 (map_of m) k"

text \<open>\<^verbatim>\<open>lookup\<close> and the increment.\<close>

definition add_one :: "'k \<Rightarrow> ('k \<times> int) list \<Rightarrow> ('k \<times> int) list" where
  "add_one k m = AList.update k (count_of k m + 1) m"

record Stats =
  counters :: "(series \<times> int) list"
  holders :: "sender \<rightharpoonup> int"
  retiring :: "sender set"
  retired :: "(aggKey \<times> int) list"
  encrypts :: "(aggKey \<times> int) list"
  positions :: "(posKey \<times> int) list"

definition NewStats :: Stats where
  "NewStats = \<lparr>counters = [], holders = Map.empty, retiring = {}, retired = [], encrypts = [], positions = []\<rparr>"

definition count_series :: "series \<Rightarrow> Stats \<Rightarrow> Stats" where
  "count_series k s = s\<lparr>counters := add_one k (counters s)\<rparr>"

definition Record :: "string \<Rightarrow> string \<Rightarrow> string option \<Rightarrow> Stats \<Rightarrow> Stats" where
  "Record b u err = count_series \<lparr>k_bot = b, k_user = u, k_outcome = outcome err, k_reason = reason err\<rparr>"

definition RecordPassthrough :: "string \<Rightarrow> string \<Rightarrow> Stats \<Rightarrow> Stats" where
  "RecordPassthrough b u = count_series \<lparr>k_bot = b, k_user = u, k_outcome = outcomePassthrough, k_reason = reasonNone\<rparr>"

definition RecordDropped :: "string \<Rightarrow> string \<Rightarrow> Stats \<Rightarrow> Stats" where
  "RecordDropped b u = count_series \<lparr>k_bot = b, k_user = u, k_outcome = outcomeDropped, k_reason = reasonNone\<rparr>"

definition RecordEncrypt :: "string \<Rightarrow> string option \<Rightarrow> Stats \<Rightarrow> Stats" where
  "RecordEncrypt b err s =
     s\<lparr>encrypts := add_one \<lparr>a_bot = b, a_outcome = outcome err, a_reason = reason err\<rparr> (encrypts s)\<rparr>"

definition RecordUnsentAlone :: "string \<Rightarrow> Stats \<Rightarrow> Stats" where
  "RecordUnsentAlone b s =
     s\<lparr>encrypts := add_one \<lparr>a_bot = b, a_outcome = outcomeUnsentAlone, a_reason = reasonNone\<rparr> (encrypts s)\<rparr>"

definition RecordPosition :: "string \<Rightarrow> string \<Rightarrow> string option \<Rightarrow> Stats \<Rightarrow> Stats" where
  "RecordPosition b pos err s =
     s\<lparr>positions := add_one \<lparr>p_bot = b, p_outcome = outcome err, p_position = pos\<rparr> (positions s)\<rparr>"

definition Retire :: "string \<Rightarrow> string \<Rightarrow> Stats \<Rightarrow> Stats" where
  "Retire b u s =
     (let k = \<lparr>u_bot = b, u_user = u\<rparr>; n = map_get 0 (holders s) k - 1 in
      if n > 0 then s\<lparr>holders := (holders s)(k \<mapsto> n)\<rparr>
      else s\<lparr>holders := (holders s)(k := None), retiring := insert k (retiring s)\<rparr>)"

definition Keep :: "string \<Rightarrow> string \<Rightarrow> Stats \<Rightarrow> Stats" where
  "Keep b u s =
     (let k = \<lparr>u_bot = b, u_user = u\<rparr>
      in s\<lparr>holders := (holders s)(k \<mapsto> map_get 0 (holders s) k + 1), retiring := retiring s - {k}\<rparr>)"

definition sender_of :: "series \<Rightarrow> sender" where
  "sender_of k = \<lparr>u_bot = k_bot k, u_user = k_user k\<rparr>"

definition agg_of :: "series \<Rightarrow> aggKey" where
  "agg_of k = \<lparr>a_bot = k_bot k, a_outcome = k_outcome k, a_reason = k_reason k\<rparr>"

text \<open>What a collection exports for a series: the retired counts and those of its senders.\<close>

definition live_total :: "aggKey \<Rightarrow> (series \<times> int) list \<Rightarrow> int" where
  "live_total a cs = sum_list (map snd (filter (\<lambda>(k, v). agg_of k = a) cs))"

definition total :: "Stats \<Rightarrow> aggKey \<Rightarrow> int" where
  "total s a = count_of a (retired s) + live_total a (counters s)"

text \<open>The health of a sender and the number of senders of a bot in each state.\<close>

record tally =
  t_success :: int
  t_other :: int

definition health :: "tally \<Rightarrow> string" where
  "health t = (if t_other t = 0 then ''clean'' else if t_success t = 0 then ''failing'' else ''partial'')"

definition tally_of :: "Stats \<Rightarrow> sender \<Rightarrow> tally" where
  "tally_of s u =
     (let cs = filter (\<lambda>(k, v). sender_of k = u) (counters s)
      in \<lparr>t_success = sum_list (map snd (filter (\<lambda>(k, v). k_outcome k = outcomeSuccess) cs)),
          t_other = sum_list (map snd (filter (\<lambda>(k, v). k_outcome k \<noteq> outcomeSuccess) cs))\<rparr>)"

definition senders :: "Stats \<Rightarrow> sender list" where
  "senders s = remdups (map (sender_of \<circ> fst) (filter (\<lambda>(k, v). k_user k \<noteq> UnknownUserID) (counters s)))"

definition bucket :: "Stats \<Rightarrow> string \<Rightarrow> string \<Rightarrow> nat" where
  "bucket s b h = length (filter (\<lambda>u. u_bot u = b \<and> health (tally_of s u) = h) (senders s))"

definition retire_counter :: "series \<times> int \<Rightarrow> (aggKey \<times> int) list \<Rightarrow> (aggKey \<times> int) list" where
  "retire_counter = (\<lambda>(k, v) r. AList.update (agg_of k) (count_of (agg_of k) r + v) r)"

definition evictRetired :: "Stats \<Rightarrow> Stats" where
  "evictRetired s =
     (if retiring s = {} then s
      else let gone = filter (\<lambda>(k, v). sender_of k \<in> retiring s) (counters s)
           in s\<lparr>retired := fold retire_counter gone (retired s),
                counters := filter (\<lambda>(k, v). sender_of k \<notin> retiring s) (counters s), retiring := {}\<rparr>)"

text \<open>A collection: what it exports, series by series (an absent series is zero), and the eviction after it.\<close>

record export =
  e_decrypt :: "aggKey \<Rightarrow> int"
  e_encrypt :: "aggKey \<Rightarrow> int"
  e_position :: "posKey \<Rightarrow> int"
  e_senders :: "string \<Rightarrow> string \<Rightarrow> nat"

definition observe :: "Stats \<Rightarrow> export \<times> Stats" where
  "observe s =
     (\<lparr>e_decrypt = total s, e_encrypt = (\<lambda>k. count_of k (encrypts s)), e_position = (\<lambda>k. count_of k (positions s)),
       e_senders = bucket s\<rparr>, evictRetired s)"

section \<open>Sessions\<close>

definition talkSpurtGap :: duration where "talkSpurtGap = 100 * Millisecond"
definition earlyFrames :: int where "earlyFrames = 10"

record talkSpurt =
  ts_lastAt :: int
  ts_index :: int

definition spurt_next :: "instant \<Rightarrow> talkSpurt \<Rightarrow> talkSpurt \<times> string" where
  "spurt_next now t =
     (let i = (if ts_lastAt t = 0 \<or> now - ts_lastAt t \<ge> talkSpurtGap then 0 else ts_index t)
      in (\<lparr>ts_lastAt = now, ts_index = i + 1\<rparr>,
          if i = 0 then ''first'' else if i < earlyFrames then ''early'' else ''mid''))"

text \<open>\<open>cs_onStall\<close>: somebody wants to hear of stalls.\<close>

record countingSession =
  cs_bot :: string
  cs_stallFrames :: int
  cs_onStall :: bool
  cs_encryptFails :: int
  cs_known :: "string \<rightharpoonup> talkSpurt"

definition EncryptStallFrames :: int where "EncryptStallFrames = 500"

definition Instrument :: "string \<Rightarrow> countingSession" where
  "Instrument b = \<lparr>cs_bot = b, cs_stallFrames = EncryptStallFrames, cs_onStall = True, cs_encryptFails = 0, cs_known = Map.empty\<rparr>"

definition alone :: "countingSession \<Rightarrow> bool" where
  "alone c \<longleftrightarrow> cs_known c = Map.empty"

text \<open>
  One inbound frame: \<open>inner\<close> is what the library returns for it, \<open>room\<close> the capacity of the buffer.  The result
  is the number of bytes and the error.
\<close>

definition Decrypt ::
  "string \<Rightarrow> instant \<Rightarrow> bool \<Rightarrow> int \<times> string option \<Rightarrow> nat \<Rightarrow> nat \<Rightarrow> countingSession \<times> Stats \<Rightarrow>
   (int \<times> string option) \<times> countingSession \<times> Stats" where
  "Decrypt u now ready inner frame_len room cs =
     (let (c, s) = cs in
      case cs_known c u of
        None \<Rightarrow> if ready then ((0, None), c, RecordDropped (cs_bot c) u s)
                else ((int (min room frame_len), None), c, RecordPassthrough (cs_bot c) u s)
      | Some t \<Rightarrow>
          let (t', pos) = spurt_next now t
          in (inner, c\<lparr>cs_known := (cs_known c)(u \<mapsto> t')\<rparr>,
              RecordPosition (cs_bot c) pos (snd inner) (Record (cs_bot c) u (snd inner) s)))"

text \<open>The last component: a stall is reported.\<close>

definition countEncryptFailure :: "countingSession \<Rightarrow> countingSession \<times> bool" where
  "countEncryptFailure c =
     (if cs_onStall c \<and> cs_stallFrames c > 0
      then (c\<lparr>cs_encryptFails := cs_encryptFails c + 1\<rparr>, (cs_encryptFails c + 1) mod cs_stallFrames c = 0)
      else (c, False))"

definition Encrypt ::
  "int \<times> string option \<Rightarrow> countingSession \<times> Stats \<Rightarrow> (int \<times> string option) \<times> (countingSession \<times> Stats) \<times> bool" where
  "Encrypt inner cs =
     (let (c, s) = cs; s' = RecordEncrypt (cs_bot c) (snd inner) s in
      if snd inner = None then (inner, (c\<lparr>cs_encryptFails := 0\<rparr>, s'), False)
      else let (c', stall) = countEncryptFailure c in (inner, (c', s'), stall))"

definition ErrNotReady :: string where "ErrNotReady = ''session not ready''"

definition RecordUnsentFrame :: "countingSession \<times> Stats \<Rightarrow> (countingSession \<times> Stats) \<times> bool" where
  "RecordUnsentFrame cs =
     (let (c, s) = cs in
      if alone c then ((c, RecordUnsentAlone (cs_bot c) s), False)
      else let s' = RecordEncrypt (cs_bot c) (Some ErrNotReady) s; (c', stall) = countEncryptFailure c in ((c', s'), stall))"

definition AddUser :: "string \<Rightarrow> countingSession \<times> Stats \<Rightarrow> countingSession \<times> Stats" where
  "AddUser u cs =
     (let (c, s) = cs in
      if cs_known c u \<noteq> None then (c, s)
      else (c\<lparr>cs_known := (cs_known c)(u \<mapsto> \<lparr>ts_lastAt = 0, ts_index = 0\<rparr>)\<rparr>, Keep (cs_bot c) u s))"

definition RemoveUser :: "string \<Rightarrow> countingSession \<times> Stats \<Rightarrow> countingSession \<times> Stats" where
  "RemoveUser u cs =
     (let (c, s) = cs in
      if cs_known c u = None then (c, s)
      else (c\<lparr>cs_known := (cs_known c)(u := None)\<rparr>, Retire (cs_bot c) u s))"

section \<open>No frame is lost or counted twice\<close>

datatype stat_op =
    StRecord string string "string option" | StPassthrough string string | StDropped string string
  | StKeep string string | StRetire string string | StObserve

fun do_stat :: "stat_op \<Rightarrow> Stats \<Rightarrow> Stats" where
  "do_stat (StRecord b u err) s = Record b u err s"
| "do_stat (StPassthrough b u) s = RecordPassthrough b u s"
| "do_stat (StDropped b u) s = RecordDropped b u s"
| "do_stat (StKeep b u) s = Keep b u s"
| "do_stat (StRetire b u) s = Retire b u s"
| "do_stat StObserve s = snd (observe s)"

text \<open>The series a frame belongs to.\<close>

fun frame_series :: "stat_op \<Rightarrow> series option" where
  "frame_series (StRecord b u err) = Some \<lparr>k_bot = b, k_user = u, k_outcome = outcome err, k_reason = reason err\<rparr>"
| "frame_series (StPassthrough b u) = Some \<lparr>k_bot = b, k_user = u, k_outcome = outcomePassthrough, k_reason = reasonNone\<rparr>"
| "frame_series (StDropped b u) = Some \<lparr>k_bot = b, k_user = u, k_outcome = outcomeDropped, k_reason = reasonNone\<rparr>"
| "frame_series _ = None"

lemma do_stat_frame: "frame_series op = Some k \<Longrightarrow> do_stat op s = count_series k s"
  by (cases op) (auto simp: Record_def RecordPassthrough_def RecordDropped_def)

lemma count_of_update [simp]: "count_of k (AList.update k' v m) = (if k = k' then v else count_of k m)"
  by (simp add: count_of_def map_get_def update_conv')

lemma live_total_update:
  assumes "distinct (map fst cs)"
  shows "live_total a (AList.update k v cs) = live_total a cs + (if agg_of k = a then v - count_of k cs else 0)"
  using assms
proof (induction cs)
  case Nil
  then show ?case by (simp add: live_total_def count_of_def)
next
  case (Cons c cs)
  obtain k' v' where c: "c = (k', v')" by fastforce
  have "k' = k \<Longrightarrow> map_of cs k = None" using Cons.prems c by (auto simp: map_of_eq_None_iff)
  then show ?case using Cons c by (auto simp: live_total_def count_of_def map_get_def)
qed

lemma live_total_split:
  "live_total a (filter P cs) + live_total a (filter (\<lambda>x. \<not> P x) cs) = live_total a cs"
  by (induction cs) (auto simp: live_total_def)

lemma count_of_retired:
  "count_of a (fold retire_counter cs r) = count_of a r + live_total a cs"
  by (induction cs arbitrary: r) (auto simp: retire_counter_def live_total_def)

lemma distinct_filter_keys: "distinct (map fst cs) \<Longrightarrow> distinct (map fst (filter P cs))"
  by (induction cs) auto

lemma evict_total: "total (evictRetired s) a = total s a"
proof (cases "retiring s = {}")
  case False
  let ?P = "\<lambda>(k, v). sender_of k \<in> retiring s"
  have "live_total a (filter ?P (counters s)) + live_total a (filter (\<lambda>(k, v). sender_of k \<notin> retiring s) (counters s)) =
      live_total a (counters s)"
    using live_total_split [of a ?P "counters s"] by (simp add: split_def)
  then show ?thesis
    using False by (simp add: evictRetired_def Let_def total_def count_of_retired)
qed (simp add: evictRetired_def)

lemma do_stat_total:
  assumes "distinct (map fst (counters s))"
  shows "distinct (map fst (counters (do_stat op s)))"
    "total (do_stat op s) a = total s a + (if map_option agg_of (frame_series op) = Some a then 1 else 0)"
proof -
  have "distinct (map fst (counters (do_stat op s))) \<and>
    total (do_stat op s) a = total s a + (if map_option agg_of (frame_series op) = Some a then 1 else 0)"
  proof (cases "frame_series op")
    case (Some k)
    then show ?thesis using assms
      by (simp add: do_stat_frame count_series_def total_def add_one_def live_total_update distinct_update)
  next
    case None
    then show ?thesis using assms evict_total [of s a]
      by (cases op) (auto simp: Keep_def Retire_def total_def Let_def observe_def evictRetired_def distinct_filter_keys split: if_splits)
  qed
  then show "distinct (map fst (counters (do_stat op s)))"
    "total (do_stat op s) a = total s a + (if map_option agg_of (frame_series op) = Some a then 1 else 0)"
    by auto
qed


section \<open>Series without a holder\<close>

lemma retiring_only_by_retire:
  "\<lparr>u_bot = b, u_user = u\<rparr> \<notin> retiring s \<Longrightarrow> op \<noteq> StRetire b u \<Longrightarrow> \<lparr>u_bot = b, u_user = u\<rparr> \<notin> retiring (do_stat op s)"
  by (cases op) (auto simp: Record_def RecordPassthrough_def RecordDropped_def count_series_def Keep_def Retire_def
      Let_def observe_def evictRetired_def)

lemma map_of_filter_key: "P k \<Longrightarrow> map_of (filter (\<lambda>p. P (fst p)) cs) k = map_of cs k"
  by (induction cs) auto

lemma evict_keeps_others:
  "sender_of k \<notin> retiring s \<Longrightarrow> map_of (counters (evictRetired s)) k = map_of (counters s) k"
  using map_of_filter_key [of "\<lambda>k. sender_of k \<notin> retiring s" k "counters s"]
  by (simp add: evictRetired_def Let_def split_def)

lemma count_series_grows:
  assumes "map_of (counters s) k = Some v"
  shows "\<exists>v' \<ge> v. map_of (counters (count_series k' s)) k = Some v'"
  using assms by (cases "k' = k") (auto simp: count_series_def add_one_def update_conv' count_of_def)

lemma unretired_series_stays:
  assumes "map_of (counters s) k = Some v" and "sender_of k \<notin> retiring s"
  shows "\<exists>v' \<ge> v. map_of (counters (do_stat op s)) k = Some v'"
proof (cases "frame_series op")
  case (Some k')
  then show ?thesis using count_series_grows [OF assms(1)] by (simp add: do_stat_frame)
next
  case None
  then show ?thesis using assms evict_keeps_others [OF assms(2)]
    by (cases op) (auto simp: Keep_def Retire_def Let_def observe_def)
qed

lemma unretired_series_stay:
  assumes "map_of (counters s) \<lparr>k_bot = b, k_user = u, k_outcome = oc, k_reason = rs\<rparr> = Some v"
    and "\<lparr>u_bot = b, u_user = u\<rparr> \<notin> retiring s" and "StRetire b u \<notin> set ops"
  shows "\<exists>v' \<ge> v. map_of (counters (fold do_stat ops s)) \<lparr>k_bot = b, k_user = u, k_outcome = oc, k_reason = rs\<rparr> = Some v'"
  using assms
proof (induction ops arbitrary: s v)
  case (Cons op ops)
  obtain v1 where v1: "v1 \<ge> v" "map_of (counters (do_stat op s)) \<lparr>k_bot = b, k_user = u, k_outcome = oc, k_reason = rs\<rparr> = Some v1"
    using unretired_series_stays [OF Cons.prems(1), of op] Cons.prems(2) by (auto simp: sender_of_def)
  have "\<lparr>u_bot = b, u_user = u\<rparr> \<notin> retiring (do_stat op s)"
    using retiring_only_by_retire [OF Cons.prems(2), of op] Cons.prems(3) by auto
  from Cons.IH [OF v1(2) this] Cons.prems(3) v1(1) show ?case by (auto intro: order_trans)
qed auto

text \<open>
  A counter that comes up for a sender no session holds is never dropped: only a session that drops the
  sender marks its counters, so the frame of a stranger, or a late frame of somebody who has left and whose
  counters are gone, leaves a series and a sender for good.
\<close>

theorem straggler_series_stay:
  assumes "\<lparr>u_bot = b, u_user = u\<rparr> \<notin> retiring s" and "StRetire b u \<notin> set ops" and "u \<noteq> UnknownUserID"
    and "0 \<le> count_of \<lparr>k_bot = b, k_user = u, k_outcome = outcomeDropped, k_reason = reasonNone\<rparr> (counters s)"
  shows "let s' = fold do_stat ops (RecordDropped b u s) in
    1 \<le> count_of \<lparr>k_bot = b, k_user = u, k_outcome = outcomeDropped, k_reason = reasonNone\<rparr> (counters s') \<and>
    \<lparr>u_bot = b, u_user = u\<rparr> \<in> set (senders s')"
proof -
  let ?k = "\<lparr>k_bot = b, k_user = u, k_outcome = outcomeDropped, k_reason = reasonNone\<rparr>" and ?s = "RecordDropped b u s"
  have one: "map_of (counters ?s) ?k = Some (count_of ?k (counters s) + 1)"
    by (simp add: RecordDropped_def count_series_def add_one_def update_conv')
  have "\<lparr>u_bot = b, u_user = u\<rparr> \<notin> retiring ?s"
    using assms(1) by (simp add: RecordDropped_def count_series_def)
  from unretired_series_stay [OF one this assms(2)] obtain v' where v': "v' \<ge> count_of ?k (counters s) + 1"
    "map_of (counters (fold do_stat ops ?s)) ?k = Some v'" by blast
  from map_of_SomeD [OF v'(2)] assms(3) have "\<lparr>u_bot = b, u_user = u\<rparr> \<in> set (senders (fold do_stat ops ?s))"
    by (force simp: senders_def sender_of_def)
  then show ?thesis using v' assms(4) by (simp add: Let_def count_of_def)
qed

lemma straggler_series_stay_witness:
  "\<lparr>u_bot = ''b'', u_user = ''7''\<rparr> \<in> set (senders (fold do_stat [StObserve, StObserve]
     (RecordDropped ''b'' ''7'' (fold do_stat [StKeep ''b'' ''7'', StRetire ''b'' ''7'', StObserve] NewStats))))"
proof -
  let ?s = "fold do_stat [StKeep ''b'' ''7'', StRetire ''b'' ''7'', StObserve] NewStats"
  have "retiring ?s = {}" "counters ?s = []"
    by (simp_all add: Keep_def Retire_def NewStats_def observe_def evictRetired_def Let_def)
  then show ?thesis
    using straggler_series_stay [of "''b''" "''7''" ?s "[StObserve, StObserve]"]
    by (simp add: UnknownUserID_def count_of_def Let_def del: fold.simps)
qed

section \<open>Sessions share the counters\<close>

record dave_world =
  dw_sessions :: "countingSession list"
  dw_stats :: Stats

datatype session_op =
    SAdd nat string | SRemove nat string
  | SDecrypt nat string instant bool "int \<times> string option" nat nat
  | SObserve

definition on_sess :: "nat \<Rightarrow> (countingSession \<times> Stats \<Rightarrow> countingSession \<times> Stats) \<Rightarrow> dave_world \<Rightarrow> dave_world" where
  "on_sess i f w =
     (if i < length (dw_sessions w)
      then case f (dw_sessions w ! i, dw_stats w) of
          (c, s) \<Rightarrow> w\<lparr>dw_sessions := (dw_sessions w)[i := c], dw_stats := s\<rparr>
      else w)"

fun do_session :: "session_op \<Rightarrow> dave_world \<Rightarrow> dave_world" where
  "do_session (SAdd i u) w = on_sess i (AddUser u) w"
| "do_session (SRemove i u) w = on_sess i (RemoveUser u) w"
| "do_session (SDecrypt i u now ready inner len room) w = on_sess i (\<lambda>cs. snd (Decrypt u now ready inner len room cs)) w"
| "do_session SObserve w = w\<lparr>dw_stats := snd (observe (dw_stats w))\<rparr>"

definition holds :: "sender \<Rightarrow> countingSession \<Rightarrow> bool" where
  "holds u c \<longleftrightarrow> cs_bot c = u_bot u \<and> cs_known c (u_user u) \<noteq> None"

text \<open>The holders of a sender are the sessions that know it, and no held sender is about to be dropped.\<close>

definition holders_ok :: "dave_world \<Rightarrow> bool" where
  "holders_ok w \<longleftrightarrow>
     (\<forall>u. map_get 0 (holders (dw_stats w)) u = int (length (filter (holds u) (dw_sessions w))) \<and>
          (u \<in> retiring (dw_stats w) \<longrightarrow> filter (holds u) (dw_sessions w) = []))"

lemma length_filter_upd:
  "i < length xs \<Longrightarrow> length (filter P (xs[i := y])) + of_bool (P (xs ! i)) = length (filter P xs) + of_bool (P y)"
proof (induction xs arbitrary: i)
  case (Cons x xs)
  then show ?case by (cases i) auto
qed simp

lemma holds_count_upd:
  assumes "i < length cs"
  shows "int (length (filter (holds u) (cs[i := c]))) =
    int (length (filter (holds u) cs)) + of_bool (holds u c) - of_bool (holds u (cs ! i))"
proof -
  have "int (length (filter (holds u) (cs[i := c])) + of_bool (holds u (cs ! i))) =
      int (length (filter (holds u) cs) + of_bool (holds u c))"
    using length_filter_upd [OF assms, of "holds u" c] by (rule arg_cong)
  then show ?thesis by simp
qed

lemma on_sess_ok:
  assumes "holders_ok w" and "i < length (dw_sessions w)" and "f (dw_sessions w ! i, dw_stats w) = (c, s)"
    and "\<And>u. map_get 0 (holders s) u =
      map_get 0 (holders (dw_stats w)) u + of_bool (holds u c) - of_bool (holds u (dw_sessions w ! i))"
    and "\<And>u. u \<in> retiring s \<Longrightarrow> u \<in> retiring (dw_stats w) \<and> (holds u c \<longleftrightarrow> holds u (dw_sessions w ! i)) \<or>
      map_get 0 (holders s) u \<le> 0"
  shows "holders_ok (on_sess i f w)"
proof -
  have n: "map_get 0 (holders s) u = int (length (filter (holds u) ((dw_sessions w)[i := c])))" for u
    using assms(1,4) holds_count_upd [OF assms(2), of u c] by (simp add: holders_ok_def)
  have "filter (holds u) ((dw_sessions w)[i := c]) = []" if u: "u \<in> retiring s" for u
  proof -
    consider (kept) "u \<in> retiring (dw_stats w)" "holds u c \<longleftrightarrow> holds u (dw_sessions w ! i)"
      | (zero) "map_get 0 (holders s) u \<le> 0"
      using assms(5) [OF u] by blast
    then have "int (length (filter (holds u) ((dw_sessions w)[i := c]))) \<le> 0"
    proof cases
      case kept
      then have "filter (holds u) (dw_sessions w) = []" using assms(1) by (simp add: holders_ok_def)
      then show ?thesis using kept(2) holds_count_upd [OF assms(2), of u c] by simp
    qed (simp add: n [symmetric])
    then show ?thesis by simp
  qed
  then show ?thesis using assms(2,3) n by (simp add: on_sess_def holders_ok_def)
qed

lemma holds_add:
  "holds v (c\<lparr>cs_known := (cs_known c)(u \<mapsto> t)\<rparr>) \<longleftrightarrow> v = \<lparr>u_bot = cs_bot c, u_user = u\<rparr> \<or> holds v c"
  by (cases v) (auto simp: holds_def)

lemma holds_remove:
  "holds v (c\<lparr>cs_known := (cs_known c)(u := None)\<rparr>) \<longleftrightarrow> v \<noteq> \<lparr>u_bot = cs_bot c, u_user = u\<rparr> \<and> holds v c"
  by (cases v) (auto simp: holds_def)

lemma do_session_ok:
  assumes "holders_ok w"
  shows "holders_ok (do_session op w)"
proof (cases op)
  case (SAdd i u)
  show ?thesis
  proof (cases "i < length (dw_sessions w)")
    case True
    let ?c = "dw_sessions w ! i"
    let ?k = "\<lparr>u_bot = cs_bot ?c, u_user = u\<rparr>"
    obtain c s where r: "AddUser u (?c, dw_stats w) = (c, s)" by fastforce
    have new: "(\<forall>v. (holds v c \<longleftrightarrow> v = ?k \<or> holds v ?c)) \<and> \<not> holds ?k ?c \<and> s = Keep (cs_bot ?c) u (dw_stats w)"
      if "cs_known ?c u = None"
      using r that by (auto simp: AddUser_def holds_add) (simp add: holds_def)
    have old: "c = ?c \<and> s = dw_stats w" if "cs_known ?c u \<noteq> None"
      using r that by (auto simp: AddUser_def)
    show ?thesis unfolding SAdd do_session.simps
    proof (rule on_sess_ok [where f = "AddUser u" and i = i and c = c and s = s, OF assms True r])
      show "map_get 0 (holders s) v = map_get 0 (holders (dw_stats w)) v + of_bool (holds v c) - of_bool (holds v ?c)" for v
        using new old by (cases "cs_known ?c u") (auto simp: Keep_def Let_def)
      show "v \<in> retiring s \<Longrightarrow> v \<in> retiring (dw_stats w) \<and> (holds v c \<longleftrightarrow> holds v ?c) \<or> map_get 0 (holders s) v \<le> 0" for v
        using new old by (cases "cs_known ?c u") (auto simp: Keep_def Let_def)
    qed
  qed (use assms SAdd in \<open>simp add: on_sess_def\<close>)
next
  case (SRemove i u)
  show ?thesis
  proof (cases "i < length (dw_sessions w)")
    case True
    let ?c = "dw_sessions w ! i"
    let ?k = "\<lparr>u_bot = cs_bot ?c, u_user = u\<rparr>"
    obtain c s where r: "RemoveUser u (?c, dw_stats w) = (c, s)" by fastforce
    have pos: "1 \<le> map_get 0 (holders (dw_stats w)) ?k \<and> ?k \<notin> retiring (dw_stats w)" if "cs_known ?c u \<noteq> None"
    proof -
      have "holds ?k ?c" using that by (simp add: holds_def)
      then have "?c \<in> set (filter (holds ?k) (dw_sessions w))" using True by simp
      then have "1 \<le> length (filter (holds ?k) (dw_sessions w))" by (cases "filter (holds ?k) (dw_sessions w)") auto
      moreover have "?k \<notin> retiring (dw_stats w)"
        using assms \<open>?c \<in> set (filter (holds ?k) (dw_sessions w))\<close> unfolding holders_ok_def by fastforce
      ultimately show ?thesis using assms by (simp add: holders_ok_def)
    qed
    have gone: "(\<forall>v. (holds v c \<longleftrightarrow> v \<noteq> ?k \<and> holds v ?c)) \<and> holds ?k ?c \<and> s = Retire (cs_bot ?c) u (dw_stats w)"
      if "cs_known ?c u \<noteq> None"
      using r that by (auto simp: RemoveUser_def holds_remove) (simp add: holds_def)
    have old: "c = ?c \<and> s = dw_stats w" if "cs_known ?c u = None"
      using r that by (auto simp: RemoveUser_def)
    show ?thesis unfolding SRemove do_session.simps
    proof (rule on_sess_ok [where f = "RemoveUser u" and i = i and c = c and s = s, OF assms True r])
      have gone': "holds v c \<longleftrightarrow> v \<noteq> ?k \<and> holds v ?c" "holds ?k ?c" "s = Retire (cs_bot ?c) u (dw_stats w)"
        "1 \<le> map_get 0 (holders (dw_stats w)) ?k" "?k \<notin> retiring (dw_stats w)" if "cs_known ?c u \<noteq> None" for v
        using gone pos that by blast+
      show "map_get 0 (holders s) v = map_get 0 (holders (dw_stats w)) v + of_bool (holds v c) - of_bool (holds v ?c)" for v
      proof (cases "cs_known ?c u = None")
        case False
        then show ?thesis
          using gone'(1) [OF False, of v] gone'(2-) [OF False] by (cases "v = ?k") (simp_all add: Retire_def Let_def)
      qed (simp add: old)
      show "v \<in> retiring s \<Longrightarrow> v \<in> retiring (dw_stats w) \<and> (holds v c \<longleftrightarrow> holds v ?c) \<or> map_get 0 (holders s) v \<le> 0" for v
      proof (cases "cs_known ?c u = None")
        case False
        then show "v \<in> retiring s \<Longrightarrow> ?thesis"
          using gone'(1) [OF False, of v] gone'(2-) [OF False] by (cases "v = ?k") (simp_all add: Retire_def Let_def split: if_splits)
      qed (simp add: old)
    qed
  qed (use assms SRemove in \<open>simp add: on_sess_def\<close>)
next
  case (SDecrypt i u now ready inner len room)
  show ?thesis
  proof (cases "i < length (dw_sessions w)")
    case True
    let ?c = "dw_sessions w ! i"
    obtain c s where r: "snd (Decrypt u now ready inner len room (?c, dw_stats w)) = (c, s)" by fastforce
    have same: "holders s = holders (dw_stats w)" "retiring s = retiring (dw_stats w)" "holds v c \<longleftrightarrow> holds v ?c" for v
      using r by (auto simp: Decrypt_def Let_def split_beta holds_def RecordDropped_def RecordPassthrough_def Record_def
          RecordPosition_def count_series_def split: option.splits if_splits)
    show ?thesis unfolding SDecrypt do_session.simps
      by (rule on_sess_ok [where f = "\<lambda>cs. snd (Decrypt u now ready inner len room cs)" and i = i and c = c and s = s, OF assms True r]) (simp_all add: same)
  qed (use assms SDecrypt in \<open>simp add: on_sess_def\<close>)
next
  case SObserve
  then show ?thesis using assms by (auto simp: holders_ok_def observe_def evictRetired_def Let_def)
qed


text \<open>Two sessions of one bot know a user; one of them drops the user.\<close>

definition demo_dave :: dave_world where
  "demo_dave = fold do_session
     [SAdd 0 ''7'', SAdd 1 ''7'', SDecrypt 1 ''7'' 5 True (3, None) 10 20, SRemove 0 ''7'']
     \<lparr>dw_sessions = map Instrument [''b'', ''b''], dw_stats = NewStats\<rparr>"


section \<open>Stalled encryption\<close>

text \<open>The outbound frames of a session: encrypted, or not, or dropped unsent; which of them report a stall.\<close>

datatype out_frame = Encrypted "int \<times> string option" | Unsent

fun send_frame :: "out_frame \<Rightarrow> countingSession \<times> Stats \<Rightarrow> (countingSession \<times> Stats) \<times> bool" where
  "send_frame (Encrypted inner) cs = snd (Encrypt inner cs)"
| "send_frame Unsent cs = RecordUnsentFrame cs"

fun send_frames :: "out_frame list \<Rightarrow> countingSession \<times> Stats \<Rightarrow> bool list" where
  "send_frames [] cs = []"
| "send_frames (f # fs) cs = (let (cs', stall) = send_frame f cs in stall # send_frames fs cs')"

definition fails :: "out_frame \<Rightarrow> bool" where
  "fails f \<longleftrightarrow> (case f of Encrypted inner \<Rightarrow> snd inner \<noteq> None | Unsent \<Rightarrow> True)"

text \<open>The failures up to the end, after the last success.\<close>

definition failing_run :: "out_frame list \<Rightarrow> nat" where
  "failing_run fs = length (takeWhile fails (rev fs))"

lemma failing_run_snoc: "failing_run (fs @ [f]) = (if fails f then Suc (failing_run fs) else 0)"
  by (simp add: failing_run_def)

lemma send_frame_effect:
  assumes "cs_known (fst cs) \<noteq> Map.empty" and "cs_onStall (fst cs)" and "cs_stallFrames (fst cs) = 500"
    and "send_frame f cs = (cs', stall)"
  shows "cs_encryptFails (fst cs') = (if fails f then cs_encryptFails (fst cs) + 1 else 0) \<and>
    (stall \<longleftrightarrow> fails f \<and> (cs_encryptFails (fst cs) + 1) mod 500 = 0) \<and>
    cs_known (fst cs') = cs_known (fst cs) \<and> cs_onStall (fst cs') \<and> cs_stallFrames (fst cs') = 500"
  using assms
  by (cases f; cases cs)
    (auto simp: Encrypt_def RecordUnsentFrame_def alone_def countEncryptFailure_def fails_def Let_def split: if_splits)

lemma send_frames_exact:
  assumes "cs_known (fst cs) \<noteq> Map.empty" and "cs_onStall (fst cs)" and "cs_stallFrames (fst cs) = 500"
    and "cs_encryptFails (fst cs) = int (failing_run past)" and "i < length fs"
  shows "send_frames fs cs ! i \<longleftrightarrow> fails (fs ! i) \<and> failing_run (past @ take (Suc i) fs) mod 500 = 0"
  using assms
proof (induction fs arbitrary: cs past i)
  case (Cons f fs)
  obtain cs' stall where one: "send_frame f cs = (cs', stall)" by fastforce
  note e = send_frame_effect [OF Cons.prems(1-3) one]
  have run: "cs_encryptFails (fst cs') = int (failing_run (past @ [f]))"
    using e Cons.prems(4) by (simp add: failing_run_snoc)
  show ?case
  proof (cases i)
    case 0
    have "(int (failing_run past) + 1) mod 500 = 0 \<longleftrightarrow> Suc (failing_run past) mod 500 = 0"
      by (metis of_nat_Suc of_nat_eq_0_iff of_nat_mod of_nat_numeral add.commute)
    then show ?thesis using one e Cons.prems(4) 0 by (simp add: failing_run_snoc)
  next
    case (Suc j)
    have "send_frames fs cs' ! j \<longleftrightarrow> fails (fs ! j) \<and> failing_run ((past @ [f]) @ take (Suc j) fs) mod 500 = 0"
      using Cons.prems e run Suc by (intro Cons.IH) auto
    then show ?thesis using one Suc by simp
  qed
qed simp

text \<open>
  A bot that someone could hear and whose encryption fails is noticed: a stall is reported at exactly every
  500th outbound frame in a row that failed or was dropped unsent, and one encrypted frame starts the count anew.
\<close>

theorem stall_every_500:
  assumes "i < length fs"
  shows "send_frames fs ((Instrument b)\<lparr>cs_known := [u \<mapsto> t]\<rparr>, s) ! i \<longleftrightarrow>
    fails (fs ! i) \<and> length (takeWhile fails (rev (take (Suc i) fs))) mod 500 = 0"
  using send_frames_exact [of "((Instrument b)\<lparr>cs_known := [u \<mapsto> t]\<rparr>, s)" "[]" i fs] assms
  by (simp add: Instrument_def EncryptStallFrames_def failing_run_def)

lemma stall_every_500_witness:
  "send_frames (replicate 500 Unsent) ((Instrument ''b'')\<lparr>cs_known := [''7'' \<mapsto> \<lparr>ts_lastAt = 0, ts_index = 0\<rparr>]\<rparr>, NewStats) ! 499"
proof -
  have all: "takeWhile fails (rev (take (Suc 499) (replicate 500 Unsent))) = replicate 500 Unsent"
    unfolding takeWhile_eq_all_conv by (simp add: fails_def)
  have lt: "499 < length (replicate 500 Unsent)" by simp
  show ?thesis
    unfolding stall_every_500 [OF lt] all
    by (simp add: fails_def)
qed

end
