(* ===== verification/Conn.thy ===== *)
theory Conn
  imports VoiceIO Dave
begin

text \<open>
  What hangs on a voice connection: \<^verbatim>\<open>internal/pool/audio_sender.go\<close>, \<^verbatim>\<open>audio_receiver.go\<close>,
  \<^verbatim>\<open>voice_ready.go\<close> and the heartbeat latency of \<^verbatim>\<open>voice_region.go\<close>.

  The library's connection owns a sender and a receiver, each a goroutine, and does not stop them when it is
  closed; the registries do, from the hook that runs when the connection is removed.  Connections, senders
  and receivers are numbered.  \<open>running\<close> are the goroutines of the library that run.
\<close>

section \<open>Registries\<close>

record conns =
  reg_senders :: "(nat \<times> nat) list"
  reg_receivers :: "(nat \<times> nat) list"
  ready_handlers :: "nat \<rightharpoonup> nat"
  own_sender :: "nat \<rightharpoonup> nat"
  own_receiver :: "nat \<rightharpoonup> nat"
  running :: "nat set"
  closed_once :: "nat set"
  removed :: "nat set"
  next_audio :: nat

definition no_conns :: conns where
  "no_conns = \<lparr>reg_senders = [], reg_receivers = [], ready_handlers = Map.empty, own_sender = Map.empty,
     own_receiver = Map.empty, running = {}, closed_once = {}, removed = {}, next_audio = 0\<rparr>"

text \<open>
  \<^verbatim>\<open>safeAudioSender.Close\<close> and \<^verbatim>\<open>safeAudioReceiver.Close\<close>: once, after the goroutine is known to run.
\<close>

definition safe_close :: "nat \<Rightarrow> conns \<Rightarrow> conns" where
  "safe_close a w =
     (if a \<in> closed_once w then w
      else w\<lparr>closed_once := insert a (closed_once w), running := running w - {a}\<rparr>)"

definition close_own :: "nat option \<Rightarrow> conns \<Rightarrow> conns" where
  "close_own a w = (case a of None \<Rightarrow> w | Some a \<Rightarrow> safe_close a w)"

text \<open>\<^verbatim>\<open>CreateFunc\<close> and \<^verbatim>\<open>newOwnedAudioReceiver\<close>.\<close>

definition CreateFunc :: "nat \<Rightarrow> conns \<Rightarrow> nat \<times> conns" where
  "CreateFunc c w =
     (next_audio w, w\<lparr>next_audio := next_audio w + 1, reg_senders := AList.update c (next_audio w) (reg_senders w)\<rparr>)"

definition newOwnedAudioReceiver :: "nat \<Rightarrow> conns \<Rightarrow> nat \<times> conns" where
  "newOwnedAudioReceiver c w =
     (next_audio w, w\<lparr>next_audio := next_audio w + 1, reg_receivers := AList.update c (next_audio w) (reg_receivers w)\<rparr>)"

definition registry_Close :: "nat \<Rightarrow> conns \<Rightarrow> conns" where
  "registry_Close c w = close_own (map_of (reg_senders w) c) (w\<lparr>reg_senders := AList.delete c (reg_senders w)\<rparr>)"

definition receivers_close :: "nat \<Rightarrow> conns \<Rightarrow> conns" where
  "receivers_close c w = close_own (map_of (reg_receivers w) c) (w\<lparr>reg_receivers := AList.delete c (reg_receivers w)\<rparr>)"

definition CloseAll :: "conns \<Rightarrow> conns" where
  "CloseAll w = fold safe_close (map snd (reg_senders w)) (w\<lparr>reg_senders := []\<rparr>)"

section \<open>Ready events\<close>

definition watch :: "nat \<Rightarrow> nat \<Rightarrow> conns \<Rightarrow> conns" where
  "watch c f w = w\<lparr>ready_handlers := (ready_handlers w)(c \<mapsto> f)\<rparr>"

definition forget :: "nat \<Rightarrow> conns \<Rightarrow> conns" where
  "forget c w = w\<lparr>ready_handlers := (ready_handlers w)(c := None)\<rparr>"

text \<open>The handler that runs on an event of a connection's gateway, if any; \<open>ready\<close>: its opcode is that of Ready.\<close>

definition handle :: "nat \<Rightarrow> bool \<Rightarrow> conns \<Rightarrow> nat option" where
  "handle c ready w = (if \<not> ready then None else ready_handlers w c)"

section \<open>The library's connection\<close>

text \<open>
  Installing a provider or receiver closes the connection's previous sender or receiver, creates the next
  one and starts it; a connection that is removed runs the hook of \<^verbatim>\<open>newConn\<close>; and the library closes the
  sender itself when Discord reports that the bot is out of voice.
\<close>

definition SetOpusFrameProvider :: "nat \<Rightarrow> conns \<Rightarrow> conns" where
  "SetOpusFrameProvider c w =
     (let (a, w1) = CreateFunc c (close_own (own_sender w c) w)
      in w1\<lparr>own_sender := (own_sender w1)(c \<mapsto> a), running := insert a (running w1)\<rparr>)"

definition SetOpusFrameReceiver :: "nat \<Rightarrow> conns \<Rightarrow> conns" where
  "SetOpusFrameReceiver c w =
     (let (a, w1) = newOwnedAudioReceiver c (close_own (own_receiver w c) w)
      in w1\<lparr>own_receiver := (own_receiver w1)(c \<mapsto> a), running := insert a (running w1)\<rparr>)"

definition newConn_hook :: "nat \<Rightarrow> conns \<Rightarrow> conns" where
  "newConn_hook c w = receivers_close c (registry_Close c (forget c w))"

definition remove_conn :: "nat \<Rightarrow> conns \<Rightarrow> conns" where
  "remove_conn c w = newConn_hook c (w\<lparr>removed := insert c (removed w)\<rparr>)"

datatype conn_op = SetProvider nat | SetReceiver nat | Watch nat nat | Remove nat | OutOfVoice nat

fun do_conn :: "conn_op \<Rightarrow> conns \<Rightarrow> conns" where
  "do_conn (SetProvider c) w = SetOpusFrameProvider c w"
| "do_conn (SetReceiver c) w = SetOpusFrameReceiver c w"
| "do_conn (Watch c f) w = watch c f w"
| "do_conn (Remove c) w = remove_conn c w"
| "do_conn (OutOfVoice c) w = close_own (own_sender w c) w"

text \<open>Nothing is installed on a connection that has been removed, and it is removed once.\<close>

fun timely :: "conn_op list \<Rightarrow> nat set \<Rightarrow> bool" where
  "timely [] gone = True"
| "timely (SetProvider c # ops) gone \<longleftrightarrow> c \<notin> gone \<and> timely ops gone"
| "timely (SetReceiver c # ops) gone \<longleftrightarrow> c \<notin> gone \<and> timely ops gone"
| "timely (Watch c f # ops) gone \<longleftrightarrow> c \<notin> gone \<and> timely ops gone"
| "timely (Remove c # ops) gone \<longleftrightarrow> timely ops (insert c gone)"
| "timely (OutOfVoice c # ops) gone \<longleftrightarrow> timely ops gone"

section \<open>No goroutine outlives its connection\<close>

definition audio_ok :: "conns \<Rightarrow> bool" where
  "audio_ok w \<longleftrightarrow>
     (\<forall>a \<in> running w. \<exists>c. c \<notin> removed w \<and>
        (own_sender w c = Some a \<and> map_of (reg_senders w) c = Some a \<or>
         own_receiver w c = Some a \<and> map_of (reg_receivers w) c = Some a)) \<and>
     (\<forall>c \<in> removed w. ready_handlers w c = None) \<and> running w \<inter> closed_once w = {} \<and>
     (\<forall>a \<in> running w \<union> closed_once w. a < next_audio w) \<and>
     (\<forall>c a. own_sender w c = Some a \<or> own_receiver w c = Some a \<or>
        map_of (reg_senders w) c = Some a \<or> map_of (reg_receivers w) c = Some a \<longrightarrow> a < next_audio w)"

lemma audio_okD:
  assumes "audio_ok w"
  shows "a \<in> running w \<Longrightarrow> \<exists>c. c \<notin> removed w \<and>
        (own_sender w c = Some a \<and> map_of (reg_senders w) c = Some a \<or>
         own_receiver w c = Some a \<and> map_of (reg_receivers w) c = Some a)"
    "c \<in> removed w \<Longrightarrow> ready_handlers w c = None" "a \<in> running w \<Longrightarrow> a \<notin> closed_once w"
    "a \<in> running w \<Longrightarrow> a < next_audio w" "a \<in> closed_once w \<Longrightarrow> a < next_audio w"
    "own_sender w c = Some a \<Longrightarrow> a < next_audio w" "own_receiver w c = Some a \<Longrightarrow> a < next_audio w"
    "map_of (reg_senders w) c = Some a \<Longrightarrow> a < next_audio w" "map_of (reg_receivers w) c = Some a \<Longrightarrow> a < next_audio w"
  using assms by (auto simp: audio_ok_def)

lemma close_own_frame [simp]:
  "reg_senders (close_own a w) = reg_senders w" "reg_receivers (close_own a w) = reg_receivers w"
  "ready_handlers (close_own a w) = ready_handlers w" "own_sender (close_own a w) = own_sender w"
  "own_receiver (close_own a w) = own_receiver w" "removed (close_own a w) = removed w"
  "next_audio (close_own a w) = next_audio w"
  by (auto simp: close_own_def safe_close_def split: option.split)

lemma close_own_running:
  "running w \<inter> closed_once w = {} \<Longrightarrow> running (close_own a w) = running w - set_option a"
  "closed_once (close_own a w) = closed_once w \<union> set_option a"
  by (auto simp: close_own_def safe_close_def split: option.split)

lemma close_own_ok:
  assumes "audio_ok w" and "\<And>a. x = Some a \<Longrightarrow> a < next_audio w"
  shows "audio_ok (close_own x w)"
proof -
  have d: "running w \<inter> closed_once w = {}" using assms(1) by (simp add: audio_ok_def)
  show ?thesis using assms unfolding audio_ok_def by (simp add: close_own_running(1) [OF d] close_own_running(2)) blast
qed

lemma SetOpusFrameProvider_ok:
  assumes "audio_ok w" and "c \<notin> removed w"
  shows "audio_ok (SetOpusFrameProvider c w)"
proof -
  note ok = audio_okD [OF assms(1)]
  have d: "running w \<inter> closed_once w = {}" using assms(1) by (simp add: audio_ok_def)
  let ?w = "SetOpusFrameProvider c w" and ?n = "next_audio w"
  have run: "running ?w = insert ?n (running w - set_option (own_sender w c))"
    and cl: "closed_once ?w = closed_once w \<union> set_option (own_sender w c)"
    and rest: "own_sender ?w = (own_sender w)(c \<mapsto> ?n)" "reg_senders ?w = AList.update c ?n (reg_senders w)"
      "own_receiver ?w = own_receiver w" "reg_receivers ?w = reg_receivers w" "removed ?w = removed w"
      "ready_handlers ?w = ready_handlers w" "next_audio ?w = ?n + 1"
    using close_own_running(1) [OF d] close_own_running(2) by (simp_all add: SetOpusFrameProvider_def CreateFunc_def)
  show ?thesis unfolding audio_ok_def
  proof (intro conjI ballI allI impI)
    fix a assume a: "a \<in> running ?w"
    show "\<exists>c. c \<notin> removed ?w \<and> (own_sender ?w c = Some a \<and> map_of (reg_senders ?w) c = Some a \<or>
        own_receiver ?w c = Some a \<and> map_of (reg_receivers ?w) c = Some a)"
    proof (cases "a = ?n")
      case True
      then show ?thesis using assms(2) rest by (intro exI [of _ c]) (simp add: update_conv')
    next
      case False
      with a run have r: "a \<in> running w" "own_sender w c \<noteq> Some a" by auto
      from ok(1) [OF r(1)] obtain c' where "c' \<notin> removed w"
        "own_sender w c' = Some a \<and> map_of (reg_senders w) c' = Some a \<or>
         own_receiver w c' = Some a \<and> map_of (reg_receivers w) c' = Some a" by blast
      then show ?thesis using r(2) rest by (intro exI [of _ c']) (auto simp: update_conv')
    qed
  next
    show "running ?w \<inter> closed_once ?w = {}" using run cl d by (auto dest: ok(5,6))
  next
    fix a assume "a \<in> running ?w \<union> closed_once ?w"
    then show "a < next_audio ?w" using run cl rest(7) ok(4,5,6) by (auto intro: less_SucI)
  next
    fix c' a assume "own_sender ?w c' = Some a \<or> own_receiver ?w c' = Some a \<or>
        map_of (reg_senders ?w) c' = Some a \<or> map_of (reg_receivers ?w) c' = Some a"
    then show "a < next_audio ?w" using rest ok(6-9) by (auto simp: update_conv' less_Suc_eq split: if_splits)
  qed (use rest ok(2) in simp)
qed

lemma SetOpusFrameReceiver_ok:
  assumes "audio_ok w" and "c \<notin> removed w"
  shows "audio_ok (SetOpusFrameReceiver c w)"
proof -
  note ok = audio_okD [OF assms(1)]
  have d: "running w \<inter> closed_once w = {}" using assms(1) by (simp add: audio_ok_def)
  let ?w = "SetOpusFrameReceiver c w" and ?n = "next_audio w"
  have run: "running ?w = insert ?n (running w - set_option (own_receiver w c))"
    and cl: "closed_once ?w = closed_once w \<union> set_option (own_receiver w c)"
    and rest: "own_receiver ?w = (own_receiver w)(c \<mapsto> ?n)" "reg_receivers ?w = AList.update c ?n (reg_receivers w)"
      "own_sender ?w = own_sender w" "reg_senders ?w = reg_senders w" "removed ?w = removed w"
      "ready_handlers ?w = ready_handlers w" "next_audio ?w = ?n + 1"
    using close_own_running(1) [OF d] close_own_running(2) by (simp_all add: SetOpusFrameReceiver_def newOwnedAudioReceiver_def)
  show ?thesis unfolding audio_ok_def
  proof (intro conjI ballI allI impI)
    fix a assume a: "a \<in> running ?w"
    show "\<exists>c. c \<notin> removed ?w \<and> (own_sender ?w c = Some a \<and> map_of (reg_senders ?w) c = Some a \<or>
        own_receiver ?w c = Some a \<and> map_of (reg_receivers ?w) c = Some a)"
    proof (cases "a = ?n")
      case True
      then show ?thesis using assms(2) rest by (intro exI [of _ c]) (simp add: update_conv')
    next
      case False
      with a run have r: "a \<in> running w" "own_receiver w c \<noteq> Some a" by auto
      from ok(1) [OF r(1)] obtain c' where "c' \<notin> removed w"
        "own_sender w c' = Some a \<and> map_of (reg_senders w) c' = Some a \<or>
         own_receiver w c' = Some a \<and> map_of (reg_receivers w) c' = Some a" by blast
      then show ?thesis using r(2) rest by (intro exI [of _ c']) (auto simp: update_conv')
    qed
  next
    show "running ?w \<inter> closed_once ?w = {}" using run cl d by (auto dest: ok(5,7))
  next
    fix a assume "a \<in> running ?w \<union> closed_once ?w"
    then show "a < next_audio ?w" using run cl rest(7) ok(4,5,7) by (auto intro: less_SucI)
  next
    fix c' a assume "own_sender ?w c' = Some a \<or> own_receiver ?w c' = Some a \<or>
        map_of (reg_senders ?w) c' = Some a \<or> map_of (reg_receivers ?w) c' = Some a"
    then show "a < next_audio ?w" using rest ok(6-9) by (auto simp: update_conv' less_Suc_eq split: if_splits)
  qed (use rest ok(2) in simp)
qed

lemma remove_conn_ok:
  assumes "audio_ok w"
  shows "audio_ok (remove_conn c w)"
proof -
  note ok = audio_okD [OF assms]
  have d: "running w \<inter> closed_once w = {}" using assms by (simp add: audio_ok_def)
  let ?w = "remove_conn c w" and ?x = "set_option (map_of (reg_senders w) c) \<union> set_option (map_of (reg_receivers w) c)"
  have run: "running ?w = running w - ?x" and cl: "closed_once ?w = closed_once w \<union> ?x"
    and rest: "own_sender ?w = own_sender w" "own_receiver ?w = own_receiver w"
      "reg_senders ?w = AList.delete c (reg_senders w)" "reg_receivers ?w = AList.delete c (reg_receivers w)"
      "removed ?w = insert c (removed w)" "ready_handlers ?w = (ready_handlers w)(c := None)" "next_audio ?w = next_audio w"
    using d by (auto simp: remove_conn_def newConn_hook_def receivers_close_def registry_Close_def forget_def
        close_own_def safe_close_def split: option.splits)
  show ?thesis unfolding audio_ok_def
  proof (intro conjI ballI allI impI)
    fix a assume "a \<in> running ?w"
    with run have a: "a \<in> running w" "map_of (reg_senders w) c \<noteq> Some a" "map_of (reg_receivers w) c \<noteq> Some a" by auto
    from ok(1) [OF a(1)] obtain c' where "c' \<notin> removed w"
        "own_sender w c' = Some a \<and> map_of (reg_senders w) c' = Some a \<or>
         own_receiver w c' = Some a \<and> map_of (reg_receivers w) c' = Some a" by blast
    then show "\<exists>c. c \<notin> removed ?w \<and> (own_sender ?w c = Some a \<and> map_of (reg_senders ?w) c = Some a \<or>
        own_receiver ?w c = Some a \<and> map_of (reg_receivers ?w) c = Some a)"
      using a(2,3) rest by (intro exI [of _ c']) (auto simp: delete_conv')
  next
    show "running ?w \<inter> closed_once ?w = {}" using run cl d by auto
  next
    fix a assume "a \<in> running ?w \<union> closed_once ?w"
    then show "a < next_audio ?w" using run cl rest(7) ok(4,5,8,9) by auto
  next
    fix c' a assume "own_sender ?w c' = Some a \<or> own_receiver ?w c' = Some a \<or>
        map_of (reg_senders ?w) c' = Some a \<or> map_of (reg_receivers ?w) c' = Some a"
    then show "a < next_audio ?w" using rest ok(6-9) by (auto simp: delete_conv' split: if_splits)
  qed (use rest ok(2) in auto)
qed

lemma do_conns_ok:
  assumes "audio_ok w" and "timely ops (removed w)"
  shows "audio_ok (fold do_conn ops w)"
  using assms
proof (induction ops arbitrary: w)
  case (Cons op ops)
  have gone: "removed (do_conn op w) = (case op of Remove c \<Rightarrow> insert c (removed w) | _ \<Rightarrow> removed w)"
    by (cases op) (simp_all add: SetOpusFrameProvider_def CreateFunc_def SetOpusFrameReceiver_def newOwnedAudioReceiver_def
        watch_def remove_conn_def newConn_hook_def receivers_close_def registry_Close_def forget_def)
  have "audio_ok (do_conn op w)"
  proof (cases op)
    case (Watch c f)
    then show ?thesis using Cons.prems by (auto simp: audio_ok_def watch_def)
  next
    case (OutOfVoice c)
    then show ?thesis using Cons.prems(1) close_own_ok audio_okD(6) by simp
  qed (use Cons.prems SetOpusFrameProvider_ok SetOpusFrameReceiver_ok remove_conn_ok in simp_all)
  moreover have "timely ops (removed (do_conn op w))"
    using Cons.prems(2) gone by (cases op) simp_all
  ultimately show ?case using Cons.IH by simp
qed simp



text \<open>
  A provider that is installed on a connection after its removal starts a sender that nothing stops: the hook
  does not run again, so the sender goes on polling whatever else happens on other connections.
\<close>

definition leaked :: "nat \<Rightarrow> nat \<Rightarrow> conns \<Rightarrow> bool" where
  "leaked c a w \<longleftrightarrow> a \<in> running w \<and> a < next_audio w \<and>
     (\<forall>c'. own_sender w c' = Some a \<longrightarrow> c' = c) \<and> (\<forall>c'. map_of (reg_senders w) c' = Some a \<longrightarrow> c' = c) \<and>
     (\<forall>c'. own_receiver w c' \<noteq> Some a \<and> map_of (reg_receivers w) c' \<noteq> Some a)"

lemma leaked_close_own: "leaked c a w \<Longrightarrow> x \<noteq> Some a \<Longrightarrow> leaked c a (close_own x w)"
  by (auto simp: leaked_def close_own_def safe_close_def split: option.split)

lemma leaked_step:
  assumes "leaked c a w" and "op \<notin> {SetProvider c, Remove c, OutOfVoice c}"
  shows "leaked c a (do_conn op w)"
proof (cases op)
  case (SetProvider c')
  have "leaked c a (close_own (own_sender w c') w)"
    using assms SetProvider by (intro leaked_close_own) (auto simp: leaked_def)
  then show ?thesis using SetProvider
    by (auto simp: leaked_def SetOpusFrameProvider_def CreateFunc_def update_conv' split: if_splits)
next
  case (SetReceiver c')
  have "leaked c a (close_own (own_receiver w c') w)"
    using assms by (intro leaked_close_own) (auto simp: leaked_def)
  then show ?thesis using SetReceiver
    by (auto simp: leaked_def SetOpusFrameReceiver_def newOwnedAudioReceiver_def update_conv' split: if_splits)
next
  case (Remove c')
  let ?w1 = "w\<lparr>removed := insert c' (removed w)\<rparr>"
  have "leaked c a (registry_Close c' (forget c' ?w1))"
    unfolding registry_Close_def
    by (rule leaked_close_own) (use assms Remove in \<open>auto simp: leaked_def forget_def delete_conv' split: if_splits\<close>)
  then have "leaked c a (receivers_close c' (registry_Close c' (forget c' ?w1)))"
    unfolding receivers_close_def
    by (intro leaked_close_own) (auto simp: leaked_def delete_conv' split: if_splits)
  then show ?thesis using Remove by (simp add: remove_conn_def newConn_hook_def)
next
  case (OutOfVoice c')
  then show ?thesis using assms leaked_close_own [OF assms(1), of "own_sender w c'"] by (auto simp: leaked_def)
qed (use assms in \<open>simp add: leaked_def watch_def\<close>)

theorem late_provider_never_stops:
  assumes "audio_ok w" and "set ops \<inter> {SetProvider c, Remove c, OutOfVoice c} = {}"
  shows "next_audio w \<in> running (fold do_conn ops (SetOpusFrameProvider c w))"
proof -
  have "leaked c (next_audio w) (SetOpusFrameProvider c w)"
    by (auto simp: leaked_def SetOpusFrameProvider_def CreateFunc_def update_conv'
        dest: audio_okD(6-9) [OF assms(1)] split: if_splits)
  moreover have "leaked c a (fold do_conn ops w')" if "leaked c a w'" for a w'
    using that assms(2) by (induction ops arbitrary: w') (auto simp: leaked_step)
  ultimately have "leaked c (next_audio w) (fold do_conn ops (SetOpusFrameProvider c w))" by blast
  then show ?thesis by (simp add: leaked_def)
qed

lemma late_provider_never_stops_witness:
  "1 \<in> running (fold do_conn [SetProvider 2, Remove 2] (SetOpusFrameProvider 1 (fold do_conn [SetProvider 1, Remove 1] no_conns)))"
proof -
  let ?w = "fold do_conn [SetProvider 1, Remove 1] no_conns"
  have "audio_ok no_conns" by (simp add: audio_ok_def no_conns_def)
  then have ok: "audio_ok ?w" using do_conns_ok [of no_conns "[SetProvider 1, Remove 1]"] by (simp add: no_conns_def)
  have "next_audio ?w = 1" by code_simp
  then show ?thesis using late_provider_never_stops [OF ok, of "[SetProvider 2, Remove 2]" 1] by simp
qed

section \<open>A bot that cannot encrypt is noticed\<close>

text \<open>
  \<^verbatim>\<open>unsentFrameSession.Ready\<close>, which the library's sender asks at every tick: the answer, what it leaves behind
  and whether a stall is reported.  A provider without queue (\<open>None\<close>) discards nothing.
\<close>

definition sender_ready ::
  "bool \<Rightarrow> VoiceProvider option \<Rightarrow> media \<Rightarrow> countingSession \<times> Stats \<Rightarrow> bool \<times> media \<times> (countingSession \<times> Stats) \<times> bool" where
  "sender_ready ready v w cs =
     (if ready then (True, w, cs, False)
      else case v of
          None \<Rightarrow> (False, w, cs, False)
        | Some v \<Rightarrow>
            (case DiscardFrame v w of
               (w', True) \<Rightarrow> (case RecordUnsentFrame cs of (cs', stall) \<Rightarrow> (False, w', cs', stall))
             | (w', False) \<Rightarrow> (False, w', cs, False)))"

text \<open>
  The ticks of a session that is not ready.  Before each tick the world (\<open>env\<close>) may fill the queue; for each
  tick: was a frame waiting, is a stall reported.
\<close>

fun unready_ticks :: "VoiceProvider \<Rightarrow> (media \<Rightarrow> media) list \<Rightarrow> media \<Rightarrow> countingSession \<times> Stats \<Rightarrow> (bool \<times> bool) list" where
  "unready_ticks v [] w cs = []"
| "unready_ticks v (env # envs) w cs =
     (let (r, w', cs', stall) = sender_ready False (Some v) (env w) cs
      in (chans (env w) (vp_ch v) \<noteq> [], stall) # unready_ticks v envs w' cs')"

lemma unready_ticks_exact:
  assumes "cs_known (fst cs) \<noteq> Map.empty" and "cs_onStall (fst cs)" and "cs_stallFrames (fst cs) = 500"
    and "cs_encryptFails (fst cs) = int n" and "i < length envs"
  shows "snd (unready_ticks v envs w cs ! i) \<longleftrightarrow> fst (unready_ticks v envs w cs ! i) \<and>
    (n + length (filter fst (take (Suc i) (unready_ticks v envs w cs)))) mod 500 = 0"
  using assms
proof (induction envs arbitrary: w cs n i)
  case (Cons env envs)
  show ?case
  proof (cases "chans (env w) (vp_ch v)")
    case Nil
    then have one: "sender_ready False (Some v) (env w) cs = (False, env w, cs, False)"
      by (simp add: sender_ready_def DiscardFrame_def)
    show ?thesis using Cons.IH [OF Cons.prems(1-4), of "i - 1" "env w"] Cons.prems(5) Nil one by (cases i) auto
  next
    case (Cons b q)
    obtain cs' stall where rec: "RecordUnsentFrame cs = (cs', stall)" by fastforce
    then have send: "send_frame Unsent cs = (cs', stall)" by simp
    note e = send_frame_effect [OF Cons.prems(1-3) send]
    obtain w' where one: "sender_ready False (Some v) (env w) cs = (False, w', cs', stall)"
      using Cons rec by (simp add: sender_ready_def DiscardFrame_def)
    have run: "cs_encryptFails (fst cs') = int (Suc n)" using e Cons.prems(4) by (simp add: fails_def)
    have now: "stall \<longleftrightarrow> Suc n mod 500 = 0"
    proof -
      have "(int n + 1) mod 500 = 0 \<longleftrightarrow> Suc n mod 500 = 0"
        by (metis of_nat_Suc of_nat_eq_0_iff of_nat_mod of_nat_numeral add.commute)
      then show ?thesis using e Cons.prems(4) by (simp add: fails_def)
    qed
    show ?thesis
      using Cons.IH [of cs' "Suc n" "i - 1" w'] e run now Cons.prems(1,5) Cons one by (cases i) auto
  qed
qed simp


lemma unready_ticks_busy:
  "(\<And>e w. e \<in> set envs \<Longrightarrow> chans (e w) (vp_ch v) \<noteq> []) \<Longrightarrow>
   map fst (unready_ticks v envs w cs) = replicate (length envs) True"
  by (induction envs arbitrary: w cs) (auto simp: split_beta Let_def)

lemma all_true:
  "map fst ts = replicate n True \<Longrightarrow> filter fst ts = ts \<and> length ts = n \<and> (\<forall>i < n. fst (ts ! i))"
proof (induction ts arbitrary: n)
  case (Cons t ts)
  then obtain k where "n = Suc k" by (cases n) auto
  then show ?case using Cons by (auto simp: nth_Cons split: nat.split)
qed simp


section \<open>Heartbeat latency\<close>

definition staleAfterHeartbeats :: int where "staleAfterHeartbeats = 2"

record ackLatency =
  al_rtt :: duration
  al_ackedAt :: instant
  al_interval :: duration

text \<open>A Hello carries the interval, an ACK the time its heartbeat was sent.\<close>

datatype heartbeat = Hello duration | HeartbeatACK instant

definition ack_observe :: "instant \<Rightarrow> heartbeat \<Rightarrow> ackLatency \<Rightarrow> ackLatency" where
  "ack_observe now d a =
     (case d of Hello i \<Rightarrow> a\<lparr>al_interval := i\<rparr> | HeartbeatACK sent \<Rightarrow> a\<lparr>al_rtt := now - sent, al_ackedAt := now\<rparr>)"

definition ack_read :: "instant \<Rightarrow> ackLatency \<Rightarrow> duration" where
  "ack_read now a =
     (if al_interval a > 0 \<and> now - al_ackedAt a > staleAfterHeartbeats * al_interval a then 0 else al_rtt a)"

end
