(* ===== verification/Pool.thy ===== *)
theory Pool
  imports Service "HOL-Library.List_Lexorder" "HOL-Library.Char_ord" "HOL-Library.Sublist"
begin

text \<open>
  The pool of speaker bots: \<^verbatim>\<open>internal/pool/service.go\<close>, \<^verbatim>\<open>verification.go\<close> and
  \<^verbatim>\<open>BotUserID\<close> of \<^verbatim>\<open>internal/guild/speaker.go\<close>.

  A client of the library is its identity and its token; whether its gateway exists and is connected is the
  library's affair and an argument (\<open>st\<close>), as are the answers to building a client and opening a gateway
  (\<open>connect_answer\<close>).  The pool remembers which clients have been opened and which closed.
\<close>

section \<open>The ID in a token\<close>

definition base64url_alphabet :: string where
  "base64url_alphabet = ''ABCDEFGHIJKLMNOPQRSTUVWXYZabcdefghijklmnopqrstuvwxyz0123456789-_''"

definition sextet :: "char \<Rightarrow> nat option" where
  "sextet = map_of (zip base64url_alphabet [0..<64])"

text \<open>The bytes of a run of digits; a last digit on its own is an error, spare bits are ignored.\<close>

fun quanta :: "nat list \<Rightarrow> nat list option" where
  "quanta [] = Some []"
| "quanta [a] = None"
| "quanta [a, b] = Some [4 * a + b div 16]"
| "quanta [a, b, c] = Some [4 * a + b div 16, 16 * (b mod 16) + c div 4]"
| "quanta (a # b # c # d # r) =
     map_option (\<lambda>x. [4 * a + b div 16, 16 * (b mod 16) + c div 4, 64 * (c mod 4) + d] @ x) (quanta r)"

text \<open>\<^verbatim>\<open>base64.RawURLEncoding\<close>: line ends are skipped.\<close>

definition DecodeString :: "string \<Rightarrow> string option" where
  "DecodeString s =
     (let cs = filter (\<lambda>c. c \<noteq> CHR 0x0A \<and> c \<noteq> CHR 0x0D) s in
      if list_all (\<lambda>c. sextet c \<noteq> None) cs then map_option (map char_of) (quanta (map (the \<circ> sextet) cs)) else None)"

text \<open>\<open>parse\<close> is \<^verbatim>\<open>snowflake.Parse\<close>.\<close>

definition BotUserID :: "(string \<Rightarrow> snowflake option) \<Rightarrow> string \<Rightarrow> snowflake option" where
  "BotUserID parse token =
     (let head = takeWhile (\<lambda>c. c \<noteq> CHR ''.'') token in
      if CHR ''.'' \<notin> set token \<or> head = [] then None else Option.bind (DecodeString head) parse)"

section \<open>State\<close>

record client =
  cl_id :: nat
  cl_token :: string

record verification =
  vf_verified :: bool
  vf_guilds :: int
  vf_intent :: string
  vf_blocked :: bool

record pool =
  poolClients :: "(snowflake \<times> client option) list"
  extraBots :: "(snowflake \<times> (string \<times> client option)) list"
  verifications :: "snowflake \<rightharpoonup> verification"
  freshHandler :: bool
  next_client :: nat
  opened :: "nat set"
  shut :: "nat set"

definition NewPool :: pool where
  "NewPool = \<lparr>poolClients = [], extraBots = [], verifications = Map.empty, freshHandler = False, next_client = 0,
     opened = {}, shut = {}\<rparr>"

text \<open>The gateway of a client: there is none, or it is connected or not.\<close>

type_synonym gateways = "nat \<Rightarrow> bool option"

definition isConnected :: "gateways \<Rightarrow> client option \<Rightarrow> bool" where
  "isConnected st c \<longleftrightarrow> (case c of None \<Rightarrow> False | Some cl \<Rightarrow> st (cl_id cl) = Some True)"

record connect_answer =
  ca_builds :: bool
  ca_opens :: bool

definition newPoolClient :: "string \<Rightarrow> pool \<Rightarrow> client \<times> pool" where
  "newPoolClient token p = (\<lparr>cl_id = next_client p, cl_token = token\<rparr>, p\<lparr>next_client := next_client p + 1\<rparr>)"

definition OpenGateway :: "client \<Rightarrow> bool \<Rightarrow> pool \<Rightarrow> pool" where
  "OpenGateway cl ok p = (if ok then p\<lparr>opened := insert (cl_id cl) (opened p)\<rparr> else p)"

definition close_client :: "client option \<Rightarrow> pool \<Rightarrow> pool" where
  "close_client c p = (case c of None \<Rightarrow> p | Some cl \<Rightarrow> p\<lparr>shut := insert (cl_id cl) (shut p)\<rparr>)"

section \<open>Operations\<close>

definition RegisterBot :: "snowflake \<Rightarrow> string \<Rightarrow> client option \<Rightarrow> pool \<Rightarrow> pool" where
  "RegisterBot b name c p = p\<lparr>extraBots := AList.update b (name, c) (extraBots p)\<rparr>"

definition SetFreshGatewayHandler :: "pool \<Rightarrow> pool" where
  "SetFreshGatewayHandler p = p\<lparr>freshHandler := True\<rparr>"

text \<open>A READY of a bot's own gateway: who is told.\<close>

definition freshGateway :: "snowflake \<Rightarrow> pool \<Rightarrow> snowflake option" where
  "freshGateway b p = (if freshHandler p then Some b else None)"

text \<open>One token of \<^verbatim>\<open>ConnectPool\<close>; the goroutines write to slots of their own.\<close>

definition connect_token ::
  "(string \<Rightarrow> snowflake option) \<Rightarrow> string \<times> connect_answer \<Rightarrow> (snowflake \<times> client) list \<times> pool \<Rightarrow>
   (snowflake \<times> client) list \<times> pool" where
  "connect_token parse ta rp =
     (let (token, a) = ta; (rs, p) = rp in
      case BotUserID parse token of
        None \<Rightarrow> (rs, p)
      | Some b \<Rightarrow>
          if \<not> ca_builds a then (rs, p)
          else let (cl, p1) = newPoolClient token p in (rs @ [(b, cl)], OpenGateway cl (ca_opens a) p1))"

definition ConnectPool :: "(string \<Rightarrow> snowflake option) \<Rightarrow> (string \<times> connect_answer) list \<Rightarrow> pool \<Rightarrow> pool" where
  "ConnectPool parse tas p =
     (let (rs, p1) = fold (connect_token parse) tas ([], p)
      in p1\<lparr>poolClients := fold (\<lambda>(b, cl) m. if b = 0 then m else AList.update b (Some cl) m) rs (poolClients p1)\<rparr>)"

definition sortedIDs :: "pool \<Rightarrow> snowflake list" where
  "sortedIDs p = sort (map fst (poolClients p))"

definition GetClientByID :: "gateways \<Rightarrow> snowflake \<Rightarrow> pool \<Rightarrow> client option" where
  "GetClientByID st b p =
     (case map_of (poolClients p) b of None \<Rightarrow> None | Some c \<Rightarrow> if isConnected st c then c else None)"

definition GetClients :: "gateways \<Rightarrow> pool \<Rightarrow> client list" where
  "GetClients st p =
     concat (map (\<lambda>b. case map_get None (map_of (poolClients p)) b of
         None \<Rightarrow> [] | Some cl \<Rightarrow> if isConnected st (Some cl) then [cl] else []) (sortedIDs p))"

definition ConnectedSpeakerIDs :: "gateways \<Rightarrow> pool \<Rightarrow> snowflake list" where
  "ConnectedSpeakerIDs st p =
     filter (\<lambda>b. isConnected st (map_get None (map_of (poolClients p)) b)) (sortedIDs p)"

text \<open>
  \<^verbatim>\<open>Reconnect\<close>, cut at the lock: the decision, the new client, the swap.  \<open>Inl\<close>: it is over.
\<close>

definition reconnect_check :: "gateways \<Rightarrow> snowflake \<Rightarrow> pool \<Rightarrow> bool + string" where
  "reconnect_check st b p =
     (case map_of (poolClients p) b of
        None \<Rightarrow> Inl False
      | Some c \<Rightarrow>
          if isConnected st c then Inl True
          else (case c of None \<Rightarrow> Inl False | Some cl \<Rightarrow> if cl_token cl = [] then Inl False else Inr (cl_token cl)))"

definition reconnect_open :: "connect_answer \<Rightarrow> string \<Rightarrow> pool \<Rightarrow> client option \<times> pool" where
  "reconnect_open a token p =
     (if \<not> ca_builds a then (None, p)
      else let (cl, p1) = newPoolClient token p
           in (if ca_opens a then Some cl else None, OpenGateway cl (ca_opens a) p1))"

definition reconnect_swap :: "snowflake \<Rightarrow> client \<Rightarrow> pool \<Rightarrow> pool" where
  "reconnect_swap b cl p =
     close_client (map_get None (map_of (poolClients p)) b) (p\<lparr>poolClients := AList.update b (Some cl) (poolClients p)\<rparr>)"

definition Reconnect :: "gateways \<Rightarrow> connect_answer \<Rightarrow> snowflake \<Rightarrow> pool \<Rightarrow> bool \<times> pool" where
  "Reconnect st a b p =
     (case reconnect_check st b p of
        Inl ok \<Rightarrow> (ok, p)
      | Inr token \<Rightarrow>
          (case reconnect_open a token p of
             (None, p1) \<Rightarrow> (False, p1)
           | (Some cl, p1) \<Rightarrow> (True, reconnect_swap b cl p1)))"

text \<open>\<open>no_gateway\<close>: the test of the watchdog for a bot it reconnects itself.\<close>

definition no_gateway :: "gateways \<Rightarrow> client option \<Rightarrow> bool" where
  "no_gateway st c \<longleftrightarrow> (case c of None \<Rightarrow> True | Some cl \<Rightarrow> st (cl_id cl) = None)"

definition watchdog_bot :: "gateways \<Rightarrow> (snowflake \<Rightarrow> connect_answer) \<Rightarrow> snowflake \<Rightarrow> pool \<Rightarrow> pool" where
  "watchdog_bot st ans b p =
     (let c = map_get None (map_of (poolClients p)) b in
      if isConnected st c then p else if no_gateway st c then snd (Reconnect st (ans b) b p) else p)"

definition watchdogCheck :: "gateways \<Rightarrow> (snowflake \<Rightarrow> connect_answer) \<Rightarrow> pool \<Rightarrow> pool" where
  "watchdogCheck st ans p = fold (watchdog_bot st ans) (sortedIDs p) p"

definition Pool_Shutdown :: "pool \<Rightarrow> pool" where
  "Pool_Shutdown p = (fold close_client (map snd (poolClients p)) p)\<lparr>poolClients := []\<rparr>"

section \<open>Verification\<close>

record application =
  ap_verifiedBot :: "bool option"
  ap_guilds :: int
  ap_members :: bool
  ap_membersLimited :: bool
  ap_pendingLimit :: bool

definition verificationOf :: "application \<Rightarrow> verification" where
  "verificationOf app =
     \<lparr>vf_verified = (ap_verifiedBot app = Some True), vf_guilds = ap_guilds app,
       vf_intent = (if ap_members app then ''approved'' else if ap_membersLimited app then ''limited'' else ''off''),
       vf_blocked = ap_pendingLimit app\<rparr>"

definition allClients :: "pool \<Rightarrow> (snowflake \<times> client) list" where
  "allClients p =
     (let pool = concat (map (\<lambda>(b, c). case c of None \<Rightarrow> [] | Some cl \<Rightarrow> [(b, cl)]) (poolClients p));
          extra = concat (map (\<lambda>(b, _, c). case c of None \<Rightarrow> [] | Some cl \<Rightarrow> [(b, cl)]) (extraBots p))
      in fold (\<lambda>(b, cl) m. AList.update b cl m) extra pool)"

definition pollVerification :: "(client \<Rightarrow> application option) \<Rightarrow> pool \<Rightarrow> pool" where
  "pollVerification ask p =
     fold (\<lambda>(b, cl) q. case ask cl of
         None \<Rightarrow> q | Some app \<Rightarrow> q\<lparr>verifications := (verifications q)(b \<mapsto> verificationOf app)\<rparr>) (allClients p) p"

section \<open>Starting with the whole pool\<close>

text \<open>
  \<^verbatim>\<open>connectPool\<close> of \<^verbatim>\<open>internal/bot/bot.go\<close>: \<open>st\<close> are the gateways once the pool has connected; the error
  tells how many of how many are connected.
\<close>

definition connectPool ::
  "(string \<Rightarrow> snowflake option) \<Rightarrow> (string \<times> connect_answer) list \<Rightarrow> gateways \<Rightarrow> pool \<Rightarrow> (nat \<times> nat) option \<times> pool" where
  "connectPool parse tas st p =
     (let p1 = ConnectPool parse tas p; total = length (sortedIDs p1); connected = length (GetClients st p1)
      in (if connected < total then Some (connected, total) else None, p1))"

lemma length_GetClients:
  "length (GetClients st p) = length (filter (\<lambda>b. isConnected st (map_get None (map_of (poolClients p)) b)) (sortedIDs p))"
proof -
  have "length (concat (map (\<lambda>b. case map_get None (map_of (poolClients p)) b of
         None \<Rightarrow> [] | Some cl \<Rightarrow> if isConnected st (Some cl) then [cl] else []) bs)) =
      length (filter (\<lambda>b. isConnected st (map_get None (map_of (poolClients p)) b)) bs)" for bs
    by (induction bs) (auto simp: isConnected_def split: option.split)
  then show ?thesis by (simp add: GetClients_def)
qed

text \<open>
  The service starts exactly if every bot of the pool has a connected gateway; tokens that name no bot, or
  whose client cannot be built, are not bots of the pool and do not count.
\<close>

theorem startup_needs_every_gateway:
  "fst (connectPool parse tas st p) = None \<longleftrightarrow>
   (\<forall>b \<in> fst ` set (poolClients (ConnectPool parse tas p)).
      isConnected st (map_get None (map_of (poolClients (ConnectPool parse tas p))) b))"
proof -
  let ?p = "ConnectPool parse tas p"
  let ?ok = "\<lambda>b. isConnected st (map_get None (map_of (poolClients ?p)) b)"
  have "\<not> length (filter ?ok (sortedIDs ?p)) < length (sortedIDs ?p) \<longleftrightarrow> (\<forall>b \<in> set (sortedIDs ?p). ?ok b)"
    using length_filter_less [of _ "sortedIDs ?p" ?ok] by (auto simp: filter_id_conv)
  moreover have "set (sortedIDs ?p) = fst ` set (poolClients ?p)" by (simp add: sortedIDs_def)
  ultimately show ?thesis by (auto simp: connectPool_def Let_def length_GetClients)
qed

section \<open>A token names its bot\<close>

text \<open>What \<^verbatim>\<open>RawURLEncoding\<close> writes.\<close>

fun sextets :: "nat list \<Rightarrow> nat list" where
  "sextets [] = []"
| "sextets [x] = [x div 4, 16 * (x mod 4)]"
| "sextets [x, y] = [x div 4, 16 * (x mod 4) + y div 16, 4 * (y mod 16)]"
| "sextets (x # y # z # r) = [x div 4, 16 * (x mod 4) + y div 16, 4 * (y mod 16) + z div 64, z mod 64] @ sextets r"

definition EncodeToString :: "string \<Rightarrow> string" where
  "EncodeToString s = map (\<lambda>n. base64url_alphabet ! n) (sextets (map of_char s))"

lemma byte_parts:
  "x < 256 \<Longrightarrow> x div 4 < (64 :: nat)"
  "y < 256 \<Longrightarrow> y div 16 div 16 = (0 :: nat)" "y < 256 \<Longrightarrow> y div 16 mod 16 = y div (16 :: nat)"
  "z < 256 \<Longrightarrow> z div 64 div 4 = (0 :: nat)" "z < 256 \<Longrightarrow> z div 64 mod 4 = z div (64 :: nat)"
  by (simp_all add: div_mult2_eq [symmetric])

lemma quanta_sextets: "\<forall>b \<in> set bs. b < 256 \<Longrightarrow> quanta (sextets bs) = Some bs"
  by (induction bs rule: sextets.induct) (simp_all add: byte_parts)

lemma digit_bounds:
  fixes x y z :: nat
  shows "16 * (x mod 4) < 64" "4 * (y mod 16) < 64" "z mod 64 < 64"
    "y < 256 \<Longrightarrow> 16 * (x mod 4) + y div 16 < 64" "z < 256 \<Longrightarrow> 4 * (y mod 16) + z div 64 < 64"
proof -
  have x: "x mod 4 < 4" and y: "y mod 16 < 16" by simp_all
  show "16 * (x mod 4) < 64" "4 * (y mod 16) < 64" "z mod 64 < 64" using x y by linarith+
  show "16 * (x mod 4) + y div 16 < 64" if "y < 256"
  proof -
    have "y div 16 < 16" using that by simp
    with x show ?thesis by linarith
  qed
  show "4 * (y mod 16) + z div 64 < 64" if "z < 256"
  proof -
    have "z div 64 < 4" using that by simp
    with y show ?thesis by linarith
  qed
qed

lemma sextets_bound: "\<forall>b \<in> set bs. b < 256 \<Longrightarrow> \<forall>n \<in> set (sextets bs). n < 64"
  by (induction bs rule: sextets.induct) (simp_all add: digit_bounds byte_parts(1))

lemma sextets_Nil: "sextets bs = [] \<longleftrightarrow> bs = []"
  by (cases bs rule: sextets.cases) auto

lemma base64url_alphabet_facts: "length base64url_alphabet = 64" "distinct base64url_alphabet"
  "CHR ''.'' \<notin> set base64url_alphabet" "CHR 0x0A \<notin> set base64url_alphabet" "CHR 0x0D \<notin> set base64url_alphabet"
  by (simp_all add: base64url_alphabet_def)

lemma sextet_digit: "n < 64 \<Longrightarrow> sextet (base64url_alphabet ! n) = Some n"
  using base64url_alphabet_facts(1,2)
  by (simp add: sextet_def map_of_zip_nth)

lemma digit_no_mark:
  "n < 64 \<Longrightarrow> base64url_alphabet ! n \<noteq> CHR ''.'' \<and> base64url_alphabet ! n \<noteq> CHR 0x0A \<and> base64url_alphabet ! n \<noteq> CHR 0x0D"
  using base64url_alphabet_facts nth_mem [of n base64url_alphabet] by metis

lemma DecodeString_Encode: "DecodeString (EncodeToString s) = Some s"
proof -
  let ?ns = "sextets (map of_char s)"
  have b: "\<forall>b \<in> set (map of_char s). b < (256 :: nat)" by auto
  have ns: "\<forall>n \<in> set ?ns. n < 64" by (rule sextets_bound [OF b])
  have plain: "filter (\<lambda>c. c \<noteq> CHR 0x0A \<and> c \<noteq> CHR 0x0D) (EncodeToString s) = EncodeToString s"
    using ns digit_no_mark by (auto simp: EncodeToString_def filter_id_conv)
  have "list_all (\<lambda>c. sextet c \<noteq> None) (EncodeToString s)"
    using ns sextet_digit by (auto simp: EncodeToString_def list_all_iff)
  moreover have "map (the \<circ> sextet) (EncodeToString s) = ?ns"
    using ns sextet_digit by (auto simp: EncodeToString_def intro!: map_idI)
  moreover have "map char_of (map of_char s :: nat list) = s" by (simp add: comp_def)
  ultimately show ?thesis using quanta_sextets [OF b] plain by (simp add: DecodeString_def)
qed

text \<open>
  A bot's ID is read back from its token: whatever follows the first dot, the token made of the ID's text
  yields the ID the text parses to, so a configured speaker is pooled under its own user ID.
\<close>

theorem BotUserID_of_token:
  assumes "text \<noteq> []"
  shows "BotUserID parse (EncodeToString text @ ''.'' @ rest) = parse text"
proof -
  have ns: "n < 64" if "n \<in> set (sextets (map of_char text))" for n using sextets_bound [of "map of_char text"] that by auto
  have "c \<noteq> CHR ''.''" if "c \<in> set (EncodeToString text)" for c
    using that ns digit_no_mark by (auto simp: EncodeToString_def)
  then have "takeWhile (\<lambda>c. c \<noteq> CHR ''.'') (EncodeToString text @ ''.'' @ rest) = EncodeToString text"
    by simp
  moreover have "EncodeToString text \<noteq> []" using assms by (simp add: EncodeToString_def sextets_Nil)
  ultimately show ?thesis by (simp add: BotUserID_def DecodeString_Encode)
qed

lemma BotUserID_of_token_witness:
  "BotUserID (\<lambda>s. if s = ''711'' then Some 711 else None) (EncodeToString ''711'' @ ''.'' @ ''AAAAAA.x'') = Some 711 \<and>
   EncodeToString ''711'' = ''NzEx''"
  using BotUserID_of_token [of "''711''" "\<lambda>s. if s = ''711'' then Some 711 else None" "''AAAAAA.x''"]
  by (simp add: EncodeToString_def base64url_alphabet_def)

section \<open>The pool keeps what the manager relies on\<close>

datatype pool_op =
    PConnect "(string \<times> connect_answer) list" | PReconnect gateways connect_answer snowflake
  | PWatchdog gateways "snowflake \<Rightarrow> connect_answer" | PRegister snowflake string "client option"
  | PPoll "client \<Rightarrow> application option" | PShutdown

fun do_pool :: "(string \<Rightarrow> snowflake option) \<Rightarrow> pool_op \<Rightarrow> pool \<Rightarrow> pool" where
  "do_pool parse (PConnect tas) p = ConnectPool parse tas p"
| "do_pool parse (PReconnect st a b) p = snd (Reconnect st a b p)"
| "do_pool parse (PWatchdog st ans) p = watchdogCheck st ans p"
| "do_pool parse (PRegister b name c) p = RegisterBot b name c p"
| "do_pool parse (PPoll ask) p = pollVerification ask p"
| "do_pool parse PShutdown p = Pool_Shutdown p"

text \<open>A client is kept under the ID in its token, and every bot has one.\<close>

definition tokens_keyed :: "(string \<Rightarrow> snowflake option) \<Rightarrow> pool \<Rightarrow> bool" where
  "tokens_keyed parse p \<longleftrightarrow> distinct (map fst (poolClients p)) \<and>
     (\<forall>b c. map_of (poolClients p) b = Some c \<longrightarrow> (\<exists>cl. c = Some cl \<and> BotUserID parse (cl_token cl) = Some b))"

lemma tokens_keyedD:
  "tokens_keyed parse p \<Longrightarrow> map_of (poolClients p) b = Some c \<Longrightarrow> \<exists>cl. c = Some cl \<and> BotUserID parse (cl_token cl) = Some b"
  by (simp add: tokens_keyed_def)

lemma tokens_keyed_cong: "poolClients p' = poolClients p \<Longrightarrow> tokens_keyed parse p' \<longleftrightarrow> tokens_keyed parse p"
  by (simp add: tokens_keyed_def)

lemma tokens_keyed_update:
  assumes "tokens_keyed parse p" and "BotUserID parse (cl_token cl) = Some b"
    and "poolClients p' = AList.update b (Some cl) (poolClients p)"
  shows "tokens_keyed parse p'"
  using assms by (auto simp: tokens_keyed_def distinct_update update_conv' split: if_splits)

lemma pool_frames [simp]:
  "poolClients (OpenGateway cl ok p) = poolClients p" "poolClients (close_client c p) = poolClients p"
  "opened (close_client c p) = opened p" "next_client (OpenGateway cl ok p) = next_client p"
  "next_client (close_client c p) = next_client p" "shut (OpenGateway cl ok p) = shut p"
  by (auto simp: OpenGateway_def close_client_def split: option.split)

lemma Reconnect_keyed:
  assumes "tokens_keyed parse p"
  shows "tokens_keyed parse (snd (Reconnect st a b p))"
proof (cases "reconnect_check st b p")
  case (Inr token)
  then obtain cl where old: "map_of (poolClients p) b = Some (Some cl)" "cl_token cl = token"
    by (auto simp: reconnect_check_def split: option.splits if_splits)
  then have tok: "BotUserID parse token = Some b" using tokens_keyedD [OF assms old(1)] by auto
  show ?thesis
  proof (cases "ca_builds a \<and> ca_opens a")
    case True
    then have "poolClients (snd (Reconnect st a b p)) =
        AList.update b (Some \<lparr>cl_id = next_client p, cl_token = token\<rparr>) (poolClients p)"
      using Inr by (simp add: Reconnect_def reconnect_open_def newPoolClient_def reconnect_swap_def)
    then show ?thesis by (rule tokens_keyed_update [OF assms, rotated]) (simp add: tok)
  next
    case False
    then have "poolClients (snd (Reconnect st a b p)) = poolClients p"
      using Inr by (auto simp: Reconnect_def reconnect_open_def newPoolClient_def)
    then show ?thesis using assms tokens_keyed_cong by blast
  qed
qed (use assms in \<open>simp add: Reconnect_def\<close>)

lemma connect_tokens:
  assumes "fold (connect_token parse) tas (rs, p) = (rs', p')"
    and "\<forall>(b, cl) \<in> set rs. BotUserID parse (cl_token cl) = Some b"
  shows "(\<forall>(b, cl) \<in> set rs'. BotUserID parse (cl_token cl) = Some b) \<and> poolClients p' = poolClients p"
  using assms
proof (induction tas arbitrary: rs p)
  case (Cons ta tas)
  obtain token a where ta: "ta = (token, a)" by fastforce
  obtain rs1 p1 where one: "connect_token parse ta (rs, p) = (rs1, p1)" by fastforce
  have "(\<forall>(b, cl) \<in> set rs1. BotUserID parse (cl_token cl) = Some b) \<and> poolClients p1 = poolClients p"
    using one Cons.prems(2) ta by (auto simp: connect_token_def newPoolClient_def split: option.splits if_splits)
  then show ?case using Cons.IH [of rs1 p1] Cons.prems(1) one by auto
qed auto

lemma ConnectPool_keyed:
  assumes "tokens_keyed parse p"
  shows "tokens_keyed parse (ConnectPool parse tas p)"
proof -
  obtain rs p1 where r: "fold (connect_token parse) tas ([], p) = (rs, p1)" by fastforce
  have rs: "\<forall>(b, cl) \<in> set rs. BotUserID parse (cl_token cl) = Some b" "poolClients p1 = poolClients p"
    using connect_tokens [OF r] by auto
  let ?upd = "\<lambda>(b, cl) m. if b = 0 then m else AList.update b (Some cl) m"
  have "tokens_keyed parse (p1\<lparr>poolClients := fold ?upd rs (poolClients p1)\<rparr>)"
  proof (rule fold_invariant [where P = "\<lambda>m. tokens_keyed parse (p1\<lparr>poolClients := m\<rparr>)"])
    show "tokens_keyed parse (p1\<lparr>poolClients := poolClients p1\<rparr>)" using assms rs(2) by (simp add: tokens_keyed_def)
    fix x m assume x: "x \<in> set rs" and m: "tokens_keyed parse (p1\<lparr>poolClients := m\<rparr>)"
    then show "tokens_keyed parse (p1\<lparr>poolClients := ?upd x m\<rparr>)"
      using rs(1) tokens_keyed_update [OF m] by (cases x) auto
  qed
  then show ?thesis by (simp add: ConnectPool_def r)
qed

lemma do_pool_keyed:
  assumes "tokens_keyed parse p"
  shows "tokens_keyed parse (do_pool parse op p)"
proof (cases op)
  case (PWatchdog st ans)
  have "tokens_keyed parse (watchdogCheck st ans p)" unfolding watchdogCheck_def
    by (rule fold_invariant [where P = "tokens_keyed parse"])
      (simp_all add: assms watchdog_bot_def Let_def Reconnect_keyed)
  then show ?thesis using PWatchdog by simp
next
  case (PPoll ask)
  have "poolClients (pollVerification ask p) = poolClients p" unfolding pollVerification_def
    by (rule fold_invariant [where P = "\<lambda>q. poolClients q = poolClients p"]) (auto split: option.split)
  then show ?thesis using PPoll assms tokens_keyed_cong by (metis do_pool.simps(5))
next
  case PShutdown
  then show ?thesis by (simp add: Pool_Shutdown_def tokens_keyed_def)
next
  case (PRegister b name c)
  then show ?thesis using assms by (simp add: RegisterBot_def tokens_keyed_def)
qed (use assms in \<open>simp_all add: ConnectPool_keyed Reconnect_keyed\<close>)

text \<open>The pool as the manager sees it: its IDs, and the connected client of a bot with its own user.\<close>

definition pool_view :: "gateways \<Rightarrow> (client \<Rightarrow> (snowflake \<times> string) option) \<Rightarrow> pool \<Rightarrow> discord \<Rightarrow> discord" where
  "pool_view st self p dc =
     dc\<lparr>GetIDs := sortedIDs p, SelfUser := (\<lambda>b. map_option self (GetClientByID st b p))\<rparr>"

text \<open>
  C16. The manager finds what it relies on: however the pool connects, reconnects and shuts down, it lists every
  bot once and in order, a bot that has a connected client is listed, and the client found under an ID
  is that bot, if a client's user is the one its token names.
\<close>

theorem pool_serves_the_manager:
  assumes "\<And>cl i name. self cl = Some (i, name) \<Longrightarrow> BotUserID parse (cl_token cl) = Some i"
  shows "let dc' = pool_view st self (fold (do_pool parse) ops NewPool) dc in
    pool_keyed dc' \<and> distinct (GetIDs dc') \<and> sorted (GetIDs dc') \<and> (\<forall>b. SelfUser dc' b \<noteq> None \<longrightarrow> b \<in> set (GetIDs dc'))"
proof -
  let ?p = "fold (do_pool parse) ops NewPool"
  have "tokens_keyed parse NewPool" by (simp add: tokens_keyed_def NewPool_def)
  then have ok: "tokens_keyed parse ?p"
    by (rule fold_invariant [where P = "tokens_keyed parse"]) (rule do_pool_keyed)
  have keyed: "i = b" if "map_option self (GetClientByID st b ?p) = Some (Some (i, name))" for b i name
  proof -
    from that obtain cl where cl: "map_of (poolClients ?p) b = Some (Some cl)" "self cl = Some (i, name)"
      by (auto simp: GetClientByID_def split: option.splits if_splits)
    from tokens_keyedD [OF ok cl(1)] assms [OF cl(2)] show ?thesis by simp
  qed
  have "b \<in> set (sortedIDs ?p)" if "GetClientByID st b ?p \<noteq> None" for b
    using that by (auto simp: GetClientByID_def sortedIDs_def dest: map_of_SomeD split: option.splits intro: rev_image_eqI)
  moreover have "distinct (sortedIDs ?p)" using ok by (simp add: sortedIDs_def tokens_keyed_def)
  ultimately show ?thesis
    using keyed by (auto simp: pool_view_def pool_keyed_def Let_def sortedIDs_def)
qed

text \<open>Two speakers are connected; one of them loses its connection.\<close>

definition demo_parse :: "string \<Rightarrow> snowflake option" where
  "demo_parse s = map_of [(''711'', 711), (''712'', 712)] s"

definition demo_pool_ops :: "pool_op list" where
  "demo_pool_ops =
     [PConnect [(EncodeToString ''712'' @ ''.x'', \<lparr>ca_builds = True, ca_opens = True\<rparr>),
                (''nonsense'', \<lparr>ca_builds = True, ca_opens = True\<rparr>),
                (EncodeToString ''711'' @ ''.x'', \<lparr>ca_builds = True, ca_opens = False\<rparr>)],
      PReconnect (\<lambda>_. Some False) \<lparr>ca_builds = True, ca_opens = True\<rparr> 711]"

lemma demo_pool: "sortedIDs (fold (do_pool demo_parse) demo_pool_ops NewPool) = [711, 712]"
  by code_simp

lemma pool_serves_the_manager_witness:
  "\<exists>dc. GetIDs dc = [711, 712] \<and> pool_keyed dc"
proof -
  let ?self = "\<lambda>cl. map_option (\<lambda>i. (i, ''speaker'')) (BotUserID demo_parse (cl_token cl))"
  let ?dc = "pool_view (\<lambda>_. Some True) ?self (fold (do_pool demo_parse) demo_pool_ops NewPool) undefined"
  have "pool_keyed ?dc" using pool_serves_the_manager [of ?self demo_parse "\<lambda>_. Some True" demo_pool_ops undefined]
    by (auto simp: Let_def)
  moreover have "GetIDs ?dc = [711, 712]" by (simp add: pool_view_def demo_pool)
  ultimately show ?thesis by blast
qed

section \<open>Every opened gateway has an owner\<close>

text \<open>
  Reconnects of several callers interleave: each opens its client on its own (\<open>pr_pending\<close>) and swaps it in
  under the lock.
\<close>

record pool_run =
  pr_pool :: pool
  pr_pending :: "(snowflake \<times> client) list"

datatype pool_event = EvOpen gateways connect_answer snowflake | EvSwap nat | EvShutdown

fun do_pool_event :: "pool_event \<Rightarrow> pool_run \<Rightarrow> pool_run" where
  "do_pool_event (EvOpen st a b) s =
     (case reconnect_check st b (pr_pool s) of
        Inl ok \<Rightarrow> s
      | Inr token \<Rightarrow>
          (case reconnect_open a token (pr_pool s) of
             (None, p) \<Rightarrow> s\<lparr>pr_pool := p\<rparr>
           | (Some cl, p) \<Rightarrow> s\<lparr>pr_pool := p, pr_pending := pr_pending s @ [(b, cl)]\<rparr>))"
| "do_pool_event (EvSwap i) s =
     (if i < length (pr_pending s)
      then case pr_pending s ! i of
          (b, cl) \<Rightarrow> s\<lparr>pr_pool := reconnect_swap b cl (pr_pool s), pr_pending := take i (pr_pending s) @ drop (Suc i) (pr_pending s)\<rparr>
      else s)"
| "do_pool_event EvShutdown s = s\<lparr>pr_pool := Pool_Shutdown (pr_pool s)\<rparr>"

definition pooled :: "pool \<Rightarrow> nat set" where
  "pooled p = {cl_id cl | b cl. map_of (poolClients p) b = Some (Some cl)}"

definition owned :: "pool_run \<Rightarrow> bool" where
  "owned s \<longleftrightarrow> distinct (map fst (poolClients (pr_pool s))) \<and>
     opened (pr_pool s) \<subseteq> pooled (pr_pool s) \<union> shut (pr_pool s) \<union> (cl_id \<circ> snd) ` set (pr_pending s)"

lemma pooledI: "map_of (poolClients p) b = Some (Some cl) \<Longrightarrow> cl_id cl \<in> pooled p"
  by (auto simp: pooled_def)

lemma pooled_update:
  assumes "poolClients p' = AList.update b (Some cl) (poolClients p)"
  shows "cl_id cl \<in> pooled p'"
    "i \<in> pooled p \<Longrightarrow> i \<in> pooled p' \<or> (\<exists>old. map_of (poolClients p) b = Some (Some old) \<and> i = cl_id old)"
proof -
  show "cl_id cl \<in> pooled p'" using assms by (intro pooledI [of _ b]) (simp add: update_conv')
  assume "i \<in> pooled p"
  then obtain b' cl' where c: "map_of (poolClients p) b' = Some (Some cl')" "i = cl_id cl'" by (auto simp: pooled_def)
  show "i \<in> pooled p' \<or> (\<exists>old. map_of (poolClients p) b = Some (Some old) \<and> i = cl_id old)"
  proof (cases "b' = b")
    case False
    then have "map_of (poolClients p') b' = Some (Some cl')" using assms c(1) by (simp add: update_conv')
    then show ?thesis using c(2) pooledI by blast
  qed (use c in blast)
qed

lemma swap_owned:
  "pooled p \<union> shut p \<union> {cl_id cl} \<subseteq> pooled (reconnect_swap b cl p) \<union> shut (reconnect_swap b cl p)"
proof -
  have u: "poolClients (reconnect_swap b cl p) = AList.update b (Some cl) (poolClients p)" by (simp add: reconnect_swap_def)
  have "shut p \<subseteq> shut (reconnect_swap b cl p)"
    by (auto simp: reconnect_swap_def close_client_def split: option.split)
  moreover have "cl_id old \<in> shut (reconnect_swap b cl p)" if "map_of (poolClients p) b = Some (Some old)" for old
    using that by (simp add: reconnect_swap_def close_client_def)
  ultimately show ?thesis using pooled_update [OF u] by blast
qed

lemma shutdown_closes: "pooled p \<union> shut p \<subseteq> shut (Pool_Shutdown p)"
proof -
  have "shut (fold close_client cs q) = shut q \<union> cl_id ` (\<Union> (set_option ` set cs))" for cs q
    by (induction cs arbitrary: q) (auto simp: close_client_def split: option.split)
  then show ?thesis by (auto simp: Pool_Shutdown_def pooled_def dest: map_of_SomeD intro!: image_eqI)
qed

lemma take_drop_nth: "i < length xs \<Longrightarrow> set xs = insert (xs ! i) (set (take i xs @ drop (Suc i) xs))"
  by (metis id_take_nth_drop list.simps(15) set_append Un_insert_right)

lemma do_pool_event_owned:
  assumes "owned s"
  shows "owned (do_pool_event e s)"
proof (cases e)
  case (EvOpen st a b)
  show ?thesis
  proof (cases "reconnect_check st b (pr_pool s)")
    case (Inr token)
    then show ?thesis using assms EvOpen
      by (auto simp: owned_def reconnect_open_def newPoolClient_def OpenGateway_def pooled_def)
  qed (use assms EvOpen in simp)
next
  case (EvSwap i)
  show ?thesis
  proof (cases "i < length (pr_pending s)")
    case True
    obtain b cl where at: "pr_pending s ! i = (b, cl)" by fastforce
    have "distinct (map fst (poolClients (reconnect_swap b cl (pr_pool s))))"
      using assms by (simp add: owned_def reconnect_swap_def distinct_update)
    moreover have "opened (reconnect_swap b cl (pr_pool s)) = opened (pr_pool s)" by (simp add: reconnect_swap_def)
    moreover have "(cl_id \<circ> snd) ` set (pr_pending s) =
        insert (cl_id cl) ((cl_id \<circ> snd) ` set (take i (pr_pending s) @ drop (Suc i) (pr_pending s)))"
      unfolding take_drop_nth [OF True] at by simp
    ultimately show ?thesis using assms EvSwap True at swap_owned [of "pr_pool s" cl b]
      by (auto simp: owned_def)
  qed (use assms EvSwap in simp)
next
  case EvShutdown
  have "opened (Pool_Shutdown p) = opened p" for p
  proof -
    have "opened (fold close_client cs q) = opened q" for cs q by (induction cs arbitrary: q) simp_all
    then show ?thesis by (simp add: Pool_Shutdown_def)
  qed
  then show ?thesis using assms EvShutdown shutdown_closes [of "pr_pool s"]
    by (auto simp: owned_def) (auto simp: Pool_Shutdown_def)
qed

text \<open>What a start connects, if no two tokens are of one bot and none of the bot 0.\<close>

definition token_ids :: "(string \<Rightarrow> snowflake option) \<Rightarrow> (string \<times> connect_answer) list \<Rightarrow> snowflake list" where
  "token_ids parse tas = concat (map (\<lambda>ta. case BotUserID parse (fst ta) of None \<Rightarrow> [] | Some b \<Rightarrow> [b]) tas)"

lemma connect_opens:
  assumes "fold (connect_token parse) tas (rs, p) = (rs', p')"
    and "opened p \<subseteq> cl_id ` snd ` set rs"
    and "map fst rs @ token_ids parse tas = ids"
  shows "opened p' \<subseteq> cl_id ` snd ` set rs' \<and> poolClients p' = poolClients p \<and> shut p' = shut p \<and> subseq (map fst rs') ids"
  using assms
proof (induction tas arbitrary: rs p ids)
  case Nil
  then show ?case by (auto simp: token_ids_def)
next
  case (Cons ta tas)
  obtain token a where ta: "ta = (token, a)" by fastforce
  obtain rs1 p1 where one: "connect_token parse ta (rs, p) = (rs1, p1)" by fastforce
  have step: "opened p1 \<subseteq> cl_id ` snd ` set rs1 \<and> poolClients p1 = poolClients p \<and> shut p1 = shut p"
    using one Cons.prems(2) ta
    by (auto simp: connect_token_def newPoolClient_def OpenGateway_def split: option.splits if_splits)
  have sub: "subseq (map fst rs1 @ token_ids parse tas) ids"
    using one Cons.prems(3) ta
    by (auto simp: connect_token_def newPoolClient_def token_ids_def subseq_append' split: option.splits if_splits)
  from Cons.IH [OF _ _ refl, of rs1 p1] Cons.prems(1) one step sub show ?case
    by (auto intro: subseq_order.order_trans)
qed

lemma ConnectPool_owned:
  assumes "distinct (token_ids parse tas)" and "0 \<notin> set (token_ids parse tas)"
  shows "owned \<lparr>pr_pool = ConnectPool parse tas NewPool, pr_pending = []\<rparr>"
proof -
  obtain rs p where r: "fold (connect_token parse) tas ([], NewPool) = (rs, p)" by fastforce
  have o: "opened p \<subseteq> cl_id ` snd ` set rs" "poolClients p = []" "shut p = {}"
    "subseq (map fst rs) (token_ids parse tas)"
    using connect_opens [OF r _ refl] by (auto simp: NewPool_def)
  obtain N where N: "map fst rs = nths (token_ids parse tas) N" using o(4) by (auto simp: subseq_conv_nths)
  have "set (map fst rs) \<subseteq> set (token_ids parse tas)" unfolding N by (rule set_nths_subset)
  then have d: "0 \<notin> fst ` set rs" using assms(2) by auto
  have "distinct (map fst rs)" unfolding N by (rule distinct_nthsI [OF assms(1)])
  note d = this d
  have upd: "distinct (map fst xs) \<Longrightarrow> 0 \<notin> fst ` set xs \<Longrightarrow> fst ` set xs \<inter> fst ` set m = {} \<Longrightarrow>
      fold (\<lambda>(b, cl) m. if b = 0 then m else AList.update b (Some cl) m) xs m = m @ map (map_prod id Some) xs" for xs m
  proof (induction xs arbitrary: m)
    case (Cons x xs)
    have new: "k \<notin> fst ` set m \<Longrightarrow> AList.update k v m = m @ [(k, v)]" for k v by (induction m) auto
    show ?case using Cons by (cases x) (auto simp: new)
  qed simp
  have pc: "poolClients (ConnectPool parse tas NewPool) = map (map_prod id Some) rs"
    using upd [OF d, of "[]"] by (simp add: ConnectPool_def r o(2))
  have keys: "map fst (map (map_prod id Some) rs) = map fst rs" by simp
  have "cl_id cl \<in> pooled (ConnectPool parse tas NewPool)" if "(b, cl) \<in> set rs" for b cl
  proof (rule pooledI)
    have "(b, Some cl) \<in> set (map (map_prod id Some) rs)" using imageI [OF that, of "map_prod id Some"] by simp
    then show "map_of (poolClients (ConnectPool parse tas NewPool)) b = Some (Some cl)"
      unfolding pc using d(1) keys by (intro map_of_is_SomeI) metis
  qed
  then have "opened p \<subseteq> pooled (ConnectPool parse tas NewPool)" using o(1) by force
  moreover have "opened (ConnectPool parse tas NewPool) = opened p" by (simp add: ConnectPool_def r)
  ultimately show ?thesis using d(1) keys by (simp add: owned_def pc del: map_map) blast
qed

text \<open>
  No gateway is opened and lost: from the start of a pool with one token for each bot on, through any
  interleaving of reconnects and shutdowns, every client whose gateway was ever opened is the pool's client of
  its bot, or has been closed, or is about to be swapped in by the reconnect that opened it.
\<close>

theorem opened_gateways_owned:
  assumes "distinct (token_ids parse tas)" and "0 \<notin> set (token_ids parse tas)"
  shows "let s = fold do_pool_event evs \<lparr>pr_pool = ConnectPool parse tas NewPool, pr_pending = []\<rparr> in
    opened (pr_pool s) \<subseteq> pooled (pr_pool s) \<union> shut (pr_pool s) \<union> (cl_id \<circ> snd) ` set (pr_pending s)"
proof -
  have "owned (fold do_pool_event evs \<lparr>pr_pool = ConnectPool parse tas NewPool, pr_pending = []\<rparr>)"
    by (rule fold_invariant [where P = owned]) (simp_all add: ConnectPool_owned [OF assms] do_pool_event_owned)
  then show ?thesis by (simp add: Let_def owned_def)
qed

text \<open>
  A watchdog round changes nothing if every client of the pool has a gateway, connected or not, as a client
  has that was built with gateway options.
\<close>

theorem watchdog_spares_built_clients:
  assumes "\<And>i. st i \<noteq> None"
  shows "watchdogCheck st ans (ConnectPool parse tas NewPool) = ConnectPool parse tas NewPool"
proof -
  let ?p = "ConnectPool parse tas NewPool"
  have "tokens_keyed parse ?p" by (rule ConnectPool_keyed) (simp add: tokens_keyed_def NewPool_def)
  then have "\<not> no_gateway st (map_get None (map_of (poolClients ?p)) b)" if "b \<in> fst ` set (poolClients ?p)" for b
  proof -
    from that obtain c where c: "map_of (poolClients ?p) b = Some c" by (metis map_of_eq_None_iff option.exhaust)
    from tokens_keyedD [OF \<open>tokens_keyed parse ?p\<close> c] obtain cl where "c = Some cl" by blast
    then show ?thesis using c assms [of "cl_id cl"] by (auto simp: no_gateway_def)
  qed
  then have "watchdog_bot st ans b ?p = ?p" if "b \<in> set (sortedIDs ?p)" for b
    using that by (simp add: watchdog_bot_def Let_def sortedIDs_def)
  then show ?thesis unfolding watchdogCheck_def
    by (intro fold_invariant [where P = "\<lambda>p. p = ?p"]) auto
qed

lemma opened_gateways_owned_witness:
  "let s = fold do_pool_event [EvOpen (\<lambda>_. Some False) \<lparr>ca_builds = True, ca_opens = True\<rparr> 711, EvSwap 0]
     \<lparr>pr_pool = ConnectPool demo_parse [(EncodeToString ''711'' @ ''.x'', \<lparr>ca_builds = True, ca_opens = True\<rparr>)] NewPool,
       pr_pending = []\<rparr>
   in opened (pr_pool s) = {0, 1} \<and> {0, 1} \<subseteq> pooled (pr_pool s) \<union> shut (pr_pool s)"
proof -
  let ?tas = "[(EncodeToString ''711'' @ ''.x'', \<lparr>ca_builds = True, ca_opens = True\<rparr>)]"
  let ?evs = "[EvOpen (\<lambda>_. Some False) \<lparr>ca_builds = True, ca_opens = True\<rparr> 711, EvSwap 0]"
  have "token_ids demo_parse ?tas = [711]" by code_simp
  from opened_gateways_owned [of demo_parse ?tas ?evs, unfolded this]
  have "let s = fold do_pool_event ?evs \<lparr>pr_pool = ConnectPool demo_parse ?tas NewPool, pr_pending = []\<rparr> in
    opened (pr_pool s) \<subseteq> pooled (pr_pool s) \<union> shut (pr_pool s) \<union> (cl_id \<circ> snd) ` set (pr_pending s)"
    by simp
  moreover have "let s = fold do_pool_event ?evs \<lparr>pr_pool = ConnectPool demo_parse ?tas NewPool, pr_pending = []\<rparr> in
    opened (pr_pool s) = {0, 1} \<and> pr_pending s = []"
    by code_simp
  ultimately show ?thesis by (simp add: Let_def del: fold.simps do_pool_event.simps)
qed

end
