(* ===== verification/Lifecycle.thy ===== *)
theory Lifecycle
  imports RaidRun Bot
begin

text \<open>
  The service from its first READY to its shutdown: the event listeners of
  \<^verbatim>\<open>internal/bot/handlers.go\<close>, the seeding of guilds in \<^verbatim>\<open>internal/manager/service_commands.go\<close>
  with its single flight, the warming of the caches and \<^verbatim>\<open>Shutdown\<close> in \<^verbatim>\<open>service.go\<close>, the prefetch
  of members in \<^verbatim>\<open>allow_user.go\<close> and the caller counts the service exports.
\<close>

section \<open>One seeding per guild\<close>

text \<open>
  \<^verbatim>\<open>seedGroup\<close>: \<open>sg_inFlight\<close> maps a guild to the channel its seeding closes at the end,
  \<open>sg_callers\<close> says where the callers of \<^verbatim>\<open>do\<close> are.
\<close>

datatype seeder = Seeding snowflake nat | Waiting snowflake nat | Seeded snowflake

record seedGroup =
  sg_inFlight :: "snowflake \<rightharpoonup> nat"
  sg_closed :: "nat set"
  sg_next :: nat
  sg_callers :: "nat \<rightharpoonup> seeder"
  sg_done :: "snowflake set"

definition newSeedGroup :: seedGroup where
  "newSeedGroup = \<lparr>sg_inFlight = Map.empty, sg_closed = {}, sg_next = 0, sg_callers = Map.empty, sg_done = {}\<rparr>"

definition seed_enter :: "nat \<Rightarrow> snowflake \<Rightarrow> seedGroup \<Rightarrow> seedGroup" where
  "seed_enter c g s =
     (case sg_inFlight s g of
        Some d \<Rightarrow> s\<lparr>sg_callers := (sg_callers s)(c \<mapsto> Waiting g d)\<rparr>
      | None \<Rightarrow> s\<lparr>sg_inFlight := (sg_inFlight s)(g \<mapsto> sg_next s), sg_next := Suc (sg_next s),
                  sg_callers := (sg_callers s)(c \<mapsto> Seeding g (sg_next s))\<rparr>)"

definition seed_leave :: "nat \<Rightarrow> snowflake \<Rightarrow> nat \<Rightarrow> seedGroup \<Rightarrow> seedGroup" where
  "seed_leave c g d s =
     s\<lparr>sg_inFlight := (sg_inFlight s)(g := None), sg_closed := insert d (sg_closed s),
       sg_callers := (sg_callers s)(c \<mapsto> Seeded g), sg_done := insert g (sg_done s)\<rparr>"

inductive seed_step :: "seedGroup \<Rightarrow> seedGroup \<Rightarrow> bool" where
  enter: "sg_callers s c = None \<Longrightarrow> seed_step s (seed_enter c g s)"
| leave: "sg_callers s c = Some (Seeding g d) \<Longrightarrow> seed_step s (seed_leave c g d s)"
| wake: "sg_callers s c = Some (Waiting g d) \<Longrightarrow> d \<in> sg_closed s \<Longrightarrow>
    seed_step s (s\<lparr>sg_callers := (sg_callers s)(c \<mapsto> Seeded g)\<rparr>)"

inductive_cases seed_stepE: "seed_step s s'"

text \<open>
  A guild is in flight exactly if one caller seeds it; who waits, waits for the channel of such a
  caller or for one that is closed, and a closed channel means that its guild has been seeded.
\<close>

definition seed_inv :: "(nat \<Rightarrow> snowflake) \<Rightarrow> seedGroup \<Rightarrow> bool" where
  "seed_inv owner s \<longleftrightarrow>
     (\<forall>g d. sg_inFlight s g = Some d \<longrightarrow> (\<exists>c. sg_callers s c = Some (Seeding g d))) \<and>
     (\<forall>c g d. sg_callers s c = Some (Seeding g d) \<longrightarrow> sg_inFlight s g = Some d \<and> owner d = g \<and> d < sg_next s) \<and>
     (\<forall>c c' g d d'. sg_callers s c = Some (Seeding g d) \<and> sg_callers s c' = Some (Seeding g d') \<longrightarrow> c = c') \<and>
     (\<forall>c g d. sg_callers s c = Some (Waiting g d) \<longrightarrow>
        (d \<in> sg_closed s \<or> sg_inFlight s g = Some d) \<and> owner d = g \<and> d < sg_next s) \<and>
     (\<forall>d \<in> sg_closed s. owner d \<in> sg_done s \<and> d < sg_next s) \<and>
     (\<forall>c g. sg_callers s c = Some (Seeded g) \<longrightarrow> g \<in> sg_done s)"

lemma seed_invD:
  assumes "seed_inv owner s"
  shows "sg_inFlight s g = Some d \<Longrightarrow> \<exists>c. sg_callers s c = Some (Seeding g d)"
    and "sg_callers s c = Some (Seeding g d) \<Longrightarrow> sg_inFlight s g = Some d \<and> owner d = g \<and> d < sg_next s"
    and "sg_callers s c = Some (Seeding g d) \<Longrightarrow> sg_callers s c' = Some (Seeding g d') \<Longrightarrow> c = c'"
    and "sg_callers s c = Some (Waiting g d) \<Longrightarrow>
        (d \<in> sg_closed s \<or> sg_inFlight s g = Some d) \<and> owner d = g \<and> d < sg_next s"
    and "d \<in> sg_closed s \<Longrightarrow> owner d \<in> sg_done s \<and> d < sg_next s"
    and "sg_callers s c = Some (Seeded g) \<Longrightarrow> g \<in> sg_done s"
  using assms unfolding seed_inv_def by blast+

text \<open>A caller that does not seed may be made to wait or to return, if its place is right.\<close>

lemma seed_inv_caller:
  assumes "seed_inv owner s" and "\<And>g d. sg_callers s c \<noteq> Some (Seeding g d)"
    and "case k of Seeding g d \<Rightarrow> False
      | Waiting g d \<Rightarrow> (d \<in> sg_closed s \<or> sg_inFlight s g = Some d) \<and> owner d = g \<and> d < sg_next s
      | Seeded g \<Rightarrow> g \<in> sg_done s"
  shows "seed_inv owner (s\<lparr>sg_callers := (sg_callers s)(c \<mapsto> k)\<rparr>)"
proof -
  note I = seed_invD [OF assms(1)]
  let ?s = "s\<lparr>sg_callers := (sg_callers s)(c \<mapsto> k)\<rparr>"
  have old: "x = c \<and> k' = k \<or> x \<noteq> c \<and> sg_callers s x = Some k'" if "sg_callers ?s x = Some k'" for x k'
    using that by (auto split: if_splits)
  have seeding: "sg_callers ?s x = Some (Seeding h e) \<longleftrightarrow> sg_callers s x = Some (Seeding h e)" for x h e
    using assms(2,3) by auto
  show ?thesis
    unfolding seed_inv_def seeding
  proof (intro conjI allI impI ballI)
    fix x h e assume "sg_callers ?s x = Some (Waiting h e)"
    from old [OF this] show "e \<in> sg_closed ?s \<or> sg_inFlight ?s h = Some e" "owner e = h" "e < sg_next ?s"
      using assms(3) I(4) [of x h e] by auto
  next
    fix x h assume "sg_callers ?s x = Some (Seeded h)"
    from old [OF this] show "h \<in> sg_done ?s" using assms(3) I(6) [of x h] by auto
  next
    fix x y h e e' assume "sg_callers s x = Some (Seeding h e) \<and> sg_callers s y = Some (Seeding h e')"
    then show "x = y" using I(3) by blast
  next
    fix h e assume "sg_inFlight ?s h = Some e"
    then show "\<exists>x. sg_callers s x = Some (Seeding h e)" using I(1) by simp
  next
    fix x h e assume "sg_callers s x = Some (Seeding h e)"
    from I(2) [OF this] show "sg_inFlight ?s h = Some e" "owner e = h" "e < sg_next ?s" by simp_all
  next
    fix e assume "e \<in> sg_closed ?s"
    then show "owner e \<in> sg_done ?s" "e < sg_next ?s" using I(5) [of e] by simp_all
  qed
qed

lemma seed_enter_inv:
  assumes "seed_inv owner s" and "sg_callers s c = None"
  shows "\<exists>owner. seed_inv owner (seed_enter c g s)"
proof (cases "sg_inFlight s g")
  case (Some d)
  from seed_invD(1) [OF assms(1) Some] obtain c0 where c0: "sg_callers s c0 = Some (Seeding g d)" by blast
  note d = seed_invD(2) [OF assms(1) c0]
  from seed_inv_caller [OF assms(1), of c "Waiting g d"] assms(2) d Some
  have "seed_inv owner (seed_enter c g s)" by (simp add: seed_enter_def)
  then show ?thesis by blast
next
  case None
  let ?d = "sg_next s"
  have old: "d \<noteq> ?d" if "sg_callers s x = Some (Seeding h d) \<or> sg_callers s x = Some (Waiting h d) \<or> d \<in> sg_closed s" for x h d
    using that seed_invD(2,4,5) [OF assms(1)] by blast
  have "seed_inv (owner(?d := g)) (seed_enter c g s)"
    unfolding seed_inv_def
  proof (intro conjI allI impI ballI)
    fix h d assume "sg_inFlight (seed_enter c g s) h = Some d"
    then consider "h = g" "d = ?d" | "h \<noteq> g" "sg_inFlight s h = Some d"
      using None by (auto simp: seed_enter_def split: if_splits)
    then show "\<exists>x. sg_callers (seed_enter c g s) x = Some (Seeding h d)"
    proof cases
      case 1
      then have "sg_callers (seed_enter c g s) c = Some (Seeding h d)" using None by (simp add: seed_enter_def)
      then show ?thesis by blast
    next
      case 2
      from seed_invD(1) [OF assms(1) 2(2)] obtain x where x: "sg_callers s x = Some (Seeding h d)" by blast
      with assms(2) have "x \<noteq> c" by auto
      with x have "sg_callers (seed_enter c g s) x = Some (Seeding h d)" using None by (simp add: seed_enter_def)
      then show ?thesis by blast
    qed
  next
    fix x h d assume x: "sg_callers (seed_enter c g s) x = Some (Seeding h d)"
    then show "sg_inFlight (seed_enter c g s) h = Some d" "(owner(?d := g)) d = h" "d < sg_next (seed_enter c g s)"
      using None old [of x h d] seed_invD(2) [OF assms(1), of x h d] by (auto simp: seed_enter_def split: if_splits)
  next
    fix x y h d d' assume "sg_callers (seed_enter c g s) x = Some (Seeding h d) \<and> sg_callers (seed_enter c g s) y = Some (Seeding h d')"
    then show "x = y"
      using None seed_invD(2,3) [OF assms(1)] by (auto simp: seed_enter_def split: if_splits)
  next
    fix x h d assume x: "sg_callers (seed_enter c g s) x = Some (Waiting h d)"
    then show "d \<in> sg_closed (seed_enter c g s) \<or> sg_inFlight (seed_enter c g s) h = Some d"
      "(owner(?d := g)) d = h" "d < sg_next (seed_enter c g s)"
      using None old [of x h d] seed_invD(4) [OF assms(1), of x h d] by (auto simp: seed_enter_def split: if_splits)
  next
    fix d assume d: "d \<in> sg_closed (seed_enter c g s)"
    then show "(owner(?d := g)) d \<in> sg_done (seed_enter c g s)" "d < sg_next (seed_enter c g s)"
      using None old [of 0 0 d] seed_invD(5) [OF assms(1), of d] by (auto simp: seed_enter_def)
  next
    fix x h assume "sg_callers (seed_enter c g s) x = Some (Seeded h)"
    then show "h \<in> sg_done (seed_enter c g s)"
      using None seed_invD(6) [OF assms(1), of x h] by (auto simp: seed_enter_def split: if_splits)
  qed
  then show ?thesis by blast
qed

lemma seed_leave_inv:
  assumes "seed_inv owner s" and "sg_callers s c = Some (Seeding g d)"
  shows "seed_inv owner (seed_leave c g d s)"
proof -
  note I = seed_invD [OF assms(1)] and c = seed_invD(2) [OF assms]
  have only: "x = c" if "sg_callers s x = Some (Seeding g d')" for x d'
    using I(3) [OF that assms(2)] .
  show ?thesis
    unfolding seed_inv_def
  proof (intro conjI allI impI ballI)
    fix h e assume "sg_inFlight (seed_leave c g d s) h = Some e"
    then have h: "h \<noteq> g" "sg_inFlight s h = Some e" by (auto simp: seed_leave_def split: if_splits)
    from I(1) [OF h(2)] obtain x where x: "sg_callers s x = Some (Seeding h e)" by blast
    with h(1) assms(2) have "x \<noteq> c" by auto
    with x show "\<exists>x. sg_callers (seed_leave c g d s) x = Some (Seeding h e)" by (auto simp: seed_leave_def)
  next
    fix x h e assume x: "sg_callers (seed_leave c g d s) x = Some (Seeding h e)"
    then show "sg_inFlight (seed_leave c g d s) h = Some e" "owner e = h" "e < sg_next (seed_leave c g d s)"
      using only [of x] I(2) [of x h e] by (auto simp: seed_leave_def split: if_splits)
  next
    fix x y h e e' assume "sg_callers (seed_leave c g d s) x = Some (Seeding h e) \<and> sg_callers (seed_leave c g d s) y = Some (Seeding h e')"
    then show "x = y" using I(3) [of x h e y e'] by (auto simp: seed_leave_def split: if_splits)
  next
    fix x h e assume "sg_callers (seed_leave c g d s) x = Some (Waiting h e)"
    then have w: "sg_callers s x = Some (Waiting h e)" by (simp add: seed_leave_def split: if_splits)
    from I(4) [OF w] show "owner e = h" "e < sg_next (seed_leave c g d s)" by (simp_all add: seed_leave_def)
    from I(4) [OF w] c show "e \<in> sg_closed (seed_leave c g d s) \<or> sg_inFlight (seed_leave c g d s) h = Some e"
      by (cases "h = g") (auto simp: seed_leave_def)
  next
    fix e assume "e \<in> sg_closed (seed_leave c g d s)"
    then have e: "e = d \<or> e \<in> sg_closed s" by (simp add: seed_leave_def)
    show "owner e \<in> sg_done (seed_leave c g d s)" using e I(5) c by (auto simp: seed_leave_def)
    show "e < sg_next (seed_leave c g d s)" using e I(5) c by (auto simp: seed_leave_def)
  next
    fix x h assume "sg_callers (seed_leave c g d s) x = Some (Seeded h)"
    then show "h \<in> sg_done (seed_leave c g d s)" using I(6) [of x h] by (auto simp: seed_leave_def split: if_splits)
  qed
qed

lemma seed_step_inv:
  assumes "seed_step s s'" and "seed_inv owner s"
  shows "\<exists>owner. seed_inv owner s'"
  using assms(1)
proof (cases rule: seed_step.cases)
  case (enter c g)
  then show ?thesis using seed_enter_inv [OF assms(2)] by blast
next
  case (leave c g d)
  then show ?thesis using seed_leave_inv [OF assms(2)] by blast
next
  case (wake c g d)
  show ?thesis using seed_inv_caller [OF assms(2), of c "Seeded g"] seed_invD(4) [OF assms(2) wake(2)] seed_invD(5) [OF assms(2) wake(3)] wake
    by auto
qed

text \<open>
  One seeding per guild, and nobody waits for nothing: however callers of \<^verbatim>\<open>seedGroup.do\<close> arrive,
  no two of them seed a guild at the same time, whoever waits can return or waits for one that is
  seeding, and whoever returns does so after its guild has been seeded.
\<close>

theorem seeding_single_flight:
  assumes "seed_step\<^sup>*\<^sup>* newSeedGroup s"
  shows "(sg_callers s c = Some (Seeding g d) \<and> sg_callers s c' = Some (Seeding g d') \<longrightarrow> c = c') \<and>
    (sg_callers s c = Some (Waiting g d) \<longrightarrow> d \<in> sg_closed s \<or> (\<exists>c'. sg_callers s c' = Some (Seeding g d))) \<and>
    (sg_callers s c = Some (Seeded g) \<longrightarrow> g \<in> sg_done s)"
proof -
  have "\<exists>owner. seed_inv owner s"
    using assms
  proof (induction rule: rtranclp_induct)
    case base
    have "seed_inv (\<lambda>_. 0) newSeedGroup" by (simp add: seed_inv_def newSeedGroup_def)
    then show ?case by blast
  next
    case (step s s')
    then show ?case using seed_step_inv by blast
  qed
  then obtain owner where I: "seed_inv owner s" by blast
  show ?thesis using seed_invD(1,3,4,6) [OF I] by blast
qed

lemma seeding_single_flight_witness:
  "\<exists>s. seed_step\<^sup>*\<^sup>* newSeedGroup s \<and> sg_callers s 1 = Some (Waiting 9 0) \<and> sg_callers s 0 = Some (Seeding 9 0)"
proof -
  let ?s1 = "seed_enter 0 9 newSeedGroup" and ?s2 = "seed_enter 1 9 (seed_enter 0 9 newSeedGroup)"
  have r: "seed_step\<^sup>*\<^sup>* newSeedGroup ?s2"
    by (rule rtranclp.rtrancl_into_rtrancl, rule r_into_rtranclp)
      (rule seed_step.enter, simp add: seed_enter_def newSeedGroup_def)+
  have "sg_callers ?s2 1 = Some (Waiting 9 0)" "0 \<notin> sg_closed ?s2" "sg_callers ?s2 0 = Some (Seeding 9 0)"
    by (simp_all add: seed_enter_def newSeedGroup_def)
  with seeding_single_flight [OF r, of 1 9 0] r show ?thesis by blast
qed


section \<open>Seeding and warming a guild\<close>

text \<open>
  \<open>existing\<close>: the channels of a guild as fetched, if the fetch works; \<open>fetch\<close>: what the REST API
  answers for a member.
\<close>

definition warm_channels ::
  "'s Store \<Rightarrow> discord \<Rightarrow> (snowflake \<Rightarrow> snowflake list option) \<Rightarrow> snowflake \<Rightarrow> 's Service \<Rightarrow> 's Service" where
  "warm_channels S dc existing g m =
     (case existing g of
        None \<Rightarrow> m
      | Some chs \<Rightarrow> m\<lparr>sv_store := drop_stale_bindings S dc g chs (sv_store m)\<rparr>)"

definition warm_members :: "(snowflake \<Rightarrow> member option) \<Rightarrow> snowflake \<Rightarrow> snowflake list \<Rightarrow> caches \<Rightarrow> caches" where
  "warm_members fetch g bots cs =
     fold (\<lambda>b cs. if members cs (g, b) \<noteq> None then cs
                  else case fetch b of None \<Rightarrow> cs | Some mb \<Rightarrow> AddMember g b mb cs) bots cs"

definition guild_member :: "(snowflake \<Rightarrow> member option) \<Rightarrow> caches \<Rightarrow> snowflake \<Rightarrow> snowflake \<Rightarrow> bool" where
  "guild_member fetch cs g u \<longleftrightarrow> members cs (g, u) \<noteq> None \<or> fetch u \<noteq> None"

definition seedGuild ::
  "'s Store \<Rightarrow> discord \<Rightarrow> (snowflake \<Rightarrow> snowflake list option) \<Rightarrow> snowflake \<Rightarrow> 's Service \<Rightarrow> 's Service" where
  "seedGuild S dc existing g m = warm_channels S dc existing g (seedGuildSpeakers S dc g m)"

definition SeedExistingSpeakers ::
  "'s Store \<Rightarrow> discord \<Rightarrow> (snowflake \<Rightarrow> snowflake list option) \<Rightarrow> snowflake list \<Rightarrow> 's Service \<Rightarrow> 's Service" where
  "SeedExistingSpeakers S dc existing gs m = fold (seedGuild S dc existing) gs m"

lemma EnsureGuildReady_seeds:
  "EnsureGuildReady S dc existing g m = (if statuses m g \<noteq> None then m else seedGuild S dc existing g m)"
  by (simp add: EnsureGuildReady_def seedGuild_def warm_channels_def Let_def)

lemma warm_members_keeps:
  "members cs (g, b) \<noteq> None \<Longrightarrow> members (warm_members fetch g bots cs) (g, b) = members cs (g, b)"
  unfolding warm_members_def
proof (induction bots arbitrary: cs)
  case (Cons b' bots)
  have "members (if members cs (g, b') \<noteq> None then cs
      else case fetch b' of None \<Rightarrow> cs | Some mb \<Rightarrow> AddMember g b' mb cs) (g, b) = members cs (g, b)"
    using Cons.prems by (auto split: option.split)
  with Cons show ?case by simp
qed simp

text \<open>
  Once a guild is warm its cache alone tells which bots are members of it, so the checks before a
  start need no request: a bot is cached exactly if it was or the API knows it.
\<close>

theorem warm_cache_decides_membership:
  assumes "b \<in> set bots" and "\<And>mb. fetch b = Some mb \<Longrightarrow> mb_bot mb"
  shows "members (warm_members fetch g bots cs) (g, b) \<noteq> None \<longleftrightarrow> guild_member fetch cs g b"
  using assms(1)
proof (induction bots arbitrary: cs)
  case (Cons b' bots)
  let ?cs = "if members cs (g, b') \<noteq> None then cs
      else case fetch b' of None \<Rightarrow> cs | Some mb \<Rightarrow> AddMember g b' mb cs"
  have w: "warm_members fetch g (b' # bots) cs = warm_members fetch g bots ?cs"
    by (simp add: warm_members_def)
  have same: "guild_member fetch ?cs g b \<longleftrightarrow> guild_member fetch cs g b"
    by (auto simp: guild_member_def split: option.split)
  show ?case
  proof (cases "b \<in> set bots")
    case True
    from Cons.IH [OF this, of ?cs] same show ?thesis by (simp only: w)
  next
    case False
    with Cons.prems have b: "b' = b" by simp
    have untouched: "members (warm_members fetch g bots cs') (g, b) = members cs' (g, b)" for cs'
      using False unfolding warm_members_def by (induction bots arbitrary: cs') (auto split: option.split)
    have "members ?cs (g, b) \<noteq> None \<longleftrightarrow> guild_member fetch cs g b"
      using assms(2) by (auto simp: b guild_member_def keepMember_def split: option.split)
    then show ?thesis by (simp only: w untouched)
  qed
qed simp

lemma warm_cache_decides_membership_witness:
  "members (warm_members (\<lambda>b. if b = 31 then Some \<lparr>mb_bot = True, mb_roles = []\<rparr> else None) 9 [30, 31] no_caches) (9, 31) \<noteq> None"
  by (subst warm_cache_decides_membership) (auto simp: guild_member_def split: if_splits)

text \<open>\<open>may b c\<close>: the permissions computed from the caches include all that a bot needs in its channel.\<close>

definition botChannelWarning ::
  "(snowflake \<Rightarrow> bool) \<Rightarrow> (snowflake \<Rightarrow> snowflake \<Rightarrow> bool) \<Rightarrow> caches \<Rightarrow> snowflake \<Rightarrow> snowflake \<Rightarrow> snowflake \<Rightarrow>
   (snowflake \<times> snowflake) option" where
  "botChannelWarning cached may cs g b c =
     (if cached c \<and> members cs (g, b) \<noteq> None \<and> \<not> may b c then Some (b, c) else None)"

section \<open>Prefetching the members of a channel\<close>

text \<open>\<open>chunk\<close>: the answer to the request, which the library caches; \<open>live\<close>: the guild has a session.\<close>

definition prefetch_users :: "caches \<Rightarrow> snowflake \<Rightarrow> snowflake \<Rightarrow> snowflake \<Rightarrow> snowflake list" where
  "prefetch_users cs g c b = map fst (filter (\<lambda>v. snd v = Some c \<and> fst v \<noteq> b) (VoiceStates cs g))"

definition notify_all ::
  "'s Store \<Rightarrow> bool \<Rightarrow> caches \<Rightarrow> snowflake \<Rightarrow> 's \<Rightarrow> (snowflake \<times> member) list \<Rightarrow> AllowFilter \<Rightarrow> AllowFilter" where
  "notify_all S ab cs g s ms f = fold (\<lambda>(u, mb) f. fst (NotifyMemberUpdate S ab cs g u mb False s f)) ms f"

definition prefetchChannelMembers ::
  "'s Store \<Rightarrow> bool \<Rightarrow> snowflake \<Rightarrow> snowflake option \<Rightarrow> snowflake \<Rightarrow>
   (snowflake list \<Rightarrow> (snowflake \<times> member) list option) \<Rightarrow> bool \<Rightarrow> 's \<Rightarrow> caches \<times> AllowFilter \<Rightarrow> caches \<times> AllowFilter" where
  "prefetchChannelMembers S ab g ch b chunk live s cf =
     (case ch of
        None \<Rightarrow> cf
      | Some c \<Rightarrow>
          let us = prefetch_users (fst cf) g c b in
          if us = [] then cf
          else (case chunk us of
              None \<Rightarrow> cf
            | Some ms \<Rightarrow>
                let cs = cacheVoiceMembers g ms (fst cf)
                in (cs, if live then notify_all S ab cs g s ms (snd cf) else snd cf)))"

lemma notify_all_allowed:
  "distinct (map fst ms) \<Longrightarrow>
   af_allowed (notify_all S ab cs g s ms f) u =
     (case map_of ms u of None \<Rightarrow> af_allowed f u | Some mb \<Rightarrow> Some (\<not> IsBot ab mb \<and> HasCallerRole S g (mb_roles mb) s))"
  unfolding notify_all_def
proof (induction ms arbitrary: f)
  case (Cons x ms)
  moreover have "map_of ms (fst x) = None" using Cons.prems by (simp add: map_of_eq_None_iff)
  ultimately show ?case
    by (auto simp: NotifyMemberUpdate_def af_Set_def split_beta split: option.split)
qed simp

text \<open>
  A prefetch repairs the allow filter only of a raid that is committed: then every fetched member is
  judged afresh, whatever was memoised.  Before that the filter stays as it is, and every prefetch of
  the code runs before the commit of its raid.
\<close>

theorem prefetch_repairs_committed_filter:
  assumes "prefetch_users (fst cf) g c b \<noteq> []" and "chunk (prefetch_users (fst cf) g c b) = Some ms"
    and "distinct (map fst ms)"
  shows "(map_of ms u = Some mb \<longrightarrow>
      af_allowed (snd (prefetchChannelMembers S ab g (Some c) b chunk True s cf)) u =
        Some (\<not> IsBot ab mb \<and> HasCallerRole S g (mb_roles mb) s)) \<and>
    snd (prefetchChannelMembers S ab g (Some c) b chunk False s cf) = snd cf"
  using assms by (simp add: prefetchChannelMembers_def Let_def notify_all_allowed)

lemma prefetch_repairs_committed_filter_witness:
  "let cs = no_caches\<lparr>VoiceStates := (\<lambda>g. if g = 9 then [(7, Some 21)] else [])\<rparr>;
       f = \<lparr>af_allowed = [7 \<mapsto> False], af_role = Some 5\<rparr>;
       s = s_BindRole memory_store 9 RoleTypeCaller 5 NewInMemoryStore;
       chunk = (\<lambda>us. Some [(7, \<lparr>mb_bot = False, mb_roles = [5]\<rparr>)])
   in af_allowed (snd (prefetchChannelMembers memory_store False 9 (Some 21) 31 chunk True s (cs, f))) 7 = Some True"
proof -
  let ?cs = "no_caches\<lparr>VoiceStates := (\<lambda>g. if g = 9 then [(7, Some 21)] else [])\<rparr> :: caches"
  let ?f = "\<lparr>af_allowed = [7 \<mapsto> False], af_role = Some 5\<rparr> :: AllowFilter"
  let ?mb = "\<lparr>mb_bot = False, mb_roles = [5]\<rparr> :: member"
  let ?s = "s_BindRole memory_store 9 RoleTypeCaller 5 NewInMemoryStore"
  have u: "prefetch_users ?cs 9 21 31 = [7]" by (simp add: prefetch_users_def)
  have r: "HasCallerRole memory_store 9 (mb_roles ?mb) ?s" by code_simp
  have "af_allowed (snd (prefetchChannelMembers memory_store False 9 (Some 21) 31 (\<lambda>us. Some [(7, ?mb)]) True ?s (?cs, ?f))) 7 =
      Some (\<not> IsBot False ?mb \<and> HasCallerRole memory_store 9 (mb_roles ?mb) ?s)"
    using prefetch_repairs_committed_filter [of "(?cs, ?f)" 9 21 31 "\<lambda>us. Some [(7, ?mb)]" "[(7, ?mb)]" 7 ?mb memory_store False ?s] u
    by simp
  then show ?thesis using r by (simp add: Let_def IsBot_def)
qed

text \<open>
  A role change that arrives while a start is in flight reaches the cache and not the filter under
  construction: a user already heard stays allowed although the caller role is gone.
\<close>

theorem start_misses_role_change:
  assumes "af_allowed f u = Some True" and "\<not> IsBot ab mb" and "af_role f = Some r" and "r \<notin> set (mb_roles mb)"
    and "keepMember cs g u mb"
  shows "let cs' = AddMember g u mb cs in
    members cs' (g, u) = Some mb \<and> \<not> af_fallback ab cs' g (af_role f) u \<and> fst (af_Check ab cs' g u f)"
  using assms by (simp add: Let_def af_fallback_def af_Check_def check_lookup_def)

lemma start_misses_role_change_witness:
  "let cs = no_caches\<lparr>VoiceStates := (\<lambda>g. [(7, Some 21)])\<rparr>; f = \<lparr>af_allowed = [7 \<mapsto> True], af_role = Some 5\<rparr>;
       cs' = AddMember 9 7 \<lparr>mb_bot = False, mb_roles = []\<rparr> cs
   in fst (af_Check False cs' 9 7 f)"
  using start_misses_role_change [of "\<lparr>af_allowed = [7 \<mapsto> True], af_role = Some 5\<rparr>" 7 False
      "\<lparr>mb_bot = False, mb_roles = []\<rparr>" 5 "no_caches\<lparr>VoiceStates := (\<lambda>g. [(7, Some 21)])\<rparr>" 9]
  by (simp add: Let_def IsBot_def keepMember_def)

section \<open>Events of the gateway\<close>

text \<open>
  The listeners start a goroutine per event; the model takes them in the order they run.  The last
  argument of a member event says whether the member is a bot.
\<close>

datatype gateway_event =
    Ready "snowflake list"
  | GuildJoin snowflake
  | GuildLeave snowflake
  | MemberJoin snowflake snowflake bool
  | MemberLeave snowflake snowflake bool
  | ChannelDelete snowflake snowflake

fun on_event ::
  "'s Store \<Rightarrow> discord \<Rightarrow> (snowflake \<Rightarrow> snowflake list option) \<Rightarrow> instant \<times> gateway_event \<Rightarrow>
   readyGuard \<times> 's Service \<Rightarrow> readyGuard \<times> 's Service" where
  "on_event S dc ex (now, Ready gs) (guard, m) =
     (case admit now guard of (guard', allowed, tripped) \<Rightarrow>
        (guard', if allowed then SeedExistingSpeakers S dc ex gs m else m))"
| "on_event S dc ex (now, GuildJoin g) (guard, m) = (guard, SeedExistingSpeakers S dc ex [g] m)"
| "on_event S dc ex (now, GuildLeave g) (guard, m) = (guard, ForgetGuild dc g m)"
| "on_event S dc ex (now, MemberJoin g u is_bot) (guard, m) =
     (guard, if is_bot then TrySeedMember S dc g u m else m)"
| "on_event S dc ex (now, MemberLeave g u is_bot) (guard, m) =
     (guard, if is_bot then RemoveSpeaker g u m else m)"
| "on_event S dc ex (now, ChannelDelete g c) (guard, m) =
     (guard, m\<lparr>sv_store := ChannelDeleted S dc g c (sv_store m)\<rparr>)"

lemma ForgetGuild_statuses:
  "sv_store (ForgetGuild dc g m) = sv_store m"
  "statuses (ForgetGuild dc g m) h = (if h = g then None else statuses m h)"
proof -
  obtain r m1 where r: "stop_take g None m = (r, m1)" by fastforce
  then have m1: "sv_store m1 = sv_store m" "h \<noteq> g \<Longrightarrow> statuses m1 h = statuses m h"
    by (auto elim!: stop_take_cases simp: upd_status_def split: option.split)
  then show "sv_store (ForgetGuild dc g m) = sv_store m"
    "statuses (ForgetGuild dc g m) h = (if h = g then None else statuses m h)"
    by (auto simp: ForgetGuild_def forget_status_def StopVoiceRaid_def r stop_finish_def session_cleanup_def Let_def
        split: stop_result.split)
qed

lemma TrySeedMember_store [simp]: "sv_store (TrySeedMember S dc g u m) = sv_store m"
  by (simp add: TrySeedMember_def split: sum.split)

lemma seedGuild_session [simp]: "session_of h (seedGuild S dc ex g m) = session_of h m"
  by (simp add: seedGuild_def warm_channels_def split: option.split)

lemma SeedExistingSpeakers_session [simp]: "session_of h (SeedExistingSpeakers S dc ex gs m) = session_of h m"
  unfolding SeedExistingSpeakers_def by (induction gs arbitrary: m) simp_all

lemma on_event_session:
  assumes "\<forall>now. e \<noteq> (now, GuildLeave h)"
  shows "session_of h (snd (on_event S dc ex e gm)) = session_of h (snd gm)"
proof (cases "(S, dc, ex, e, gm)" rule: on_event.cases)
  case (1 S dc ex now gs guard m)
  then show ?thesis by (simp split: prod.split)
next
  case (3 S dc ex now g guard m)
  then show ?thesis using assms by (simp add: session_of_def ForgetGuild_statuses)
next
  case (4 S dc ex now g u is_bot guard m)
  then show ?thesis using do_speaker_frame(1) [of h S dc "MemberOp g u" m] by simp
next
  case (5 S dc ex now g u is_bot guard m)
  then show ?thesis using do_speaker_frame(1) [of h S dc "RemoveOp g u" m] by simp
qed simp_all

context store_laws
begin

lemma seedGuild_keeps:
  assumes "pool_keyed dc" and "one_bot_per_channel S dc (sv_store m)" and "service_synced S m"
  shows "one_bot_per_channel S dc (sv_store (seedGuild S dc ex g m)) \<and> service_synced S (seedGuild S dc ex g m)"
proof -
  have seeded: "service_synced S (seedGuildSpeakers S dc g m)"
    using do_speaker_synced [OF assms(1,3), of "SeedOp g"] by simp
  have "one_bot_per_channel S dc (drop_stale_bindings S dc g chs (sv_store m))" for chs
    using do_bind_exclusive [OF assms(2), of "WarmOp g chs"] by simp
  moreover have "service_synced S ((seedGuildSpeakers S dc g m)\<lparr>sv_store := drop_stale_bindings S dc g chs (sv_store m)\<rparr>)" for chs
    using unbindChannels_keeps by (intro service_synced_store seeded) (simp add: drop_stale_bindings_def)
  ultimately show ?thesis
    using assms(2) seeded by (simp add: seedGuild_def warm_channels_def split: option.split)
qed

lemma SeedExistingSpeakers_keeps:
  assumes "pool_keyed dc" and "one_bot_per_channel S dc (sv_store m)" and "service_synced S m"
  shows "one_bot_per_channel S dc (sv_store (SeedExistingSpeakers S dc ex gs m)) \<and>
    service_synced S (SeedExistingSpeakers S dc ex gs m)"
  using assms(2,3) unfolding SeedExistingSpeakers_def
  by (induction gs arbitrary: m) (simp_all add: seedGuild_keeps [OF assms(1)])

lemma on_event_keeps:
  assumes "pool_keyed dc" and "one_bot_per_channel S dc (sv_store (snd gm))" and "service_synced S (snd gm)"
  shows "one_bot_per_channel S dc (sv_store (snd (on_event S dc ex e gm))) \<and> service_synced S (snd (on_event S dc ex e gm))"
proof -
  obtain now ev guard m where gm: "e = (now, ev)" "gm = (guard, m)" by (cases e, cases gm) simp
  have keyed: "pool_keyed dc" and ok: "one_bot_per_channel S dc (sv_store m)" "service_synced S m"
    using assms gm by simp_all
  note sp = do_speaker_synced [OF keyed ok(2)]
  show ?thesis
  proof (cases ev)
    case (Ready gs)
    then show ?thesis using ok SeedExistingSpeakers_keeps [OF keyed ok] by (simp add: gm split: prod.split)
  next
    case (GuildJoin g)
    then show ?thesis using SeedExistingSpeakers_keeps [OF keyed ok] by (simp add: gm)
  next
    case (GuildLeave g)
    then show ?thesis using ok by (simp add: gm service_synced_def ForgetGuild_statuses)
  next
    case (MemberJoin g u is_bot)
    then show ?thesis using ok sp [of "MemberOp g u"] by (simp add: gm TrySeedMember_store)
  next
    case (MemberLeave g u is_bot)
    then show ?thesis using ok sp [of "RemoveOp g u"] by (simp add: gm RemoveSpeaker_def)
  next
    case (ChannelDelete g c)
    have "service_synced S (m\<lparr>sv_store := ChannelDeleted S dc g c (sv_store m)\<rparr>)"
      using unbindChannels_keeps by (intro service_synced_store ok) (simp add: ChannelDeleted_def)
    then show ?thesis using do_bind_exclusive [OF ok(1), of "DeletedOp g c"] by (simp add: gm ChannelDelete)
  qed
qed

end

text \<open>
  Whatever the gateway reports, in whatever order: no two bots come to share a channel, the enabled
  flags stay those of the store, and a guild keeps its raid until the bot is removed from it.
\<close>

theorem gateway_events_keep_contracts:
  assumes "pool_keyed dc" and "one_bot_per_channel yaml_store dc (sv_store m)" and "service_synced yaml_store m"
  shows "let m' = snd (fold (on_event yaml_store dc ex) es (guard, m)) in
    one_bot_per_channel yaml_store dc (sv_store m') \<and> service_synced yaml_store m' \<and>
    ((\<forall>now. (now, GuildLeave h) \<notin> set es) \<longrightarrow> session_of h m' = session_of h m)"
  using assms(2,3)
proof (induction es arbitrary: guard m)
  case (Cons e es)
  obtain guard' m' where e: "on_event yaml_store dc ex e (guard, m) = (guard', m')" by fastforce
  from yaml.on_event_keeps [OF assms(1), of "(guard, m)" ex e] Cons.prems
  have ok: "one_bot_per_channel yaml_store dc (sv_store m')" "service_synced yaml_store m'" by (simp_all add: e)
  have s: "session_of h m' = session_of h m" if "\<forall>now. e \<noteq> (now, GuildLeave h)"
    using on_event_session [OF that, of yaml_store dc ex "(guard, m)"] by (simp add: e)
  show ?case using Cons.IH [OF ok, of guard'] s by (auto simp: e Let_def)
qed simp

lemma gateway_events_keep_contracts_witness:
  "service_synced yaml_store (snd (fold (on_event yaml_store small_world (\<lambda>_. Some [21, 22]))
     [(0, Ready [9]), (1, MemberLeave 9 31 True), (2, MemberJoin 9 31 True), (3, GuildLeave 9)]
     (newReadyGuard, small_service)))"
proof -
  have k: "pool_keyed small_world" by (auto simp: pool_keyed_def small_world_def)
  have "one_bot_per_channel yaml_store small_world (sv_store small_service)" "service_synced yaml_store small_service"
    by (simp_all add: one_bot_per_channel_def new_service_def service_synced_def) (simp add: yaml_store_def Y_GetBoundChannel_def empty_YAMLStore_def)
  from gateway_events_keep_contracts [OF k this] show ?thesis unfolding Let_def by blast
qed

section \<open>Shutdown\<close>

text \<open>
  \<^verbatim>\<open>Shutdown\<close> collects the guilds with a session and stops each of them in a goroutine of its own.
  A schedule interleaves the two phases of the stops: taking the session under the lock and the slow rest.
\<close>

datatype stop_phase = TakePhase snowflake | FinishPhase snowflake

fun phase_guild :: "stop_phase \<Rightarrow> snowflake" where
  "phase_guild (TakePhase g) = g"
| "phase_guild (FinishPhase g) = g"

fun stop_phase_step ::
  "discord \<Rightarrow> stop_phase \<Rightarrow> 's Service \<times> (snowflake \<rightharpoonup> guild_session) \<Rightarrow> 's Service \<times> (snowflake \<rightharpoonup> guild_session)" where
  "stop_phase_step dc (TakePhase g) (m, taken) =
     (case stop_take g None m of
        (Taken se, m') \<Rightarrow> (m', taken(g \<mapsto> se))
      | (_, m') \<Rightarrow> (m', taken(g := None)))"
| "stop_phase_step dc (FinishPhase g) (m, taken) =
     (case taken g of None \<Rightarrow> (m, taken) | Some se \<Rightarrow> (stop_finish dc g se m, taken(g := None)))"

definition stop_schedule :: "snowflake set \<Rightarrow> stop_phase list \<Rightarrow> bool" where
  "stop_schedule gs ps \<longleftrightarrow>
     (\<forall>g. filter (\<lambda>p. phase_guild p = g) ps = (if g \<in> gs then [TakePhase g, FinishPhase g] else []))"

definition Shutdown :: "discord \<Rightarrow> stop_phase list \<Rightarrow> 's Service \<Rightarrow> 's Service" where
  "Shutdown dc ps m = fst (fold (stop_phase_step dc) ps (m, Map.empty))"

text \<open>What the phases of other guilds leave alone.\<close>

definition same_guild ::
  "snowflake \<Rightarrow> 's Service \<times> (snowflake \<rightharpoonup> guild_session) \<Rightarrow> 's Service \<times> (snowflake \<rightharpoonup> guild_session) \<Rightarrow> bool" where
  "same_guild g x y \<longleftrightarrow>
     session_of g (fst y) = session_of g (fst x) \<and> AutoRoute g (fst y) = AutoRoute g (fst x) \<and>
     voice_of g (fst y) = voice_of g (fst x) \<and> snd y g = snd x g \<and> cancelled (fst x) \<subseteq> cancelled (fst y) \<and>
     (GetByGuild g (sv_sessions (fst x)) = None \<longrightarrow> GetByGuild g (sv_sessions (fst y)) = None)"

definition others_differ :: "snowflake \<Rightarrow> nat \<Rightarrow> 's Service \<times> (snowflake \<rightharpoonup> guild_session) \<Rightarrow> bool" where
  "others_differ g t x \<longleftrightarrow>
     (\<forall>h se. h \<noteq> g \<and> (session_of h (fst x) = Some se \<or> snd x h = Some se) \<longrightarrow> gs_token se \<noteq> t)"

lemma others_differD:
  "others_differ g t x \<Longrightarrow> h \<noteq> g \<Longrightarrow> session_of h (fst x) = Some se \<or> snd x h = Some se \<Longrightarrow> gs_token se \<noteq> t"
  unfolding others_differ_def by blast

lemma others_differ_sub:
  assumes "others_differ g t x"
    and "\<And>h se. h \<noteq> g \<Longrightarrow> session_of h (fst y) = Some se \<or> snd y h = Some se \<Longrightarrow>
      session_of h (fst x) = Some se \<or> snd x h = Some se"
  shows "others_differ g t y"
  using assms unfolding others_differ_def by blast

lemma session_of_take:
  "session_of h (upd_status g (\<lambda>st. st\<lparr>st_Session := None\<rparr>) m) = (if h = g then None else session_of h m)"
  using session_of_clear [of h g m] by simp

lemma router_of_clear: "activeRouters (clearActiveRouter h m) g = (if g = h then None else activeRouters m g)"
  by (simp add: clearActiveRouter_def)

lemma RemoveHost_keeps_none: "byGuild am g = None \<Longrightarrow> byGuild (RemoveHost h am) g = None"
proof -
  have "byGuild (fold (\<lambda>g m. m\<lparr>byGuild := (byGuild m)(g := None)\<rparr>) gs m) g = None" if "byGuild m g = None" for gs and m :: Manager
    using that by (induction gs arbitrary: m) auto
  then show "byGuild am g = None \<Longrightarrow> byGuild (RemoveHost h am) g = None"
    by (auto simp: RemoveHost_def Let_def split: option.split)
qed

lemma session_cleanup_registry:
  "byGuild (sv_sessions (session_cleanup g se m)) = byGuild (sv_sessions m)"
  by (simp add: session_cleanup_def on_registry_def on_session_def)

lemma stop_finish_registry:
  "byGuild (sv_sessions m) h = None \<Longrightarrow> byGuild (sv_sessions (stop_finish dc g se m)) h = None"
  "\<not> gs_IsGuest se \<Longrightarrow> byGuild (sv_sessions (stop_finish dc g se m)) g = None"
proof -
  show "byGuild (sv_sessions m) h = None \<Longrightarrow> byGuild (sv_sessions (stop_finish dc g se m)) h = None"
    by (simp add: stop_finish_def Let_def on_registry_def RemoveHost_keeps_none session_cleanup_registry)
  have "byGuild (RemoveHost g am) g = None" for am
    using RemoveHost_effect(1) RemoveHost_keeps_none by (cases "byGuild am g") blast+
  then show "\<not> gs_IsGuest se \<Longrightarrow> byGuild (sv_sessions (stop_finish dc g se m)) g = None"
    by (simp add: stop_finish_def Let_def on_registry_def)
qed

lemma stop_finish_cancelled: "cancelled (stop_finish dc g se m) = insert (gs_token se) (cancelled m)"
  by (simp add: stop_finish_def session_cleanup_def Let_def)

lemma phase_of_other:
  assumes "phase_guild p \<noteq> g" and "stop_phase_step dc p x = y"
  shows "same_guild g x y \<and>
    (others_differ g t x \<longrightarrow> others_differ g t y \<and> (t \<in> cleaned (fst y) \<longrightarrow> t \<in> cleaned (fst x)))"
proof (cases p)
  case (TakePhase h)
  obtain m taken where x: "x = (m, taken)" by fastforce
  obtain r m' where r: "stop_take h None m = (r, m')" by fastforce
  from r show ?thesis
  proof (cases rule: stop_take_cases)
    case (1 se)
    then have y: "y = (clearActiveRouter h (upd_status h (\<lambda>st. st\<lparr>st_Session := None\<rparr>) m), taken(h \<mapsto> se))"
      using assms(2) r by (simp add: TakePhase x)
    have "others_differ g t y" if "others_differ g t x"
      using that by (rule others_differ_sub) (use 1(2) in \<open>auto simp: x y session_of_take split: if_splits\<close>)
    then show ?thesis using assms(1)
      by (auto simp: TakePhase x y same_guild_def session_of_take router_of_clear AutoRoute_def)
  next
    case 2
    then have y: "y = (m', taken(h := None))"
      using assms(2) r by (cases r) (simp_all add: TakePhase x)
    have m': "session_of k m' = session_of k m" for k using 2(2) by auto
    have "others_differ g t y" if "others_differ g t x"
      using that by (rule others_differ_sub) (auto simp: x y m' split: if_splits)
    then show ?thesis using 2(2) assms(1)
      by (auto simp: TakePhase x y same_guild_def AutoRoute_def)
  qed
next
  case (FinishPhase h)
  obtain m taken where x: "x = (m, taken)" by fastforce
  show ?thesis
  proof (cases "taken h")
    case None
    then show ?thesis using assms by (auto simp: FinishPhase x same_guild_def)
  next
    case (Some se)
    then have y: "y = (stop_finish dc h se m, taken(h := None))" using assms(2) by (simp add: FinishPhase x)
    have t: "gs_token se \<noteq> t \<and> others_differ g t y" if "others_differ g t x"
    proof
      show "gs_token se \<noteq> t" using others_differD [OF that, of h se] Some assms(1) by (simp add: x FinishPhase)
      show "others_differ g t y" using that
        by (rule others_differ_sub) (auto simp: x y stop_finish_frame split: if_splits)
    qed
    have same: "same_guild g x y" using assms(1)
      by (auto simp: y x FinishPhase same_guild_def stop_finish_frame AutoRoute_def
          stop_finish_cancelled GetByGuild_def intro: stop_finish_registry)
    show ?thesis using t same by (auto simp: x y stop_finish_frame)
  qed
qed

lemma phases_of_others:
  assumes "\<forall>p \<in> set ps. phase_guild p \<noteq> g" and "others_differ g t x"
  shows "same_guild g x (fold (stop_phase_step dc) ps x) \<and> others_differ g t (fold (stop_phase_step dc) ps x) \<and>
    (t \<in> cleaned (fst (fold (stop_phase_step dc) ps x)) \<longrightarrow> t \<in> cleaned (fst x))"
  using assms
proof (induction ps arbitrary: x)
  case (Cons p ps)
  let ?y = "stop_phase_step dc p x"
  have p: "same_guild g x ?y" "others_differ g t ?y" "t \<in> cleaned (fst ?y) \<longrightarrow> t \<in> cleaned (fst x)"
    using phase_of_other [of p g dc x ?y t] Cons.prems by simp_all
  from Cons.IH [OF _ p(2)] Cons.prems have IH: "same_guild g ?y (fold (stop_phase_step dc) ps ?y)"
    "others_differ g t (fold (stop_phase_step dc) ps ?y)"
    "t \<in> cleaned (fst (fold (stop_phase_step dc) ps ?y)) \<longrightarrow> t \<in> cleaned (fst ?y)" by simp_all
  have "same_guild g x (fold (stop_phase_step dc) ps ?y)"
    using p(1) IH(1) by (auto simp: same_guild_def)
  then show ?case using IH(2,3) p(3) by simp
qed (simp add: same_guild_def)

lemma stop_schedule_split:
  assumes "stop_schedule gs ps" and "g \<in> gs"
  obtains pre mid post where "ps = pre @ TakePhase g # mid @ FinishPhase g # post"
    "\<forall>p \<in> set pre. phase_guild p \<noteq> g" "\<forall>p \<in> set mid. phase_guild p \<noteq> g" "\<forall>p \<in> set post. phase_guild p \<noteq> g"
proof -
  have "filter (\<lambda>p. phase_guild p = g) ps = [TakePhase g, FinishPhase g]"
    using assms by (simp add: stop_schedule_def)
  from filter_eq_ConsD [OF this] obtain pre rest where 1: "ps = pre @ TakePhase g # rest"
    "\<forall>p \<in> set pre. phase_guild p \<noteq> g" "filter (\<lambda>p. phase_guild p = g) rest = [FinishPhase g]" by metis
  from filter_eq_ConsD [OF 1(3)] obtain mid post where 2: "rest = mid @ FinishPhase g # post"
    "\<forall>p \<in> set mid. phase_guild p \<noteq> g" "filter (\<lambda>p. phase_guild p = g) post = []" by metis
  show thesis using that [of pre mid post] 1 2 by (auto simp: filter_empty_conv)
qed


text \<open>The guilds are ranged over once each; a start in flight is neither collected nor cancelled.\<close>

lemma phases_spare_starts:
  assumes "\<forall>p \<in> set ps. phase_guild p \<noteq> g \<or> p = FinishPhase g" and "snd x g = None" and "others_differ g t x"
    and "session_of g (fst x) = None" and "distinct ps"
    and "\<forall>h. TakePhase h \<in> set ps \<longrightarrow> session_of h (fst x) \<noteq> None"
  shows "t \<in> cancelled (fst (fold (stop_phase_step dc) ps x)) \<longrightarrow> t \<in> cancelled (fst x)"
  using assms
proof (induction ps arbitrary: x)
  case (Cons p ps)
  obtain m taken where x: "x = (m, taken)" by fastforce
  let ?y = "stop_phase_step dc p x"
  have step: "snd ?y g = None \<and> others_differ g t ?y \<and> session_of g (fst ?y) = None \<and>
      (t \<in> cancelled (fst ?y) \<longrightarrow> t \<in> cancelled m) \<and>
      (\<forall>h. TakePhase h \<in> set ps \<longrightarrow> session_of h (fst ?y) \<noteq> None)"
  proof (cases p)
    case (TakePhase h)
    with Cons.prems(6) obtain se where se: "session_of h m = Some se" by (force simp: x)
    have hg: "h \<noteq> g" using Cons.prems(4) se by (auto simp: x)
    have y: "stop_phase_step dc p (m, taken) = (clearActiveRouter h (upd_status h (\<lambda>st. st\<lparr>st_Session := None\<rparr>) m), taken(h \<mapsto> se))"
      using stop_take_active [OF se, of None] by (simp add: TakePhase x)
    have "TakePhase h \<notin> set ps" using Cons.prems(5) TakePhase by simp
    then have "\<forall>h'. TakePhase h' \<in> set ps \<longrightarrow> h' \<noteq> h \<and> session_of h' m \<noteq> None"
      using Cons.prems(6) by (auto simp: x)
    moreover have "others_differ g t (stop_phase_step dc p (m, taken))"
      using Cons.prems(3) by (rule others_differ_sub) (use se in \<open>auto simp: x y session_of_take split: if_splits\<close>)
    ultimately show ?thesis using Cons.prems(2,4) hg by (simp add: y x session_of_take)
  next
    case (FinishPhase h)
    show ?thesis
    proof (cases "taken h")
      case None
      then show ?thesis using Cons.prems by (simp add: FinishPhase x)
    next
      case (Some se)
      have y: "stop_phase_step dc p (m, taken) = (stop_finish dc h se m, taken(h := None))" by (simp add: FinishPhase x Some)
      have "h \<noteq> g" using Some Cons.prems(2) by (auto simp: x)
      then have "gs_token se \<noteq> t" using others_differD [OF Cons.prems(3), of h se] Some by (simp add: x)
      moreover have "others_differ g t (stop_phase_step dc p (m, taken))"
        using Cons.prems(3) by (rule others_differ_sub) (auto simp: x y stop_finish_frame split: if_splits)
      ultimately show ?thesis using Cons.prems(2,4,6)
        by (simp add: y x stop_finish_frame stop_finish_cancelled)
    qed
  qed
  have "t \<in> cancelled (fst (fold (stop_phase_step dc) ps ?y)) \<longrightarrow> t \<in> cancelled (fst ?y)"
    using Cons.IH [of ?y] Cons.prems(1,5) step by simp
  then show ?case using step by (auto simp: x)
qed simp

lemma stop_schedule_distinct:
  assumes "stop_schedule gs ps"
  shows "distinct ps"
proof -
  have "count (mset ps) p \<le> 1" for p
  proof -
    have "count (mset ps) p = count (mset (filter (\<lambda>q. phase_guild q = phase_guild p) ps)) p" by simp
    also have "\<dots> \<le> 1" using assms by (cases p) (simp_all add: stop_schedule_def)
    finally show ?thesis .
  qed
  then show ?thesis by (simp add: distinct_count_atmost_1 count_mset_gt_0) (metis One_nat_def Suc_leI count_greater_zero_iff le_antisym not_gr_zero set_mset_mset count_inI)
qed

text \<open>
  A start in flight outlives the shutdown: its guild has no session to stop, and nothing cancels its
  context or takes its guard.
\<close>

theorem Shutdown_spares_starts:
  assumes "stop_schedule {h. HasActiveSession h m} ps" and "starting m g = Some t" and "session_of g m = None"
    and "t \<notin> cancelled m" and "\<And>h se. session_of h m = Some se \<Longrightarrow> gs_token se \<noteq> t"
  shows "t \<notin> cancelled (Shutdown dc ps m)"
proof -
  have inactive: "\<forall>p \<in> set ps. phase_guild p \<noteq> g"
  proof -
    have "filter (\<lambda>p. phase_guild p = g) ps = []"
      using assms(1,3) by (simp add: stop_schedule_def HasActiveSession_iff)
    then show ?thesis by (simp add: filter_empty_conv)
  qed
  have takes: "session_of h m \<noteq> None" if "TakePhase h \<in> set ps" for h
  proof (rule ccontr)
    assume "\<not> session_of h m \<noteq> None"
    then have "filter (\<lambda>p. phase_guild p = h) ps = []"
      using assms(1) by (simp add: stop_schedule_def HasActiveSession_iff)
    with that show False by (auto simp: filter_empty_conv)
  qed
  have "t \<in> cancelled (fst (fold (stop_phase_step dc) ps (m, Map.empty))) \<longrightarrow> t \<in> cancelled m"
    using phases_spare_starts [of ps g "(m, Map.empty)" t dc] inactive takes assms(3,5) stop_schedule_distinct [OF assms(1)]
    by (auto simp: others_differ_def)
  then show ?thesis using assms(4) by (simp add: Shutdown_def)
qed

text \<open>Two guilds with a raid each, stopped in an interleaved schedule, and a start in flight in a third.\<close>

definition last_session :: "nat \<Rightarrow> guild_session" where
  "last_session t = \<lparr>gs_token = t, gs_Speakers = [\<lparr>spk_ID = 31, Username = ''a'', Enabled = True\<rparr>], gs_AllyCode = ''CODE'',
     gs_IsGuest = False, gs_AutoRouter = Some t, gs_ally = t, gs_detach = False\<rparr>"

definition last_service :: "YAMLStore Service" where
  "last_service = small_service\<lparr>
     statuses := [8 \<mapsto> (NewStatus 8 30)\<lparr>st_Session := Some (last_session 1)\<rparr>,
                  9 \<mapsto> (NewStatus 9 30)\<lparr>st_Session := Some (last_session 2)\<rparr>],
     activeRouters := [8 \<mapsto> 1, 9 \<mapsto> 2], starting := [7 \<mapsto> 3],
     in_voice := {(8, 30), (8, 31), (9, 30), (9, 31), (9, 77)}\<rparr>"

lemma last_sessions:
  "session_of h last_service = (if h = 8 then Some (last_session 1) else if h = 9 then Some (last_session 2) else None)"
  by (simp add: last_service_def session_of_def)

lemma last_schedule:
  "stop_schedule {h. HasActiveSession h last_service} [TakePhase 9, TakePhase 8, FinishPhase 8, FinishPhase 9]"
proof -
  have "{h. HasActiveSession h last_service} = {8, 9}" by (auto simp: HasActiveSession_iff last_sessions)
  then show ?thesis by (simp add: stop_schedule_def)
qed


lemma Shutdown_spares_starts_witness:
  "3 \<notin> cancelled (Shutdown small_world [TakePhase 9, TakePhase 8, FinishPhase 8, FinishPhase 9] last_service)"
proof (rule Shutdown_spares_starts [OF last_schedule])
  show "starting last_service 7 = Some 3" "session_of 7 last_service = None" "3 \<notin> cancelled last_service"
    by (simp_all add: last_sessions) (simp_all add: last_service_def new_service_def)
  show "gs_token se \<noteq> 3" if "session_of h last_service = Some se" for h se
    using that by (auto simp: last_sessions last_session_def split: if_splits)
qed

section \<open>The exported caller counts\<close>

text \<open>The voice channels of the active guilds, once per caller in them.\<close>

definition caller_channels ::
  "'s Store \<Rightarrow> bool \<Rightarrow> caches \<Rightarrow> snowflake \<Rightarrow> 's \<Rightarrow> (snowflake \<times> snowflake) list" where
  "caller_channels S ab cs g s =
     concat (map (\<lambda>v. case snd v of
         None \<Rightarrow> []
       | Some c \<Rightarrow> (case members cs (g, fst v) of
             None \<Rightarrow> []
           | Some mb \<Rightarrow> if IsBot ab mb \<or> \<not> HasCallerRole S g (mb_roles mb) s then [] else [(g, c)]))
       (VoiceStates cs g))"

definition countVoiceCallers ::
  "'s Store \<Rightarrow> bool \<Rightarrow> caches \<Rightarrow> snowflake list \<Rightarrow> 's Service \<Rightarrow> (snowflake \<times> snowflake) \<rightharpoonup> nat" where
  "countVoiceCallers S ab cs guilds m =
     fold (\<lambda>k n. n(k \<mapsto> (case n k of None \<Rightarrow> 1 | Some i \<Rightarrow> Suc i)))
       (concat (map (\<lambda>g. if HasActiveSession g m then caller_channels S ab cs g (sv_store m) else []) guilds)) Map.empty"

text \<open>
  One collection: \<open>reported\<close> is what the last one reported, \<open>chs\<close> the order in which the map of counts
  is ranged over.
\<close>

definition observeVoiceCallers ::
  "('k \<rightharpoonup> nat) \<Rightarrow> 'k list \<Rightarrow> 'k list \<Rightarrow> ('k \<times> nat) list \<times> 'k list" where
  "observeVoiceCallers counts chs reported =
     (map (\<lambda>c. (c, 0)) (filter (\<lambda>c. counts c = None) reported) @ map (\<lambda>c. (c, the (counts c))) chs, chs)"

text \<open>What a gauge shows after a sequence of collections.\<close>

fun collect_callers :: "(('k \<rightharpoonup> nat) \<times> 'k list) list \<Rightarrow> ('k \<rightharpoonup> nat) \<times> 'k list \<Rightarrow> ('k \<rightharpoonup> nat) \<times> 'k list" where
  "collect_callers [] x = x"
| "collect_callers ((counts, chs) # rest) (gauge, reported) =
     (case observeVoiceCallers counts chs reported of
        (obs, reported') \<Rightarrow> collect_callers rest (gauge ++ map_of (rev obs), reported'))"

lemma fold_counts:
  "fold (\<lambda>k n. n(k \<mapsto> (case n k of None \<Rightarrow> 1 | Some i \<Rightarrow> Suc i))) ks n k =
     (if k \<in> set ks then Some (count_list ks k + (case n k of None \<Rightarrow> 0 | Some i \<Rightarrow> i)) else n k)"
  by (induction ks arbitrary: n) (auto split: option.split)

lemma count_caller_channels:
  "s_GetBoundRole S g RoleTypeCaller s = Some r \<Longrightarrow>
   count_list (caller_channels S ab cs g s) (g, c) = length (probe_callers ab cs g r c)"
proof -
  assume r: "s_GetBoundRole S g RoleTypeCaller s = Some r"
  have "count_list (concat (map (\<lambda>v. case snd v of None \<Rightarrow> []
       | Some c \<Rightarrow> (case members cs (g, fst v) of None \<Rightarrow> []
           | Some mb \<Rightarrow> if IsBot ab mb \<or> \<not> HasCallerRole S g (mb_roles mb) s then [] else [(g, c)])) vs)) (g, c) =
    length (filter (\<lambda>v. in_channel c v \<and> (case members cs (g, fst v) of None \<Rightarrow> False
       | Some mb \<Rightarrow> \<not> IsBot ab mb \<and> r \<in> set (mb_roles mb))) vs)" for vs
    by (induction vs) (auto simp: in_channel_def HasCallerRole_def r split: option.splits)
  then show ?thesis by (simp add: caller_channels_def probe_callers_def)
qed

lemma caller_channels_guild: "x \<in> set (caller_channels S ab cs g s) \<Longrightarrow> fst x = g"
  by (auto simp: caller_channels_def split: option.splits if_splits)

lemma count_concat_own:
  assumes "distinct gs" and "g \<in> set gs" and "\<And>h x. x \<in> set (f h) \<Longrightarrow> fst x = h"
  shows "count_list (concat (map f gs)) (g, c) = count_list (f g) (g, c)"
  using assms(1,2)
proof (induction gs)
  case (Cons h gs)
  have none: "count_list (concat (map f hs)) (g, c) = 0" if "g \<notin> set hs" for hs
    using that by (auto simp: count_list_0_iff dest: assms(3))
  have "count_list (f h) (g, c) = 0" if "h \<noteq> g"
    using that by (auto simp: count_list_0_iff dest: assms(3))
  with Cons none show ?case by (cases "h = g") auto
qed simp

text \<open>
  The exported number of callers of a channel is the number of callers the router sees in it, as long as
  its guild has a raid.
\<close>

theorem counts_agree_with_router:
  assumes "distinct guilds" and "g \<in> set guilds" and "HasActiveSession g m"
    and "s_GetBoundRole S g RoleTypeCaller (sv_store m) = Some r"
  shows "(case countVoiceCallers S ab cs guilds m (g, c) of None \<Rightarrow> 0 | Some n \<Rightarrow> n) = length (probe_callers ab cs g r c)"
proof -
  let ?f = "\<lambda>g. if HasActiveSession g m then caller_channels S ab cs g (sv_store m) else []"
  have "count_list (concat (map ?f guilds)) (g, c) = count_list (?f g) (g, c)"
    using assms(1,2) by (rule count_concat_own) (auto dest: caller_channels_guild split: if_splits)
  then have n: "count_list (concat (map ?f guilds)) (g, c) = length (probe_callers ab cs g r c)"
    using assms(3) count_caller_channels [OF assms(4)] by simp
  then show ?thesis
    by (auto simp: countVoiceCallers_def fold_counts count_list_0_iff [symmetric] simp del: set_concat)
qed

text \<open>
  A gauge that keeps the last value it was given is never stale: after any sequence of collections
  it shows the counts of the last one, and 0 where there is nobody any more.
\<close>

theorem caller_gauge_never_stale:
  assumes "\<And>counts chs. (counts, chs) \<in> set (cols @ [(last_counts, last_chs)]) \<Longrightarrow> set chs = dom counts"
  shows "(case fst (collect_callers (cols @ [(last_counts, last_chs)]) (Map.empty, [])) c of None \<Rightarrow> 0 | Some n \<Rightarrow> n) =
    (case last_counts c of None \<Rightarrow> 0 | Some n \<Rightarrow> n)"
proof -
  have obs: "map_of (rev (fst (observeVoiceCallers counts chs reported))) c =
      (case counts c of None \<Rightarrow> if c \<in> set reported then Some 0 else None | Some n \<Rightarrow> Some n)"
    if "set chs = dom counts" for counts chs reported and c :: 'a
  proof -
    have on: "map_of (rev (map (\<lambda>c. (c, f c)) xs)) c = (if c \<in> set xs then Some (f c) else None)" for f :: "'a \<Rightarrow> nat" and xs
      by (simp add: rev_map map_of_map_restrict)
    have "c \<in> set chs \<longleftrightarrow> counts c \<noteq> None" using that by auto
    then show ?thesis
      by (auto simp: observeVoiceCallers_def on map_add_def split: option.split)
  qed
  define ok where "ok x \<longleftrightarrow> (\<forall>c. fst x c \<noteq> None \<and> fst x c \<noteq> Some 0 \<longrightarrow> c \<in> set (snd x))" for x :: "('a \<rightharpoonup> nat) \<times> 'a list"
  have main: "(case fst (collect_callers (cols @ [(last_counts, last_chs)]) x) c of None \<Rightarrow> 0 | Some n \<Rightarrow> n) =
      (case last_counts c of None \<Rightarrow> 0 | Some n \<Rightarrow> n)" if "ok x" for x
    using assms that
  proof (induction cols arbitrary: x)
    case Nil
    then show ?case using obs [of last_chs last_counts "snd x" c]
      by (cases x) (auto simp: ok_def map_add_def split_beta split: option.splits if_splits)
  next
    case (Cons col cols)
    obtain counts chs where col: "col = (counts, chs)" by fastforce
    obtain gauge reported where x: "x = (gauge, reported)" by fastforce
    have d: "set chs = dom counts" using Cons.prems(1) by (simp add: col)
    let ?y = "(gauge ++ map_of (rev (fst (observeVoiceCallers counts chs reported))), chs)"
    have "ok ?y" using obs [OF d, of reported] Cons.prems(2) d
      by (auto simp: ok_def x map_add_def split: option.splits)
    from Cons.IH [OF _ this] Cons.prems(1) show ?case
      by (simp add: col x split_beta observeVoiceCallers_def)
  qed
  have "ok (Map.empty, [])" by (simp add: ok_def)
  from main [OF this] show ?thesis .
qed

end
