(* ===== verification/Settings.thy ===== *)
theory Settings
  imports Bot
begin

text \<open>
  What the operators set and what they read: the configuration of \<^verbatim>\<open>internal/config/config.go\<close>, the
  choice of a language in \<^verbatim>\<open>internal/i18n\<close> and the status page of \<^verbatim>\<open>internal/guild/status.go\<close>.

  The translations themselves, the reading of an \<^verbatim>\<open>.env\<close> file and \<^verbatim>\<open>time.ParseDuration\<close> are
  arguments.  A text is its UTF-8 bytes.
\<close>

section \<open>Configuration\<close>

definition env_split :: "string \<Rightarrow> (string \<times> string) option" where
  "env_split e =
     (if CHR ''='' \<in> set e then Some (takeWhile (\<lambda>c. c \<noteq> CHR ''='') e, tl (dropWhile (\<lambda>c. c \<noteq> CHR ''='') e)) else None)"

text \<open>\<^verbatim>\<open>os.Getenv\<close>: the first entry counts, and a missing one is empty.\<close>

definition Getenv :: "string list \<Rightarrow> string \<Rightarrow> string" where
  "Getenv env k = (case map_of (List.map_filter env_split env) k of None \<Rightarrow> [] | Some v \<Rightarrow> v)"

definition is_digit :: "char \<Rightarrow> bool" where
  "is_digit c \<longleftrightarrow> 48 \<le> (of_char c :: int) \<and> (of_char c :: int) \<le> 57"

text \<open>\<^verbatim>\<open>strconv.Atoi\<close> of digits: beyond 64 bits it reports an error, which is ignored, and the greatest integer.\<close>

definition Atoi :: "string \<Rightarrow> int" where
  "Atoi ds = min (foldl (\<lambda>n c. 10 * n + (of_char c - 48)) 0 ds) (2 ^ 63 - 1)"

definition speakerTokenPrefix :: string where
  "speakerTokenPrefix = ''DISCORD_SPEAKER_BOT_TOKEN_''"

definition speaker_index :: "string \<Rightarrow> int option" where
  "speaker_index key =
     (let ds = drop (length speakerTokenPrefix) key in
      if take (length speakerTokenPrefix) key = speakerTokenPrefix \<and> ds \<noteq> [] \<and> list_all is_digit ds then Some (Atoi ds) else None)"

definition indexed_tokens :: "string list \<Rightarrow> (int \<times> string) list" where
  "indexed_tokens env =
     List.map_filter (\<lambda>e. case env_split e of
         None \<Rightarrow> None
       | Some (key, val) \<Rightarrow> if val = [] then None else map_option (\<lambda>i. (i, val)) (speaker_index key)) env"

definition loadSpeakerTokens :: "string list \<Rightarrow> string list" where
  "loadSpeakerTokens env = map snd (sort_key fst (indexed_tokens env))"

definition defaultSessionIdleTimeout :: duration where
  "defaultSessionIdleTimeout = 10 * Minute"

definition parseSessionIdleTimeout :: "(string \<Rightarrow> duration option) \<Rightarrow> string \<Rightarrow> duration" where
  "parseSessionIdleTimeout ParseDuration s =
     (if s = [] then defaultSessionIdleTimeout
      else case ParseDuration s of None \<Rightarrow> defaultSessionIdleTimeout | Some d \<Rightarrow> d)"

definition storePath :: "string list \<Rightarrow> string" where
  "storePath env = (let p = Getenv env ''STORE_PATH'' in if p \<noteq> [] then p else ''store.yaml'')"

text \<open>The log levels are left out.\<close>

record Config =
  OwnerBotToken :: string
  SpeakerTokens :: "string list"
  StorePath :: string
  OtelEndpoint :: string
  PyroscopeEndpoint :: string
  SessionIdleTimeout :: duration
  AllowBots :: bool

text \<open>\<open>dotenv\<close>: what reading the \<^verbatim>\<open>.env\<close> file failed with, a missing file aside; \<open>env\<close>: the environment after it, in
  which no name is repeated.\<close>

definition Load :: "(string \<Rightarrow> duration option) \<Rightarrow> string option \<Rightarrow> string list \<Rightarrow> string + Config" where
  "Load ParseDuration dotenv env =
     (case dotenv of
        Some err \<Rightarrow> Inl (''error reading .env file: '' @ err)
      | None \<Rightarrow>
          if Getenv env ''DISCORD_OWNER_BOT_TOKEN'' = []
          then Inl ''DISCORD_OWNER_BOT_TOKEN environment variable is required''
          else Inr \<lparr>OwnerBotToken = Getenv env ''DISCORD_OWNER_BOT_TOKEN'', SpeakerTokens = loadSpeakerTokens env,
                    StorePath = storePath env, OtelEndpoint = Getenv env ''OTEL_ENDPOINT'',
                    PyroscopeEndpoint = Getenv env ''PYROSCOPE_ENDPOINT'',
                    SessionIdleTimeout = parseSessionIdleTimeout ParseDuration (Getenv env ''SESSION_IDLE_TIMEOUT''),
                    AllowBots = (Getenv env ''TEST_ALLOW_BOTS'' = ''true'')\<rparr>)"

text \<open>
  The speaker tokens come in the order of their numbers whatever the order of the environment, and
  whichever way the sort breaks ties: if no two variables have the same number, every sorted
  arrangement of them gives the same list.
\<close>

theorem speaker_tokens_in_index_order:
  assumes "distinct (map fst (indexed_tokens env))" and "mset env' = mset env"
    and "mset xs = mset (indexed_tokens env')" and "sorted (map fst xs)"
  shows "map snd xs = loadSpeakerTokens env"
proof -
  let ?ys = "sort_key fst (indexed_tokens env)"
  have "mset (indexed_tokens env') = mset (indexed_tokens env)"
    using assms(2) by (simp add: indexed_tokens_def List.map_filter_def)
  then have m: "mset xs = mset ?ys" using assms(3) by simp
  have dy: "distinct (map fst ?ys)"
    using assms(1) by (simp add: distinct_map)
  moreover have dx: "distinct (map fst xs)"
    using dy m by (metis mset_eq_imp_distinct_iff mset_map)
  moreover have "set xs = set ?ys" using m by (rule mset_eq_setD)
  moreover have "inj_on fst (set xs \<union> set ?ys)"
    using calculation by (simp add: distinct_map)
  ultimately have "xs = ?ys"
    using assms(4) by (intro map_sorted_distinct_set_unique [where f = fst]) simp_all
  then show ?thesis by (simp add: loadSpeakerTokens_def)
qed

lemma speaker_tokens_in_index_order_witness:
  "loadSpeakerTokens [''DISCORD_SPEAKER_BOT_TOKEN_10=b'', ''DISCORD_SPEAKER_BOT_TOKEN_2=a'', ''DISCORD_SPEAKER_1_BOT_TOKEN=x''] =
    [''a'', ''b'']"
proof -
  let ?env = "[''DISCORD_SPEAKER_BOT_TOKEN_10=b'', ''DISCORD_SPEAKER_BOT_TOKEN_2=a'', ''DISCORD_SPEAKER_1_BOT_TOKEN=x'']"
  have i: "indexed_tokens ?env = [(10, ''b''), (2, ''a'')]" by code_simp
  have "map snd [(2 :: int, ''a''), (10, ''b'')] = loadSpeakerTokens ?env"
    by (rule speaker_tokens_in_index_order [where env' = ?env]) (simp_all add: i)
  then show ?thesis by simp
qed

text \<open>
  Only a duration that parses and is not positive turns the idle watcher off: neither a missing setting
  nor one that is wrong does.
\<close>

theorem idle_watcher_disabled_only_explicitly:
  "(\<forall>ticks. presence_Run \<lparr>pw_channels = chs, pw_callerRole = r,
      pw_idleTimeout = parseSessionIdleTimeout ParseDuration s\<rparr> ticks = None) \<longleftrightarrow>
   chs = [] \<or> (s \<noteq> [] \<and> (\<exists>d \<le> 0. ParseDuration s = Some d))"
proof -
  let ?w = "\<lparr>pw_channels = chs, pw_callerRole = r, pw_idleTimeout = parseSessionIdleTimeout ParseDuration s\<rparr>"
  let ?d = "parseSessionIdleTimeout ParseDuration s"
  have pos: "?d \<le> 0 \<longleftrightarrow> s \<noteq> [] \<and> (\<exists>d \<le> 0. ParseDuration s = Some d)"
    by (auto simp: parseSessionIdleTimeout_def defaultSessionIdleTimeout_def duration_defs split: option.split)
  let ?p = "\<lparr>EnumerateCallers = (\<lambda>_. []), HasListeners = (\<lambda>_. False), RelayFeed = (\<lambda>_. False)\<rparr>"
  have run: "presence_Run ?w [(0, ?p), (?d, ?p)] = Some 1" if "chs \<noteq> []" "0 < ?d"
    using that by (simp add: presence_Run_def hasCaller_def IsZero_def zero_time_def duration_defs list_ex_iff)
  show ?thesis (is "?never \<longleftrightarrow> ?off")
  proof
    assume never: ?never
    show ?off
    proof (rule ccontr)
      assume "\<not> ?off"
      then have "chs \<noteq> []" "0 < ?d" using pos by (simp_all only: not_le [symmetric]) blast+
      from run [OF this] never show False by simp
    qed
  next
    assume ?off
    then show ?never using pos by (auto simp: presence_Run_def)
  qed
qed

section \<open>Languages\<close>

text \<open>The locales Discord knows; \<open>NoLocale\<close> is the empty one.\<close>

datatype discord_locale =
    NoLocale | EnglishUS | EnglishGB | Russian | SpanishES | SpanishLATAM | German | French | PortugueseBR
  | Polish | Turkish | OtherLocale string

definition DefaultLocale :: string where "DefaultLocale = ''en''"

definition discordLocaleToBundle :: "(discord_locale \<times> string) list" where
  "discordLocaleToBundle =
     [(EnglishUS, ''en''), (EnglishGB, ''en''), (Russian, ''ru''), (SpanishES, ''es''), (SpanishLATAM, ''es''),
      (German, ''de''), (French, ''fr''), (PortugueseBR, ''pt''), (Polish, ''pl''), (Turkish, ''tr'')]"

definition bundleLocaleFromDiscord :: "discord_locale \<Rightarrow> string" where
  "bundleLocaleFromDiscord d =
     (if d = NoLocale then [] else case map_of discordLocaleToBundle d of None \<Rightarrow> [] | Some bl \<Rightarrow> bl)"

definition SupportedBundleLocales :: "string list" where
  "SupportedBundleLocales = [''en'', ''es'', ''de'', ''fr'', ''pt'', ''pl'', ''ru'', ''tr'']"

definition DiscordLocalesFor :: "string \<Rightarrow> discord_locale list" where
  "DiscordLocalesFor bl = map fst (filter (\<lambda>x. snd x = bl) discordLocaleToBundle)"

datatype arg = ArgStr string | ArgInt int

text \<open>
  The loaded tags and \<^verbatim>\<open>Localize\<close> of the library: it is given the languages to try, the key, the template
  data and the plural count, and fails if the first language has no such message.
\<close>

record Bundle =
  bn_tags :: "string list"
  bn_Localize :: "string list \<Rightarrow> string \<Rightarrow> (string \<rightharpoonup> arg) option \<Rightarrow> arg option \<Rightarrow> string option"

definition hasLocale :: "Bundle \<Rightarrow> string \<Rightarrow> bool" where
  "hasLocale b code \<longleftrightarrow> code \<in> set (bn_tags b)"

definition Bundle_For :: "Bundle \<Rightarrow> string \<Rightarrow> discord_locale \<Rightarrow> string" where
  "Bundle_For b guildLocale d =
     (case find (\<lambda>c. c \<noteq> [] \<and> hasLocale b c) [guildLocale, bundleLocaleFromDiscord d, DefaultLocale] of
        None \<Rightarrow> DefaultLocale
      | Some c \<Rightarrow> c)"

fun template_args :: "arg list \<Rightarrow> (string \<rightharpoonup> arg) \<times> arg option \<Rightarrow> (string \<rightharpoonup> arg) \<times> arg option" where
  "template_args (n # v # rest) (data, cnt) =
     (case n of
        ArgStr name \<Rightarrow> template_args rest (data(name \<mapsto> v), if name = ''Count'' then Some v else cnt)
      | ArgInt i \<Rightarrow> template_args rest (data, cnt))"
| "template_args _ x = x"

definition Localizer_T :: "Bundle \<Rightarrow> string \<Rightarrow> string \<Rightarrow> arg list \<Rightarrow> string" where
  "Localizer_T b locale key args =
     (let (data, cnt) = template_args args (Map.empty, None) in
      case bn_Localize b [locale, DefaultLocale] key (if args = [] then None else Some data) cnt of
        None \<Rightarrow> key
      | Some msg \<Rightarrow> msg)"

definition describe_in :: "Bundle \<Rightarrow> string \<Rightarrow> string \<Rightarrow> (discord_locale \<rightharpoonup> string) \<Rightarrow> (discord_locale \<rightharpoonup> string)" where
  "describe_in b key bl out =
     (if bl = DefaultLocale \<or> \<not> hasLocale b bl then out
      else let val = Localizer_T b (Bundle_For b bl NoLocale) key [] in
        if val = [] \<or> val = key then out else fold (\<lambda>d out. out(d \<mapsto> val)) (DiscordLocalesFor bl) out)"

definition DescriptionLocalizations :: "Bundle \<Rightarrow> string \<Rightarrow> (discord_locale \<rightharpoonup> string)" where
  "DescriptionLocalizations b key = fold (describe_in b key) SupportedBundleLocales Map.empty"

text \<open>\<^verbatim>\<open>Service.GetLocale\<close> and the localizer of a command.\<close>

definition M_GetLocale :: "'s Store \<Rightarrow> snowflake \<Rightarrow> 's \<Rightarrow> string" where
  "M_GetLocale S g s = (case s_GetLocale S g s of None \<Rightarrow> [] | Some l \<Rightarrow> l)"

definition handler_locale :: "'s Store \<Rightarrow> Bundle \<Rightarrow> snowflake \<Rightarrow> discord_locale \<Rightarrow> 's \<Rightarrow> string" where
  "handler_locale S b g d s = Bundle_For b (M_GetLocale S g s) d"

lemma Bundle_For_loaded: "c \<noteq> [] \<Longrightarrow> hasLocale b c \<Longrightarrow> Bundle_For b c d = c"
  by (simp add: Bundle_For_def)

lemma fold_same_value: "fold (\<lambda>d out. out(d \<mapsto> v)) ds out d = (if d \<in> set ds then Some v else out d)"
  by (induction ds arbitrary: out) auto

lemma DiscordLocalesFor_own: "bl \<noteq> [] \<Longrightarrow> d \<in> set (DiscordLocalesFor bl) \<longleftrightarrow> bundleLocaleFromDiscord d = bl"
  by (cases d) (auto simp: DiscordLocalesFor_def bundleLocaleFromDiscord_def discordLocaleToBundle_def)

text \<open>
  Every client locale is given the text of its own language and no other: a description is registered for it
  exactly if its language is not the default one, is loaded, and has a translation of the key.
\<close>

theorem DescriptionLocalizations_exact:
  "DescriptionLocalizations b key d =
    (let bl = bundleLocaleFromDiscord d; val = Localizer_T b bl key [] in
     if bl \<noteq> [] \<and> bl \<noteq> DefaultLocale \<and> hasLocale b bl \<and> val \<noteq> [] \<and> val \<noteq> key then Some val else None)"
proof -
  let ?bl = "bundleLocaleFromDiscord d"
  let ?val = "Localizer_T b ?bl key []"
  let ?ok = "?bl \<noteq> DefaultLocale \<and> hasLocale b ?bl \<and> ?val \<noteq> [] \<and> ?val \<noteq> key"
  have step: "describe_in b key bl out d = (if bl = ?bl \<and> ?ok then Some ?val else out d)" if "bl \<noteq> []" for bl out
    using that DiscordLocalesFor_own [OF that, of d] by (auto simp: describe_in_def Bundle_For_loaded Let_def fold_same_value)
  have run: "fold (describe_in b key) bls out d = (if ?bl \<in> set bls \<and> ?ok then Some ?val else out d)"
    if "[] \<notin> set bls" for bls out
    using that by (induction bls arbitrary: out) (auto simp: step)
  have "?bl \<noteq> [] \<longleftrightarrow> ?bl \<in> set SupportedBundleLocales" "[] \<notin> set SupportedBundleLocales"
    by (cases d; simp add: bundleLocaleFromDiscord_def discordLocaleToBundle_def SupportedBundleLocales_def)
      (simp add: SupportedBundleLocales_def)
  with run [of SupportedBundleLocales Map.empty] show ?thesis
    by (simp add: DescriptionLocalizations_def Let_def)
qed

text \<open>
  The language an administrator pins is the language of every answer in that server, whatever the clients
  use; with \<^emph>\<open>auto\<close> each client's own one is back; other servers are not concerned.
\<close>

theorem pinned_locale_wins:
  assumes "hasLocale b l" and "l \<noteq> []" and "l \<noteq> localeAutoValue"
  shows "handler_locale yaml_store b g d (sv_store (snd (handleBindLocale yaml_store g (Some [l]) m))) = l \<and>
    handler_locale yaml_store b g d (sv_store (snd (handleBindLocale yaml_store g (Some [localeAutoValue]) m))) = Bundle_For b [] d \<and>
    (h \<noteq> g \<longrightarrow> handler_locale yaml_store b h d (sv_store (snd (handleBindLocale yaml_store g sel m))) =
      handler_locale yaml_store b h d (sv_store m))"
  using assms
  by (auto simp: handler_locale_def handleBindLocale_def M_GetLocale_def yaml.get_locale yaml.bind_locale yaml.unbind_locale
      Bundle_For_loaded unexpected_data_def split: option.split)

lemma pinned_locale_wins_witness:
  "handler_locale yaml_store \<lparr>bn_tags = [''en'', ''de''], bn_Localize = (\<lambda>ls key data cnt. None)\<rparr> 9 French
     (sv_store (snd (handleBindLocale yaml_store 9 (Some [''de'']) small_service))) = ''de''"
  using pinned_locale_wins [of "\<lparr>bn_tags = [''en'', ''de''], bn_Localize = (\<lambda>ls key data cnt. None)\<rparr>" "''de''" 9 French small_service]
  by (simp add: hasLocale_def localeAutoValue_def)

section \<open>The status page\<close>

function show_nat :: "nat \<Rightarrow> string" where
  "show_nat n = (if n < 10 then [char_of (48 + n)] else show_nat (n div 10) @ [char_of (48 + n mod 10)])"
  by pat_completeness auto
termination by (relation "measure id") auto

declare show_nat.simps [simp del]

definition show_int :: "int \<Rightarrow> string" where
  "show_int i = (if i < 0 then ''-'' @ show_nat (nat (- i)) else show_nat (nat i))"

definition loud_speaker :: string where "loud_speaker = map char_of [240 :: nat, 159, 148, 138]"
definition mute_speaker :: string where "mute_speaker = map char_of [240 :: nat, 159, 148, 135]"
definition red_circle :: string where "red_circle = map char_of [240 :: nat, 159, 148, 180]"
definition black_circle :: string where "black_circle = map char_of [226 :: nat, 154, 171]"
definition warning_sign :: string where "warning_sign = map char_of [226 :: nat, 154, 160, 239, 184, 143]"

fun fallback_args :: "arg list \<Rightarrow> int \<times> string \<times> string \<Rightarrow> int \<times> string \<times> string" where
  "fallback_args (n # v # rest) (cnt, host, gsts) = fallback_args rest
     (case n of
        ArgInt i \<Rightarrow> (cnt, host, gsts)
      | ArgStr name \<Rightarrow>
          let str = (case v of ArgStr x \<Rightarrow> x | ArgInt i \<Rightarrow> []) in
          if name = ''Count'' then (case v of ArgInt i \<Rightarrow> (i, host, gsts) | ArgStr x \<Rightarrow> (cnt, host, gsts))
          else if name = ''Host'' then (cnt, str, gsts)
          else if name = ''Guests'' then (cnt, host, str)
          else (cnt, host, gsts))"
| "fallback_args _ x = x"

definition englishStatusFallback :: "string \<Rightarrow> arg list \<Rightarrow> string" where
  "englishStatusFallback key args =
     (let (cnt, host, gsts) = fallback_args args (-1, [], []) in
      if key = ''status.guild'' then ''Guild''
      else if key = ''status.capture_role'' then ''Capture Role''
      else if key = ''status.manager_role'' then ''Manager Role''
      else if key = ''status.owner_channel'' then ''Owner Bot Channel''
      else if key = ''status.not_set'' then ''not set''
      else if key = ''status.capture_role_required''
        then warning_sign @ '' not set '' @ em_dash @ '' required: voice raids cannot start''
      else if key = ''status.unbound'' then ''unbound''
      else if key = ''status.ally_code'' then ''Ally Code''
      else if key = ''status.raid'' then ''Voice Raid''
      else if key = ''status.raid_inactive'' then black_circle @ '' inactive''
      else if key = ''status.speakers_header'' then ''Speakers ('' @ show_int cnt @ ''):''
      else if key = ''status.raid_active'' then red_circle @ '' active ('' @ show_int cnt @ '' speakers joined)''
      else if key = ''status.raid_active_with_guests''
        then red_circle @ '' active ('' @ show_int cnt @ '' speakers joined) '' @ em_dash @ '' guests: '' @ gsts
      else if key = ''status.raid_guest''
        then red_circle @ '' guest relay '' @ right_arrow @ '' '' @ host @ '' ('' @ show_int cnt @ '' speakers joined)''
      else key)"

definition newline :: string where "newline = [CHR 0x0A]"

definition status_line :: "string \<Rightarrow> string \<Rightarrow> string" where
  "status_line label value = newline @ ''**'' @ label @ '':** '' @ value @ newline"

fun joined :: "string \<Rightarrow> string list \<Rightarrow> string" where
  "joined sep [] = []"
| "joined sep [x] = x"
| "joined sep (x # xs) = x @ sep @ joined sep xs"

definition speaker_line :: "(snowflake \<Rightarrow> string) \<Rightarrow> string \<Rightarrow> (snowflake \<times> snowflake) list \<Rightarrow> Speaker \<Rightarrow> string" where
  "speaker_line str unbound chs sp =
     ''- '' @ (if Enabled sp then loud_speaker else mute_speaker) @ '' <@'' @ str (spk_ID sp) @ ''> '' @ right_arrow @ '' '' @
     (case map_of chs (spk_ID sp) of None \<Rightarrow> unbound | Some c \<Rightarrow> ''<#'' @ str c @ ''>'') @ newline"

definition raid_line :: "(string \<Rightarrow> arg list \<Rightarrow> string) \<Rightarrow> Status \<Rightarrow> string" where
  "raid_line t st =
     (case st_Session st of
        None \<Rightarrow> t ''status.raid_inactive'' []
      | Some se \<Rightarrow>
          let n = ArgInt (int (length (gs_Speakers se))) in
          if gs_IsGuest se
          then t ''status.raid_guest'' [ArgStr ''Count'', n, ArgStr ''Host'',
            ArgStr (if HostGuildName st \<noteq> [] then HostGuildName st @ '' (`'' @ gs_AllyCode se @ ''`)'' else gs_AllyCode se)]
          else if GuestGuildNames st \<noteq> []
          then t ''status.raid_active_with_guests'' [ArgStr ''Count'', n, ArgStr ''Guests'', ArgStr (joined '', '' (GuestGuildNames st))]
          else t ''status.raid_active'' [ArgStr ''Count'', n])"

text \<open>\<open>loc\<close> is the translator, if there is one; \<open>str\<close> prints a snowflake.\<close>

definition Render :: "(snowflake \<Rightarrow> string) \<Rightarrow> (string \<Rightarrow> arg list \<Rightarrow> string) option \<Rightarrow> Status \<Rightarrow> string" where
  "Render str loc st =
     (let t = (case loc of None \<Rightarrow> englishStatusFallback | Some f \<Rightarrow> f); sps = GetSortedSpeakers st in
      (if st_GuildName st \<noteq> [] then status_line (t ''status.guild'' []) (st_GuildName st) else []) @
      status_line (t ''status.capture_role'' [])
        (case CallerRoleID st of Some r \<Rightarrow> ''<@&'' @ str r @ ''>'' | None \<Rightarrow> t ''status.capture_role_required'' []) @
      status_line (t ''status.manager_role'' [])
        (case ManagerRoleID st of Some r \<Rightarrow> ''<@&'' @ str r @ ''>'' | None \<Rightarrow> t ''status.not_set'' []) @
      status_line (t ''status.owner_channel'' [])
        (case map_of (BoundChannels st) (OwnerUserID st) of Some c \<Rightarrow> ''<#'' @ str c @ ''>'' | None \<Rightarrow> t ''status.not_set'' []) @
      newline @ ''**'' @ t ''status.speakers_header'' [ArgStr ''Count'', ArgInt (int (length sps))] @ ''**'' @ newline @
      concat (map (speaker_line str (t ''status.unbound'' []) (BoundChannels st)) sps) @
      (if st_AllyCode st \<noteq> [] then status_line (t ''status.ally_code'' []) (''`'' @ st_AllyCode st @ ''`'') else []) @
      status_line (t ''status.raid'' []) (raid_line t st))"

lemma sorted_speakers_unique:
  assumes "mset sps' = mset sps" and "distinct (map Username sps)"
  shows "sort_key Username sps' = sort_key Username sps"
proof (rule map_sorted_distinct_set_unique [where f = Username])
  have s: "mset (sort_key Username sps') = mset (sort_key Username sps)" using assms(1) by simp
  show "distinct (map Username (sort_key Username sps))"
    using assms(2) by (metis mset_eq_imp_distinct_iff mset_map mset_sort)
  then show "distinct (map Username (sort_key Username sps'))"
    using s by (metis mset_eq_imp_distinct_iff mset_map)
  show "set (sort_key Username sps') = set (sort_key Username sps)" using s by (rule mset_eq_setD)
  then show "inj_on Username (set (sort_key Username sps') \<union> set (sort_key Username sps))"
    using assms(2) by (simp add: distinct_map)
qed simp_all

text \<open>
  The page does not depend on the order in which the maps of a status are ranged over: with speakers of
  different names and the same bindings it is the same text.
\<close>

theorem Render_ignores_map_order:
  assumes "mset (map snd sps) = mset (map snd (Speakers st))" and "distinct (map (Username \<circ> snd) (Speakers st))"
    and "map_of chs = map_of (BoundChannels st)"
  shows "Render str loc (st\<lparr>Speakers := sps, BoundChannels := chs\<rparr>) = Render str loc st"
proof -
  have "GetSortedSpeakers (st\<lparr>Speakers := sps, BoundChannels := chs\<rparr>) = GetSortedSpeakers st"
    using sorted_speakers_unique [OF assms(1)] assms(2) by (simp add: GetSortedSpeakers_def)
  moreover have "speaker_line str unbound chs = speaker_line str unbound (BoundChannels st)" for unbound
    using assms(3) by (simp add: speaker_line_def fun_eq_iff)
  ultimately show ?thesis using assms(3) by (simp add: Render_def raid_line_def Let_def cong: if_cong option.case_cong)
qed

text \<open>Two speakers, one of them bound and muted, listed in the order of their names.\<close>

lemma Render_ignores_map_order_witness:
  "Render (\<lambda>b. show_nat (unat b)) None
     ((NewStatus 9 30)\<lparr>Speakers := [(32, \<lparr>spk_ID = 32, Username = ''b'', Enabled = True\<rparr>), (31, \<lparr>spk_ID = 31, Username = ''a'', Enabled = False\<rparr>)],
        BoundChannels := [(31, 21)]\<rparr>) =
   Render (\<lambda>b. show_nat (unat b)) None
     ((NewStatus 9 30)\<lparr>Speakers := [(31, \<lparr>spk_ID = 31, Username = ''a'', Enabled = False\<rparr>), (32, \<lparr>spk_ID = 32, Username = ''b'', Enabled = True\<rparr>)],
        BoundChannels := [(31, 21)]\<rparr>)"
  using Render_ignores_map_order [of "[(32, \<lparr>spk_ID = 32, Username = ''b'', Enabled = True\<rparr>), (31, \<lparr>spk_ID = 31, Username = ''a'', Enabled = False\<rparr>)]"
      "(NewStatus 9 30)\<lparr>Speakers := [(31, \<lparr>spk_ID = 31, Username = ''a'', Enabled = False\<rparr>), (32, \<lparr>spk_ID = 32, Username = ''b'', Enabled = True\<rparr>)],
        BoundChannels := [(31, 21)]\<rparr>" "[(31, 21)]" "\<lambda>b. show_nat (unat b)" None]
  by simp

section \<open>The pages of the setup panel\<close>

text \<open>The options of the language menu, each with whether it is marked as the current one.\<close>

definition buildLocaleSelect :: "string \<Rightarrow> (string \<times> bool) list" where
  "buildLocaleSelect pinned =
     (localeAutoValue, pinned = []) # map (\<lambda>bl. (bl, bl = pinned)) SupportedBundleLocales"

record main_page =
  mp_locales :: "(string \<times> bool) list"
  mp_ownerChannel :: "snowflake option"
  mp_rolesMissing :: bool
  mp_addSpeaker :: bool
  mp_text :: string

record roles_page =
  rp_caller :: "snowflake option"
  rp_manager :: "snowflake option"
  rp_text :: string

definition buildMainSetupMessage ::
  "'s Store \<Rightarrow> discord \<Rightarrow> (string \<Rightarrow> arg list \<Rightarrow> string) \<Rightarrow> snowflake \<Rightarrow> 's Service \<Rightarrow> main_page" where
  "buildMainSetupMessage S dc t g m =
     (let st = GetStatus S dc g m in
      \<lparr>mp_locales = buildLocaleSelect (M_GetLocale S g (sv_store m)),
       mp_ownerChannel = s_GetBoundChannel S g (ownerBotID dc) (sv_store m),
       mp_rolesMissing = (CallerRoleID st = None), mp_addSpeaker = HasAvailableToken dc g m,
       mp_text = t ''setup.main_title'' [] @ newline @ Render (showID dc) (Some t) st\<rparr>)"

definition buildRolesPageMessage ::
  "'s Store \<Rightarrow> discord \<Rightarrow> (string \<Rightarrow> arg list \<Rightarrow> string) \<Rightarrow> snowflake \<Rightarrow> 's Service \<Rightarrow> roles_page" where
  "buildRolesPageMessage S dc t g m =
     (let st = GetStatus S dc g m in
      \<lparr>rp_caller = CallerRoleID st, rp_manager = ManagerRoleID st,
       rp_text = t ''setup.roles_title'' [] @ newline @ Render (showID dc) (Some t) st\<rparr>)"

text \<open>
  What is picked in the language menu is what the redrawn menu shows: whichever option it was, that one
  and no other is marked.
\<close>

theorem locale_menu_shows_choice:
  assumes "v \<in> fst ` set (buildLocaleSelect pinned)"
  shows "filter snd (mp_locales (buildMainSetupMessage yaml_store dc t g
      (snd (handleBindLocale yaml_store g (Some [v]) m)))) = [(v, True)]"
proof -
  let ?m' = "snd (handleBindLocale yaml_store g (Some [v]) m)"
  have v: "v = localeAutoValue \<or> v \<in> set SupportedBundleLocales"
    using assms by (auto simp: buildLocaleSelect_def)
  have l: "M_GetLocale yaml_store g (sv_store ?m') = (if v = localeAutoValue then [] else v)"
    by (simp add: M_GetLocale_def handleBindLocale_def yaml.get_locale yaml.bind_locale yaml.unbind_locale split: option.split)
  have "localeAutoValue \<notin> set SupportedBundleLocales" "[] \<notin> set SupportedBundleLocales" "localeAutoValue \<noteq> []"
    by (simp_all add: localeAutoValue_def SupportedBundleLocales_def)
  moreover have "filter snd (map (\<lambda>bl. (bl, bl = v)) bls) = (if v \<in> set bls then [(v, True)] else [])"
    if "distinct bls" for bls
    using that by (induction bls) auto
  moreover have "distinct SupportedBundleLocales" by (simp add: SupportedBundleLocales_def)
  moreover have "filter snd (map (\<lambda>bl. (bl, bl = [])) SupportedBundleLocales) = []"
    by (simp add: SupportedBundleLocales_def)
  ultimately show ?thesis using v by (auto simp: buildMainSetupMessage_def Let_def l buildLocaleSelect_def)
qed

lemma locale_menu_shows_choice_witness:
  "filter snd (mp_locales (buildMainSetupMessage yaml_store small_world (\<lambda>k args. k) 9
      (snd (handleBindLocale yaml_store 9 (Some [''pl'']) small_service)))) = [(''pl'', True)]"
  by (rule locale_menu_shows_choice [where pinned = "[]"]) (simp add: buildLocaleSelect_def SupportedBundleLocales_def)

end
