(* ===== verification/Spec2Isabelle.thy ===== *)
theory Spec2Isabelle
  imports Drain Deafen Bot Dave Conn Pool Lifecycle Settings
begin

text \<open>
  A verification of go-discord-caller, a Discord bot that relays voice between channels and servers.  All
  paths are below \<^verbatim>\<open>src/\<close>.

  \<^bold>\<open>The program\<close>.  An owner bot and a pool of speaker bots join voice channels of a server.  A \<^emph>\<open>raid\<close> is one
  such session: every captured channel has a source, every channel that is played to a mixer, and the relay
  (\<^emph>\<open>ally session\<close>) carries packets to raids of other servers that joined with a code.  The manager starts
  and stops raids and keeps a session per guild; a pipeline, chosen by the raid mode, says which source feeds which
  mixer; the auto-router switches each source between off, copy (packets are passed on as they are) and mix
  (packets are decoded) as callers come and go; the deafen controller deafens speakers nobody has to listen
  through; voice connections that break are joined again.  The store keeps the bindings of a guild in a YAML file.

  \<^bold>\<open>The theories\<close>, each with the code it models:

  \<^item> \<open>Prelude\<close>: snowflakes are \<open>64 word\<close>, times are \<open>int\<close> nanoseconds, and the few facts about maps and folds shared by all.
  \<^item> \<open>Source\<close>, \<open>Mixer\<close>, \<open>Drain\<close>, \<open>VoiceIO\<close> (\<^verbatim>\<open>internal/opus\<close>): buffer pools and the ring between a producer and a
    mixer, the 20 ms tick, the drain watcher, the provider and the receiver of a connection.  A buffer is a
    number and the pools account for where each is, so a lost or doubled buffer is visible.  Samples are \<open>16 word\<close>
    and the sum of a tick \<open>32 word\<close>, as in Go, with the wrap-around.
  \<^item> \<open>Store\<close>, \<open>YamlStore\<close> (\<^verbatim>\<open>internal/store\<close>): the store interface as a record of operations (\<open>'s Store\<close>), the
    in-memory store, the file-backed one and its flush loop as a step relation.  The locale \<open>store_laws\<close> states
    what a store promises; both stores interpret it, and \<open>Service\<close>, \<open>Bot\<close> and \<open>Lifecycle\<close> prove their lemmas in it.
    In the same way \<open>audio_source\<close> states what a mixer input promises and the ring interprets it.
  \<^item> \<open>RaidMode\<close> (\<^verbatim>\<open>internal/guild/raid_mode.go\<close>), \<open>Routes\<close>, \<open>Router\<close> (\<^verbatim>\<open>internal/manager/router\<close>), \<open>Install\<close>,
    \<open>Pipeline\<close> (\<^verbatim>\<open>internal/manager/pipeline\<close>): the modes, the cascade rule \<open>computeRoutes\<close>, the router around it
    (slots, handles, inputs, timers), what a mode installs on a source, and the topologies that are built
    for a host and a guest.
  \<^item> \<open>Deafen\<close> (\<^verbatim>\<open>internal/manager/speaker_deafen.go\<close>): the controller as a function of events; its timers fire in any order.
  \<^item> \<open>Ally\<close> (\<^verbatim>\<open>internal/ally/session.go\<close>): relay sessions in a heap, as guilds and codes share pointers.
  \<^item> \<open>Service\<close>, \<open>Raid\<close>, \<open>RaidRun\<close> (\<^verbatim>\<open>internal/manager/service.go\<close>, \<^verbatim>\<open>service_commands.go\<close>, \<^verbatim>\<open>channel_bindings.go\<close>,
    \<^verbatim>\<open>voice_raid.go\<close>, \<^verbatim>\<open>voice_raid_setup.go\<close>, \<^verbatim>\<open>start_guard.go\<close>): the state per guild, starts, joins and stops as functions cut at
    the points where they wait for Discord, and the step relation \<open>raid_step\<close> that interleaves all of them.
  \<^item> \<open>Reconnect\<close> (\<^verbatim>\<open>voice_reconnect.go\<close>, \<^verbatim>\<open>voice_raid_reconnect.go\<close>, \<^verbatim>\<open>voice_ready_watch.go\<close>): the rejoin of a bot in phases, the
    lock per bot, the pacing; \<open>rc_step\<close> interleaves it with the rest of the service.
  \<^item> \<open>Presence\<close> (\<^verbatim>\<open>allow_user.go\<close>, \<^verbatim>\<open>session_idle.go\<close>, \<^verbatim>\<open>internal/bot/owner_cache.go\<close>): the caches, the allow filter
    of the receivers, the probe of the router and the idle watcher.
  \<^item> \<open>Lifecycle\<close> (\<^verbatim>\<open>internal/bot/handlers.go\<close>, the seeding and \<^verbatim>\<open>Shutdown\<close> of the manager): from READY to shutdown.
  \<^item> \<open>Bot\<close>, \<open>Settings\<close> (\<^verbatim>\<open>internal/bot\<close>, \<^verbatim>\<open>internal/config\<close>, \<^verbatim>\<open>internal/i18n\<close>, \<^verbatim>\<open>internal/guild/status.go\<close>): commands, the setup
    panel, configuration, languages and the status page.
  \<^item> \<open>Dave\<close> (\<^verbatim>\<open>internal/dave\<close>), \<open>Conn\<close>, \<open>Pool\<close> (\<^verbatim>\<open>internal/pool\<close>): the accounting of encryption, what hangs on a
    voice connection, and the pool of clients.

  \<^bold>\<open>State and concurrency\<close>.  A struct is a record, passed on and returned; a method is a function.  Code under one
  lock is one step.  Where the code lets a lock go, the model cuts: \<open>advance\<close> is one phase of a start,
  \<open>stop_take\<close> and \<open>stop_finish\<close> are the two halves of a stop, \<open>recompute_sample\<close> and \<open>apply_ops\<close> those of a recompute,
  \<open>check_lookup\<close> and \<open>check_store\<close> those of a filter decision.  Step relations, or lists of operations in any order,
  range over all interleavings of these phases.  Go maps that are ranged over are association lists, and what depends
  on their order is proved for every order.  What Discord and the libraries answer is an argument: \<open>attempt\<close>,
  \<open>discord\<close>, \<open>connect_answer\<close>, the codecs, YAML text, random draws.

  \<^bold>\<open>What is shown\<close>, by group:

  \<^item> \<^emph>\<open>Raids\<close> (\<open>RaidRun\<close>, \<open>Raid\<close>, \<open>Lifecycle\<close>): at most one start per guild; a committed start agrees with everything that
    describes it; failed starts, stops and shutdowns leave nothing behind; in an orderly run (leaves get through, the owner bot's
    connection does not fail after it joined, a guest's goroutine ends before the next session of its guild commits,
    a forgotten guild has no session) no bot is stranded and the published routers are those of the sessions.  What
    happens when a stop overlaps a start, or a leave is dropped, is proved too.
  \<^item> \<^emph>\<open>Routing\<close> (\<open>Routes\<close>, \<open>Router\<close>, \<open>Pipeline\<close>, \<open>Install\<close>): \<open>computeRoutes\<close> is the least solution of the cascade rule and
    puts no two writers on a channel, no prefix of applying a new routing does either, a recompute is
    idempotent, a close silences every writer; every pipeline satisfies what the router relies on; who is heard
    where in each topology.
  \<^item> \<^emph>\<open>Audio\<close> (\<open>Mixer\<close>, \<open>Source\<close>, \<open>VoiceIO\<close>, \<open>Conn\<close>): mixing is exact for up to four speakers, no buffer is lost or used
    twice, a goroutine does not outlive its connection, a bot that cannot encrypt is noticed.
  \<^item> \<^emph>\<open>Bindings\<close> (\<open>Store\<close>, \<open>YamlStore\<close>, \<open>Service\<close>, \<open>Bot\<close>): the YAML store refines the in-memory one, saving and reopening loses
    nothing, no update is lost by the flush loop, one bot per channel, flags that follow the store.
  \<^item> \<^emph>\<open>Relay, deafening, presence, recovery\<close>: delivery to everybody but the sender, a consistent registry, requested states
    that are pursued, one judgement of who is a caller, paced rejoins, an exact idle watcher.

  A property is named C1 to C40 in the text before it, in the order of importance; a theorem \<open>x_witness\<close> applies \<open>x\<close> to
  concrete data.  Theorems without a number are the library's, some of which show where the code departs from its
  comments.

  \<^bold>\<open>Bounds and termination\<close>.  All functions are total.  The loop of \<open>computeRoutes\<close> is \<open>cascade_loop\<close>, which ends as
  every round but the last lowers the number of mixers not yet started and sources not yet promoted; \<open>uniqueAllyCode\<close> draws until a code is free and is a
  partial function, so that not returning is \<open>None\<close>, and it is proved to return when some draw is free.  Loops
  that run until a context ends (the mixer, the watchers, the flush loop) are folds over their ticks or steps, for
  every number of them.  No fuel is used.

  \<^bold>\<open>Not modelled\<close>.  Telemetry and logging (\<^verbatim>\<open>internal/telemetry\<close>: output nothing reads back), the construction of clients and
  command definitions in \<^verbatim>\<open>internal/bot/bot.go\<close> and \<^verbatim>\<open>commands.go\<close>, labels of widgets and texts of translations, log
  levels, the entry points below \<^verbatim>\<open>cmd\<close>, and the harness below \<^verbatim>\<open>integration\<close>, which needs a live Discord.  The
  libraries are arguments: disgo, golibdave, the Opus codec, go-i18n, YAML, godotenv, and of Go's own library
  \<^verbatim>\<open>time.ParseDuration\<close>.  Data races inside a step are outside the model: each lock region and atomic
  operation is taken as indivisible.
\<close>

end
